(* ===== verification/Mythos_Prelude.thy ===== *)
theory Mythos_Prelude
  imports Main "HOL-Library.Word" "HOL-Library.Monad_Syntax"
begin

unbundle bit_operations_syntax

text \<open>
  Shared base of the development: the machine integer types of the kernel, the error codes of
  \<^verbatim>\<open>kernel/mythos/error/mythos/Error.hh\<close>, the results of
  \<^verbatim>\<open>kernel/util/optional/util/optional.hh\<close>, the assertion macro of
  \<^verbatim>\<open>kernel/util/assert/util/assert.hh\<close>, and generic lemmas on words and lists.

  Three conventions hold everywhere.
  An operation that can fail in the source by returning an error value has a result of type
  \<open>Error + 'a\<close>.
  An operation that can stop the kernel (a failed \<^verbatim>\<open>ASSERT\<close>) or that spins forever because a lock is
  never released returns an \<^typ>\<open>'a option\<close> in which \<^term>\<open>None\<close> means that control does not come back.
  State is passed explicitly: an operation takes the state and returns the new one.
\<close>

section \<open>Machine integers\<close>

type_synonym u8 = "8 word"
type_synonym u16 = "16 word"
type_synonym u32 = "32 word"
type_synonym u64 = "64 word"

section \<open>Error codes and results\<close>

datatype Error =
    SUCCESS | UNSET | INHIBIT | GENERIC_ERROR | INVALID_CAPABILITY | INVALID_ARGUMENT
  | NON_CANONICAL_ADDRESS | UNALIGNED | INSUFFICIENT_RESOURCES | LOST_RACE | RETRY | NO_MESSAGE
  | TYPE_MISMATCH | NOT_IMPLEMENTED | CAP_NONEMPTY | NOT_KERNELMEM | CYCLIC_DEPENDENCY
  | PORTAL_NOT_OPEN | PORTAL_NOT_INVOKED | PORTAL_NO_BUFFER | PORTAL_NO_ENDPOINT | NO_LOOKUP
  | INVALID_REQUEST | REQUEST_DENIED | PAGEMAP_MISSING | PAGEMAP_NOCONF

type_synonym 'a optional = "Error + 'a"

definition opt_state :: "'a optional \<Rightarrow> Error" where
  "opt_state r = (case r of Inl e \<Rightarrow> e | Inr _ \<Rightarrow> SUCCESS)"

definition opt_isError :: "'a optional \<Rightarrow> bool" where
  "opt_isError r \<longleftrightarrow> opt_state r \<noteq> SUCCESS"

definition boxError :: "Error \<Rightarrow> unit optional" where
  "boxError e = (if e = SUCCESS then Inr () else Inl e)"

definition rethrow_error :: "'a optional \<Rightarrow> 'b optional" where
  "rethrow_error r = Inl (opt_state r)"

section \<open>Assertions\<close>

definition ASSERT :: "bool \<Rightarrow> unit option" where
  "ASSERT b = (if b then Some () else None)"

definition implies :: "bool \<Rightarrow> bool \<Rightarrow> bool" where
  "implies a b \<longleftrightarrow> \<not> a \<or> b"

section \<open>Collections of rewrite rules\<close>

named_theorems link_simps \<open>packing and unpacking of tagged pointers\<close>
named_theorems frame_simps \<open>fields and objects an operation leaves alone\<close>
named_theorems step_simps \<open>one-step behaviour of an operation\<close>

section \<open>Lemmas on results and assertions\<close>

lemma opt_state_simps [simp]:
  "opt_state (Inl e) = e" "opt_state (Inr x) = SUCCESS"
  by (simp_all add: opt_state_def)

lemma opt_isError_simps [simp]:
  "opt_isError (Inl e) \<longleftrightarrow> e \<noteq> SUCCESS" "\<not> opt_isError (Inr x)"
  by (simp_all add: opt_isError_def)

lemma opt_state_boxError [simp]: "opt_state (boxError e) = e"
  by (simp add: boxError_def)

lemma ASSERT_simps [simp]: "ASSERT True = Some ()" "ASSERT False = None"
  by (simp_all add: ASSERT_def)

lemma ASSERT_eq_Some [simp]: "ASSERT b = Some u \<longleftrightarrow> b"
  by (simp add: ASSERT_def)

lemma ASSERT_bind [simp]: "b \<Longrightarrow> Option.bind (ASSERT b) f = f ()"
  by (simp add: ASSERT_def)

lemma ASSERT_bind_eq_Some [simp]: "Option.bind (ASSERT b) f = Some y \<longleftrightarrow> b \<and> f () = Some y"
  by (simp add: ASSERT_def)

section \<open>Lemmas on words\<close>

lemma bit_7_iff [simp]: "bit (7 :: 'a::len word) n \<longleftrightarrow> n < 3 \<and> n < LENGTH('a)"
proof -
  have "(7 :: 'a word) = mask 3"
    by (simp add: mask_eq_exp_minus_1)
  then show ?thesis
    by (simp only: bit_mask_iff) auto
qed

lemma bit_7_int_iff [simp]: "bit (7 :: int) n \<longleftrightarrow> n < 3"
proof -
  have "(7 :: int) = mask 3"
    by (simp add: mask_eq_exp_minus_1)
  then show ?thesis
    by (simp only: bit_mask_iff) auto
qed

lemma bit_mask29_int_iff [simp]: "bit (536870911 :: int) n \<longleftrightarrow> n < 29"
proof -
  have "(536870911 :: int) = mask 29"
    by (simp add: mask_eq_exp_minus_1)
  then show ?thesis
    by (simp only: bit_mask_iff) auto
qed

lemma and_mask_compl_or [simp]: "(x AND m) OR (x AND NOT m) = (x :: 'a::len word)"
  by (rule bit_word_eqI) (auto simp: bit_simps)

lemma or_disjoint_and_left:
  "x AND m = 0 \<Longrightarrow> y AND NOT m = 0 \<Longrightarrow> (x OR y) AND m = (y :: 'a::len word)"
  by (rule bit_word_eqI) (auto simp: bit_simps bit_eq_iff)

lemma or_disjoint_and_right:
  "x AND m = 0 \<Longrightarrow> y AND NOT m = 0 \<Longrightarrow> (x OR y) AND NOT m = (x :: 'a::len word)"
  by (rule bit_word_eqI) (auto simp: bit_simps bit_eq_iff)

lemma unat_u64_less: "unat (v :: u64) < 2 ^ 64"
  using unsigned_less [of v, where ?'a = nat] by simp

lemma unat_add_small: "unat a + unat b < 2 ^ 64 \<Longrightarrow> unat (a + b :: u64) = unat a + unat b"
  by (simp add: unat_word_ariths(1))

lemma unat_sub_small: "unat b \<le> unat a \<Longrightarrow> unat (a - b :: u64) = unat a - unat b"
  by (simp add: unat_sub word_le_nat_alt)

section \<open>Lemmas on lists\<close>

lemma distinct_butlast_neq_last: "distinct xs \<Longrightarrow> x \<in> set (butlast xs) \<Longrightarrow> x \<noteq> last xs"
  by (induction xs) (auto split: if_splits)

end
