(* ===== verification/Align.thy ===== *)
theory Align
  imports Mythos_Prelude
begin

text \<open>
  Alignment arithmetic, from \<^verbatim>\<open>kernel/util/alignment/util/align.hh\<close>. The templates compute in
  \<^verbatim>\<open>size_t\<close> and cast the result back to the type of the value. Division by zero traps, so an
  alignment of zero does not return.
\<close>

definition is_aligned :: "'a::len word \<Rightarrow> u64 \<Rightarrow> bool option" where
  "is_aligned v a = (if a = 0 then None else Some ((ucast v :: u64) mod a = 0))"

definition round_down :: "'a::len word \<Rightarrow> u64 \<Rightarrow> 'a word option" where
  "round_down v a = (if a = 0 then None else Some (ucast (((ucast v :: u64) div a) * a)))"

definition round_up :: "'a::len word \<Rightarrow> u64 \<Rightarrow> 'a word option" where
  "round_up v a = (if a = 0 then None else Some (ucast (((ucast v + a - 1 :: u64) div a) * a)))"

definition alignByte :: u64 where "alignByte = 1"
definition alignWord :: u64 where "alignWord = 8"
definition alignLine :: u64 where "alignLine = 64"
definition align4K :: u64 where "align4K = push_bit 12 1"
definition align2M :: u64 where "align2M = push_bit 21 1"
definition align4M :: u64 where "align4M = push_bit 22 1"
definition align1G :: u64 where "align1G = push_bit 30 1"
definition align512G :: u64 where "align512G = push_bit 39 1"

section \<open>Rounding natural numbers\<close>

definition up_to :: "nat \<Rightarrow> nat \<Rightarrow> nat" where
  "up_to v a = (v + a - 1) div a * a"

lemma up_to_dvd [simp]: "a dvd up_to v a"
  by (simp add: up_to_def)

lemma up_to_ge: "0 < a \<Longrightarrow> v \<le> up_to v a"
proof -
  assume a: "0 < a"
  have "v + a - 1 = (v + a - 1) div a * a + (v + a - 1) mod a"
    by (simp add: div_mult_mod_eq)
  moreover have "(v + a - 1) mod a < a"
    using a by simp
  ultimately show ?thesis
    unfolding up_to_def by linarith
qed

lemma up_to_less: "0 < a \<Longrightarrow> up_to v a < v + a"
proof -
  assume a: "0 < a"
  have "(v + a - 1) div a * a \<le> v + a - 1"
    by simp
  then show ?thesis
    using a unfolding up_to_def by linarith
qed

lemma up_to_least: "0 < a \<Longrightarrow> v \<le> w \<Longrightarrow> a dvd w \<Longrightarrow> up_to v a \<le> w"
proof -
  assume a: "0 < a" "v \<le> w" "a dvd w"
  then obtain k where k: "w = a * k"
    by blast
  have "up_to v a div a * a = up_to v a" and lt: "up_to v a < w + a"
    using up_to_less [OF a(1), of v] a(2) by (simp_all add: up_to_def)
  then show ?thesis
    using a(1) k by (metis mult.commute mult_Suc_right less_Suc_eq_le mult_le_mono1 nat_mult_less_cancel_disj add.commute)
qed

lemma up_to_id: "0 < a \<Longrightarrow> a dvd v \<Longrightarrow> up_to v a = v"
  using up_to_least [of a v v] up_to_ge [of a v] by simp

section \<open>The word operations\<close>

lemma unat_mult_div_le: "unat (v div a * a :: u64) = unat v div unat a * unat a"
proof -
  have "unat v div unat a * unat a \<le> unat v" "unat v < 2 ^ 64"
    using unsigned_less [of v, where ?'a = nat] by simp_all
  then have "unat (v div a) * unat a < 2 ^ 64"
    unfolding unat_div by (rule le_less_trans)
  then show ?thesis
    by (simp add: unat_word_ariths(2) unat_div)
qed

lemma is_aligned_iff: "a \<noteq> 0 \<Longrightarrow> is_aligned (v :: u64) a = Some (unat a dvd unat v)"
  by (simp add: is_aligned_def dvd_eq_mod_eq_0 word_unat_eq_iff unat_mod)

lemma round_down_unat:
  "a \<noteq> 0 \<Longrightarrow> \<exists>r. round_down (v :: u64) a = Some r \<and> unat r = unat v div unat a * unat a"
  by (simp add: round_down_def unat_mult_div_le)

lemma round_up_unat:
  assumes "a \<noteq> 0" "unat v + unat a - 1 < 2 ^ 64"
  shows "\<exists>r. round_up (v :: u64) a = Some r \<and> unat r = up_to (unat v) (unat a)"
proof -
  have a: "1 \<le> unat a"
    using assms(1) by (simp add: Suc_leI unat_gt_0)
  have "unat (v + (a - 1)) = unat v + (unat a - 1)"
    using assms(2) a by (subst unat_add_lem [THEN iffD1]) (simp_all add: unat_sub_if' word_le_nat_alt)
  then have "unat (v + a - 1) = unat v + unat a - 1"
    using a by (simp add: algebra_simps)
  then show ?thesis
    using assms(1) by (simp add: round_up_def unat_mult_div_le up_to_def)
qed

text \<open>
  C10. Rounding up. As long as the value plus the alignment fits into 64 bits, \<^verbatim>\<open>round_up\<close> returns the
  least multiple of the alignment that is not below the value; with alignment zero it does not
  return.
\<close>

theorem round_up_correct:
  assumes "a \<noteq> 0" "unat v + unat a - 1 < 2 ^ 64"
  shows "\<exists>r. round_up (v :: u64) a = Some r \<and> v \<le> r \<and> unat a dvd unat r \<and> round_up v 0 = None \<and>
    (\<forall>w. v \<le> w \<and> unat a dvd unat w \<longrightarrow> r \<le> w)"
proof -
  obtain r where r: "round_up v a = Some r" "unat r = up_to (unat v) (unat a)"
    using round_up_unat [OF assms] by blast
  have "0 < unat a"
    using assms(1) by (simp add: unat_gt_0)
  then show ?thesis
    using r up_to_ge [of "unat a" "unat v"] up_to_least [of "unat a" "unat v"]
    by (simp add: word_le_nat_alt round_up_def)
qed

theorem round_up_correct_witness:
  "(64 :: u64) \<noteq> 0 \<and> unat (100 :: u64) + unat (64 :: u64) - 1 < 2 ^ 64 \<and> round_up (100 :: u64) 64 = Some 128 \<and>
   (\<exists>r. round_up (100 :: u64) 64 = Some r \<and> 100 \<le> r \<and> unat (64 :: u64) dvd unat r)"
  using round_up_correct [of 64 100] by (simp add: round_up_def)

end
