(* ===== verification/First_Fit_Heap.thy ===== *)
theory First_Fit_Heap
  imports Align
begin

text \<open>
  The allocator of \<^verbatim>\<open>kernel/util/first-fit-heap-intrusive/util/FirstFitHeap.hh\<close>. The free ranges are
  chained through descriptors that live at the start of each free range: the memory maps an address
  to the descriptor stored there. The variable \<^verbatim>\<open>Range** prev\<close> of the loops is either the list head or
  the next field of a range.

  The loops are partial functions, since a cyclic chain would never end; a division by zero (an
  alignment of zero) and a failed assertion do not return either.

  The abstract view is the list of free ranges as pairs of start and length. The results say that
  the pointer operations implement the list operations, keep the list sorted and merged, and change
  the set of free addresses by exactly the allocated or freed block.
\<close>

section \<open>State\<close>

record ff_range =
  rng_length :: u64
  rng_next :: u64

record ff_heap =
  ff_first :: u64
  ff_mem :: "u64 \<Rightarrow> ff_range"

datatype ff_link = FirstFree | NextOf u64

definition heapAlign :: u64 where "heapAlign = alignLine"

definition link_val :: "ff_link \<Rightarrow> ff_heap \<Rightarrow> u64" where
  "link_val l h = (case l of FirstFree \<Rightarrow> ff_first h | NextOf r \<Rightarrow> rng_next (ff_mem h r))"

definition put_link :: "ff_link \<Rightarrow> u64 \<Rightarrow> ff_heap \<Rightarrow> ff_heap" where
  "put_link l v h = (case l of
     FirstFree \<Rightarrow> h\<lparr>ff_first := v\<rparr>
   | NextOf r \<Rightarrow> h\<lparr>ff_mem := (ff_mem h)(r := (ff_mem h r)\<lparr>rng_next := v\<rparr>)\<rparr>)"

definition put_range :: "u64 \<Rightarrow> u64 \<Rightarrow> u64 \<Rightarrow> ff_heap \<Rightarrow> ff_heap" where
  "put_range r len next h = h\<lparr>ff_mem := (ff_mem h)(r := \<lparr>rng_length = len, rng_next = next\<rparr>)\<rparr>"

section \<open>Operations\<close>

definition Range_offset :: "u64 \<Rightarrow> u64 \<Rightarrow> u64 option" where
  "Range_offset r alignment = do { s \<leftarrow> round_up r alignment; Some (s - r) }"

definition Range_aligned_length :: "u64 \<Rightarrow> u64 \<Rightarrow> ff_heap \<Rightarrow> u64 option" where
  "Range_aligned_length r alignment h = do {
     off \<leftarrow> Range_offset r alignment;
     Some (if off < rng_length (ff_mem h r) then rng_length (ff_mem h r) - off else 0) }"

definition Range_fit :: "u64 \<Rightarrow> u64 \<Rightarrow> u64 \<Rightarrow> ff_heap \<Rightarrow> bool option" where
  "Range_fit r len alignment h = do { al \<leftarrow> Range_aligned_length r alignment h; Some (len \<le> al) }"

text \<open>The body of the search loop for a range that fits: first the aligned part, then the rest.\<close>

definition salloc_cut :: "u64 \<Rightarrow> u64 \<Rightarrow> ff_link \<Rightarrow> ff_heap \<Rightarrow> ff_heap" where
  "salloc_cut len r prev h =
     (let rest = rng_length (ff_mem h r); next = rng_next (ff_mem h r) in
      if len < rest then let n = r + len in put_link prev n (put_range n (rest - len) next h)
      else put_link prev next h)"

definition salloc_take :: "u64 \<Rightarrow> u64 \<Rightarrow> u64 \<Rightarrow> ff_link \<Rightarrow> ff_heap \<Rightarrow> (u64 \<times> ff_heap) option" where
  "salloc_take len alignment r prev h = do {
     aligned \<leftarrow> is_aligned r alignment;
     if \<not> aligned then do {
       n \<leftarrow> round_up r alignment;
       al \<leftarrow> Range_aligned_length r alignment h;
       let h = put_range n al (rng_next (ff_mem h r)) h;
       off \<leftarrow> Range_offset r alignment;
       let h = put_range r off n h;
       Some (n, salloc_cut len n (NextOf r) h) }
     else Some (r, salloc_cut len r prev h) }"

partial_function (option) salloc_loop :: "u64 \<Rightarrow> u64 \<Rightarrow> u64 \<Rightarrow> ff_link \<Rightarrow> ff_heap \<Rightarrow> (u64 optional \<times> ff_heap) option" where
  "salloc_loop len alignment r prev h =
     (if r = 0 then Some (Inl UNSET, h)
      else Option.bind (Range_fit r len alignment h) (\<lambda>fits.
        if fits then Option.bind (salloc_take len alignment r prev h) (\<lambda>(a, h'). Some (Inr a, h'))
        else salloc_loop len alignment (rng_next (ff_mem h r)) (NextOf r) h))"

definition salloc :: "u64 \<Rightarrow> u64 \<Rightarrow> ff_heap \<Rightarrow> (u64 optional \<times> ff_heap) option" where
  "salloc len alignment h = do {
     a \<leftarrow> is_aligned len heapAlign;
     ASSERT a;
     b \<leftarrow> is_aligned alignment heapAlign;
     ASSERT b;
     salloc_loop len alignment (ff_first h) FirstFree h }"

partial_function (option) sfree_loop :: "u64 \<Rightarrow> u64 \<Rightarrow> u64 \<Rightarrow> ff_link \<Rightarrow> ff_heap \<Rightarrow> ff_heap option" where
  "sfree_loop start len r prev h =
     (if r = 0 then Some (put_link prev start (put_range start len 0 h))
      else let rlen = rng_length (ff_mem h r); next = rng_next (ff_mem h r) in
        if r = start + len then Some (put_link prev start (put_range start (len + rlen) next h))
        else if r + rlen = start then
          (let rlen' = rlen + len in
           if next \<noteq> 0 \<and> r + rlen' = next
           then Some (put_range r (rlen' + rng_length (ff_mem h next)) (rng_next (ff_mem h next)) h)
           else Some (put_range r rlen' next h))
        else if start < r then Some (put_link prev start (put_range start len r h))
        else Option.bind (ASSERT (r + rlen < start)) (\<lambda>_. sfree_loop start len next (NextOf r) h))"

definition sfree :: "u64 \<Rightarrow> u64 \<Rightarrow> ff_heap \<Rightarrow> ff_heap option" where
  "sfree start len h = do {
     a \<leftarrow> is_aligned start heapAlign;
     ASSERT a;
     b \<leftarrow> is_aligned len heapAlign;
     ASSERT b;
     sfree_loop start len (ff_first h) FirstFree h }"

definition FirstFitHeap_alloc :: "u64 \<Rightarrow> u64 \<Rightarrow> ff_heap \<Rightarrow> (u64 optional \<times> ff_heap) option" where
  "FirstFitHeap_alloc len alignment h = do { len \<leftarrow> round_up len heapAlign; salloc len alignment h }"

definition FirstFitHeap_free :: "u64 \<Rightarrow> u64 \<Rightarrow> ff_heap \<Rightarrow> ff_heap option" where
  "FirstFitHeap_free start len h = do { len \<leftarrow> round_up len heapAlign; sfree start len h }"

definition FirstFitHeap_addRange :: "u64 \<Rightarrow> u64 \<Rightarrow> ff_heap \<Rightarrow> ff_heap option" where
  "FirstFitHeap_addRange start len h = do {
     start \<leftarrow> round_up start heapAlign;
     len \<leftarrow> round_down len heapAlign;
     sfree start len h }"

definition empty_heap :: ff_heap where
  "empty_heap = \<lparr>ff_first = 0, ff_mem = (\<lambda>_. \<lparr>rng_length = 0, rng_next = 0\<rparr>)\<rparr>"

section \<open>The list of free ranges\<close>

type_synonym free_list = "(nat \<times> nat) list"

fun ff_list :: "(u64 \<Rightarrow> ff_range) \<Rightarrow> u64 \<Rightarrow> free_list \<Rightarrow> bool" where
  "ff_list m p [] \<longleftrightarrow> p = 0"
| "ff_list m p ((s, l) # xs) \<longleftrightarrow>
     p \<noteq> 0 \<and> unat p = s \<and> unat (rng_length (m p)) = l \<and> ff_list m (rng_next (m p)) xs"

definition HA :: nat where "HA = 64"

text \<open>Sorted, aligned, not empty, apart from each other, and inside the address space.\<close>

fun ff_inv :: "free_list \<Rightarrow> bool" where
  "ff_inv [] \<longleftrightarrow> True"
| "ff_inv ((s, l) # xs) \<longleftrightarrow>
     0 < s \<and> 0 < l \<and> HA dvd s \<and> HA dvd l \<and> s + l < 2 ^ 64 \<and>
     (\<forall>(s', l')\<in>set xs. s + l < s') \<and> ff_inv xs"

definition ff_points :: "free_list \<Rightarrow> nat set" where
  "ff_points xs = (\<Union>(s, l)\<in>set xs. {s ..< s + l})"

lemma ff_points_simps [simp]: "ff_points [] = {}" "ff_points ((s, l) # xs) = {s ..< s + l} \<union> ff_points xs"
    "ff_points (xs @ ys) = ff_points xs \<union> ff_points ys"
  by (auto simp: ff_points_def)

definition fits :: "nat \<Rightarrow> nat \<Rightarrow> nat \<times> nat \<Rightarrow> bool" where
  "fits len al r \<longleftrightarrow> (case r of (s, l) \<Rightarrow> up_to s al - s + len \<le> l)"

text \<open>What remains of a free range when a block of length \<open>len\<close> is taken at offset \<open>d\<close>.\<close>

definition pieces :: "nat \<Rightarrow> nat \<Rightarrow> nat \<Rightarrow> nat \<Rightarrow> free_list" where
  "pieces s l d len = (if d = 0 then [] else [(s, d)]) @ (if len < l - d then [(s + d + len, l - d - len)] else [])"

fun list_alloc :: "nat \<Rightarrow> nat \<Rightarrow> free_list \<Rightarrow> (nat \<times> free_list) option" where
  "list_alloc len al [] = None"
| "list_alloc len al ((s, l) # xs) =
     (if fits len al (s, l) then Some (up_to s al, pieces s l (up_to s al - s) len @ xs)
      else map_option (\<lambda>(a, ys). (a, (s, l) # ys)) (list_alloc len al xs))"

fun list_free :: "nat \<Rightarrow> nat \<Rightarrow> free_list \<Rightarrow> free_list" where
  "list_free start len [] = [(start, len)]"
| "list_free start len ((s, l) # xs) =
     (if s = start + len then (start, len + l) # xs
      else if s + l = start then
        (case xs of
           (s', l') # ys \<Rightarrow> if s + (l + len) = s' then (s, l + len + l') # ys else (s, l + len) # xs
         | [] \<Rightarrow> [(s, l + len)])
      else if start < s then (start, len) # (s, l) # xs
      else (s, l) # list_free start len xs)"

section \<open>The list operations\<close>

lemma ff_inv_above: "ff_inv ((s, l) # xs) \<Longrightarrow> x \<in> ff_points xs \<Longrightarrow> s + l < x"
  by (fastforce simp: ff_points_def)

lemma ff_inv_mem: "ff_inv xs \<Longrightarrow> (s, l) \<in> set xs \<Longrightarrow> 0 < s \<and> 0 < l \<and> HA dvd s \<and> HA dvd l \<and> s + l < 2 ^ 64"
  by (induction xs rule: ff_inv.induct) auto

lemma up_to_HA: "HA dvd s \<Longrightarrow> HA dvd al \<Longrightarrow> HA dvd up_to s al - s"
  by (meson dvd_diff_nat dvd_trans up_to_dvd)

lemma pieces_points: "d + len \<le> l \<Longrightarrow> ff_points (pieces s l d len) = {s ..< s + l} - {s + d ..< s + d + len}"
  by (auto simp: pieces_def)

lemma pieces_mem: "d + len \<le> l \<Longrightarrow> (s', l') \<in> set (pieces s l d len) \<Longrightarrow> s \<le> s' \<and> s' + l' \<le> s + l"
  by (auto simp: pieces_def split: if_splits)

lemma pieces_inv:
  assumes "ff_inv ((s, l) # xs)" "d + len \<le> l" "0 < len" "HA dvd d" "HA dvd len"
  shows "ff_inv (pieces s l d len @ xs)"
proof -
  have "t < s'" if "(s', l') \<in> set xs" "t \<le> s + l" for s' l' t
    using assms(1) that by fastforce
  moreover have "HA dvd s + d + len" "HA dvd l - d - len"
    using assms by (simp_all add: dvd_diff_nat)
  ultimately show ?thesis
    using assms(1-4) by (auto simp: pieces_def)
qed

lemma list_alloc_points:
  assumes "ff_inv xs" "0 < len" "0 < al" "list_alloc len al xs = Some (a, ys)"
  shows "al dvd a \<and> {a ..< a + len} \<subseteq> ff_points xs \<and> ff_points ys = ff_points xs - {a ..< a + len}"
  using assms
proof (induction len al xs arbitrary: a ys rule: list_alloc.induct)
  case (2 len al s l xs)
  have disj: "{s ..< s + l} \<inter> ff_points xs = {}"
    using ff_inv_above [OF "2.prems"(1)] by fastforce
  show ?case
  proof (cases "fits len al (s, l)")
    case True
    obtain d where d: "up_to s al = s + d"
      using up_to_ge [OF "2.prems"(3), of s] le_iff_add by blast
    then have *: "d + len \<le> l" "a = s + d" "ys = pieces s l d len @ xs"
      using "2.prems"(4) True by (auto simp: fits_def)
    have "{s + d ..< s + d + len} \<subseteq> {s ..< s + l}"
      using *(1) by auto
    moreover have "ff_points ys = ({s ..< s + l} - {s + d ..< s + d + len}) \<union> ff_points xs"
      using *(1,3) pieces_points [of d len l s] by simp
    moreover have "al dvd s + d"
      using up_to_dvd [of al s] d by simp
    ultimately show ?thesis
      using disj unfolding *(2) ff_points_simps by blast
  next
    case False
    then obtain zs where zs: "list_alloc len al xs = Some (a, zs)" "ys = (s, l) # zs"
      using "2.prems"(4) by auto
    then show ?thesis
      using "2.IH" [OF False _ "2.prems"(2,3) zs(1)] "2.prems"(1) disj by auto
  qed
qed simp

lemma list_alloc_mem:
  assumes "0 < al" "list_alloc len al xs = Some (a, ys)" "(s', l') \<in> set ys"
  shows "\<exists>(s, l)\<in>set xs. s \<le> s' \<and> s' + l' \<le> s + l"
  using assms
proof (induction len al xs arbitrary: a ys rule: list_alloc.induct)
  case (2 len al s l xs)
  show ?case
  proof (cases "fits len al (s, l)")
    case True
    then show ?thesis
      using "2.prems" pieces_mem [of "up_to s al - s" len l s' l' s] by (fastforce simp: fits_def)
  next
    case False
    then show ?thesis
      using 2 by fastforce
  qed
qed simp

lemma list_alloc_inv:
  assumes "ff_inv xs" "0 < len" "0 < al" "HA dvd len" "HA dvd al" "list_alloc len al xs = Some (a, ys)"
  shows "ff_inv ys"
  using assms
proof (induction len al xs arbitrary: a ys rule: list_alloc.induct)
  case (2 len al s l xs)
  show ?case
  proof (cases "fits len al (s, l)")
    case True
    have "HA dvd up_to s al - s"
      using "2.prems"(1,5) by (intro up_to_HA) auto
    then show ?thesis
      using True "2.prems" pieces_inv [OF "2.prems"(1)] by (auto simp: fits_def)
  next
    case False
    then obtain zs where zs: "list_alloc len al xs = Some (a, zs)" "ys = (s, l) # zs"
      using "2.prems"(6) by auto
    have "s + l < s'" if "(s', l') \<in> set zs" for s' l'
      using list_alloc_mem [OF "2.prems"(3) zs(1) that] "2.prems"(1) by fastforce
    then show ?thesis
      using "2.IH" [OF False] "2.prems" zs by auto
  qed
qed simp

text \<open>If the search fails, no range has room for the aligned block.\<close>

lemma list_alloc_None: "list_alloc len al xs = None \<longleftrightarrow> (\<forall>r\<in>set xs. \<not> fits len al r)"
  by (induction len al xs rule: list_alloc.induct) auto

lemma list_free_mem:
  assumes "(s', l') \<in> set (list_free start len xs)"
  shows "s' = start \<or> (\<exists>l. (s', l) \<in> set xs)"
  using assms by (induction start len xs rule: list_free.induct) (auto split: list.splits if_splits)

lemma list_free_points: "ff_points (list_free start len xs) = ff_points xs \<union> {start ..< start + len}"
  by (induction start len xs rule: list_free.induct) (auto split: list.splits)

lemma free_block_below:
  assumes "{start ..< start + len} \<inter> ff_points xs = {}" "ff_inv xs" "(s, l) \<in> set xs" "start \<le> s"
  shows "start + len \<le> s"
proof -
  have "s \<in> ff_points xs"
    using assms(3) ff_inv_mem [OF assms(2,3)] by (force simp: ff_points_def)
  then have "s \<notin> {start ..< start + len}"
    using assms(1) by blast
  then show ?thesis
    using assms(4) by simp
qed

lemma list_free_inv:
  assumes "ff_inv xs" "0 < len" "0 < start" "HA dvd len" "HA dvd start" "start + len < 2 ^ 64"
    and "{start ..< start + len} \<inter> ff_points xs = {}"
  shows "ff_inv (list_free start len xs)"
  using assms
proof (induction start len xs rule: list_free.induct)
  case (2 start len s l xs)
  have above: "s + l < s'" "start \<le> s + l \<Longrightarrow> start + len \<le> s'" if "(s', l') \<in> set xs" for s' l'
    using "2.prems"(1) that free_block_below [OF "2.prems"(7,1), of s' l'] by auto
  have rest: "ff_inv xs" "{start ..< start + len} \<inter> ff_points xs = {}"
    using "2.prems"(1,7) by auto
  consider "s = start + len" | "s \<noteq> start + len" "s + l = start" | "s \<noteq> start + len" "s + l \<noteq> start" "start < s"
    | "s \<noteq> start + len" "s + l \<noteq> start" "\<not> start < s"
    by blast
  then show ?case
  proof cases
    case 1
    have "start + (len + l) < s'" if "(s', l') \<in> set xs" for s' l'
      using above(1) [OF that] 1 by simp
    then show ?thesis
      using 1 "2.prems" by auto
  next
    case 2
    show ?thesis
    proof (cases xs)
      case Nil
      then show ?thesis
        using 2 "2.prems" by auto
    next
      case (Cons r ys)
      obtain s2 l2 where r: "r = (s2, l2)"
        by force
      have "t < s'" if "(s', l') \<in> set ys" "t \<le> s2 + l2" for s' l' t
        using "2.prems"(1) that Cons r by fastforce
      moreover have "start + len \<le> s2" "s2 + l2 < 2 ^ 64"
        using above(2) [of s2 l2] rest(1) Cons r 2 by auto
      ultimately show ?thesis
        using 2 "2.prems"(1-4,6) Cons r by auto
    qed
  next
    case 3
    then have "start + len < s"
      using free_block_below [OF "2.prems"(7,1), of s l] by auto
    moreover have "t < s'" if "(s', l') \<in> set xs" "t \<le> s + l" for s' l' t
      using above(1) [OF that(1)] that(2) by simp
    ultimately show ?thesis
      using 3 "2.prems" by auto
  next
    case 4
    have "start \<in> {start ..< start + len}"
      using "2.prems"(2) by simp
    then have "start \<notin> {s ..< s + l}"
      using "2.prems"(7) unfolding ff_points_simps by blast
    then have "s + l < start"
      using 4 by simp
    then have "s + l < s'" if "(s', l') \<in> set (list_free start len xs)" for s' l'
      using list_free_mem [OF that] above(1) by auto
    then show ?thesis
      using 4 "2.IH" "2.prems" rest by auto
  qed
qed auto

section \<open>The pointer operations implement the list operations\<close>

lemma ff_list_frame: "(\<And>a. unat a \<in> fst ` set xs \<Longrightarrow> m' a = m a) \<Longrightarrow> ff_list m' p xs = ff_list m p xs"
proof (induction m p xs rule: ff_list.induct)
  case (2 m p s l xs)
  have "m' p = m p" if "unat p = s"
    using that "2.prems" by simp
  moreover have "ff_list m' (rng_next (m p)) xs = ff_list m (rng_next (m p)) xs"
    using "2.prems" by (intro "2.IH") auto
  ultimately show ?case
    by auto
qed simp

lemma starts_points: "ff_inv xs \<Longrightarrow> fst ` set xs \<subseteq> ff_points xs"
  by (induction xs rule: ff_inv.induct) auto

text \<open>
  One step of an operation at the link \<open>prev\<close>: the link now leads to the list \<open>ys\<close>, and the memory
  outside \<open>X\<close> is untouched except for that link.
\<close>

definition ff_step :: "nat set \<Rightarrow> ff_link \<Rightarrow> ff_heap \<Rightarrow> free_list \<Rightarrow> ff_heap \<Rightarrow> bool" where
  "ff_step X prev h ys h' \<longleftrightarrow>
     ff_list (ff_mem h') (link_val prev h') ys \<and>
     (\<forall>a. unat a \<notin> X \<and> prev \<noteq> NextOf a \<longrightarrow> ff_mem h' a = ff_mem h a) \<and>
     (\<forall>a. prev = NextOf a \<and> unat a \<notin> X \<longrightarrow> rng_length (ff_mem h' a) = rng_length (ff_mem h a)) \<and>
     (prev \<noteq> FirstFree \<longrightarrow> ff_first h' = ff_first h)"

lemma ff_step_cons:
  assumes st: "ff_step X (NextOf r) h2 ys h'"
    and r: "r \<noteq> 0" "link_val prev h = r" "unat r = s" "unat (rng_length (ff_mem h2 r)) = d" "s \<notin> X"
    and same: "\<And>a. unat a \<notin> Y \<Longrightarrow> ff_mem h2 a = ff_mem h a" "ff_first h2 = ff_first h"
    and sub: "X \<subseteq> Y" "s \<in> Y" and prev: "\<And>a. prev = NextOf a \<Longrightarrow> unat a \<notin> Y"
  shows "ff_step Y prev h ((s, d) # ys) h'"
proof -
  have m: "ff_mem h' a = ff_mem h a" if "unat a \<notin> Y" for a
    using that st same(1) sub r(3) by (metis (no_types, lifting) ff_link.inject ff_step_def subsetD)
  have f: "ff_first h' = ff_first h"
    using st same(2) by (simp add: ff_step_def)
  have l: "link_val prev h' = r"
    using r(2) f m prev by (cases prev) (auto simp: link_val_def)
  have "rng_length (ff_mem h' r) = rng_length (ff_mem h2 r)" "ff_list (ff_mem h') (rng_next (ff_mem h' r)) ys"
    using st r(3,5) by (simp_all add: ff_step_def link_val_def)
  then show ?thesis
    using l f m r prev by (auto simp: ff_step_def)
qed

lemma put_link_simps [simp]:
  "ff_first (put_range r l n h) = ff_first h"
  "ff_mem (put_range r l n h) a = (if a = r then \<lparr>rng_length = l, rng_next = n\<rparr> else ff_mem h a)"
  "link_val prev (put_link prev v h) = v"
  "rng_length (ff_mem (put_link prev v h) a) = rng_length (ff_mem h a)"
  "prev \<noteq> NextOf a \<Longrightarrow> ff_mem (put_link prev v h) a = ff_mem h a"
  "prev \<noteq> FirstFree \<Longrightarrow> ff_first (put_link prev v h) = ff_first h"
  by (cases prev; simp add: put_range_def put_link_def link_val_def)+

lemma salloc_cut_step:
  assumes r: "r \<noteq> 0" "unat r = n" "unat (rng_length (ff_mem h r)) = rest" "n + rest < 2 ^ 64"
    and xs: "ff_list (ff_mem h) (rng_next (ff_mem h r)) xs" "ff_inv xs" "\<And>x. x \<in> ff_points xs \<Longrightarrow> n + rest < x"
    and len: "0 < unat len" "unat len \<le> rest"
    and prev: "\<And>a. prev = NextOf a \<Longrightarrow> unat a \<notin> {n ..< n + rest} \<union> ff_points xs"
  shows "ff_step ({n ..< n + rest} \<union> ff_points xs) prev h (pieces n rest 0 (unat len) @ xs) (salloc_cut len r prev h)"
proof -
  have keep: "ff_list m' p xs = ff_list (ff_mem h) p xs" if "\<And>a. unat a \<in> ff_points xs \<Longrightarrow> m' a = ff_mem h a" for m' p
    using that starts_points [OF xs(2)] by (intro ff_list_frame) auto
  have npr: "prev \<noteq> NextOf a" if "unat a \<in> {n ..< n + rest} \<union> ff_points xs" for a
    using prev that by auto
  show ?thesis
  proof (cases "unat len < rest")
    case True
    have n2: "unat (r + len) = n + unat len" "unat (rng_length (ff_mem h r) - len) = rest - unat len"
      using True r(2-4) by (simp_all add: unat_add_small unat_sub_small)
    then have ne: "r + len \<noteq> 0"
      using len(1) by (metis add_is_0 not_gr_zero unat_0)
    have "unat a \<noteq> n + unat len" if "unat a \<in> ff_points xs" for a
      using xs(3) [OF that] True by linarith
    then have "ff_list (ff_mem (salloc_cut len r prev h)) (rng_next (ff_mem h r)) xs"
      using True r(3) xs(1) npr n2(1)
      by (subst keep) (auto simp: salloc_cut_def Let_def word_less_nat_alt)
    then show ?thesis
      using True r(3) n2 ne npr [of "r + len"]
      by (auto simp: ff_step_def salloc_cut_def Let_def word_less_nat_alt pieces_def)
  next
    case False
    then have "ff_list (ff_mem (salloc_cut len r prev h)) (rng_next (ff_mem h r)) xs"
      using r(3) xs(1) npr by (subst keep) (auto simp: salloc_cut_def Let_def word_less_nat_alt)
    then show ?thesis
      using False r(3) by (auto simp: ff_step_def salloc_cut_def Let_def word_less_nat_alt pieces_def)
  qed
qed

lemma Range_steps:
  assumes "al \<noteq> 0" "unat r + unat al \<le> 2 ^ 64"
  defines "d \<equiv> up_to (unat r) (unat al) - unat r"
  obtains n off where "round_up r al = Some n" "unat n = unat r + d" "Range_offset r al = Some off" "unat off = d"
    "is_aligned r al = Some (d = 0)"
    "Range_aligned_length r al h =
       Some (if off < rng_length (ff_mem h r) then rng_length (ff_mem h r) - off else 0)"
proof -
  have a: "0 < unat al"
    using assms(1) by (simp add: unat_gt_0)
  note up = up_to_ge [OF a, of "unat r"]
  obtain n where n: "round_up r al = Some n" "unat n = up_to (unat r) (unat al)"
    using round_up_unat [OF assms(1), of r] assms(2) a by force
  have "unat (n - r) = d"
    using n(2) up by (simp add: d_def unat_sub_small)
  moreover have "is_aligned r al = Some (d = 0)"
  proof -
    have "unat al dvd unat r \<longleftrightarrow> up_to (unat r) (unat al) = unat r"
      using up_to_id [OF a, of "unat r"] up_to_dvd [of "unat al" "unat r"] by metis
    then show ?thesis
      using assms(1) up by (auto simp: is_aligned_iff d_def)
  qed
  ultimately show ?thesis
    using n up by (intro that [of n "n - r"]) (simp_all add: Range_offset_def Range_aligned_length_def d_def)
qed

lemma Range_fit_eq:
  assumes "al \<noteq> 0" "unat r + unat al \<le> 2 ^ 64" "0 < unat len"
  shows "Range_fit r len al h = Some (fits (unat len) (unat al) (unat r, unat (rng_length (ff_mem h r))))"
proof -
  obtain off where off: "unat off = up_to (unat r) (unat al) - unat r"
    "Range_aligned_length r al h =
       Some (if off < rng_length (ff_mem h r) then rng_length (ff_mem h r) - off else 0)"
    using Range_steps [OF assms(1,2), where h = h] by metis
  then show ?thesis
    using assms(3)
    by (auto simp: Range_fit_def fits_def word_le_nat_alt word_less_nat_alt unat_sub_small simp del: unat_gt_0)
qed

lemma salloc_take_step:
  assumes r: "r \<noteq> 0" "link_val prev h = r" "unat r = s" "unat (rng_length (ff_mem h r)) = l"
    and xs: "ff_list (ff_mem h) (rng_next (ff_mem h r)) xs" "ff_inv ((s, l) # xs)"
    and len: "0 < unat len" and al: "al \<noteq> 0" "s + unat al \<le> 2 ^ 64"
    and fit: "fits (unat len) (unat al) (s, l)"
    and prev: "\<And>a. prev = NextOf a \<Longrightarrow> unat a \<notin> ff_points ((s, l) # xs)"
  shows "\<exists>a h'. salloc_take len al r prev h = Some (a, h') \<and> unat a = up_to s (unat al) \<and>
    ff_step (ff_points ((s, l) # xs)) prev h (pieces s l (up_to s (unat al) - s) (unat len) @ xs) h'"
proof -
  define d where "d = up_to s (unat al) - s"
  have a0: "0 < unat al"
    using al(1) by (simp add: unat_gt_0)
  have up: "up_to s (unat al) = s + d"
    using up_to_ge [OF a0, of s] by (simp add: d_def)
  have dl: "d + unat len \<le> l" and sl: "s + l < 2 ^ 64"
    using fit xs(2) by (auto simp: fits_def d_def)
  obtain n off where n: "round_up r al = Some n" "unat n = s + d" "Range_offset r al = Some off" "unat off = d"
    "is_aligned r al = Some (d = 0)"
    "Range_aligned_length r al h = Some (if off < rng_length (ff_mem h r) then rng_length (ff_mem h r) - off else 0)"
    using Range_steps [OF al(1), of r h] al(2) r(3) unfolding d_def by metis
  have above: "s + l < x" if "x \<in> ff_points xs" for x
    using ff_inv_above [OF xs(2) that] .
  show ?thesis
  proof (cases "d = 0")
    case True
    have "ff_step ({s ..< s + l} \<union> ff_points xs) prev h (pieces s l 0 (unat len) @ xs) (salloc_cut len r prev h)"
      using r xs sl len dl above prev True by (intro salloc_cut_step) auto
    then show ?thesis
      using True n(5) r(3) by (simp add: salloc_take_def up)
  next
    case False
    have rest: "unat (rng_length (ff_mem h r) - off) = l - d" "off < rng_length (ff_mem h r)"
      using n(4) r(4) dl len by (simp_all add: unat_sub_small word_less_nat_alt)
    let ?h2 = "put_range r off n (put_range n (rng_length (ff_mem h r) - off) (rng_next (ff_mem h r)) h)"
    have nr: "n \<noteq> r" "n \<noteq> 0"
      using n(2) r(3) False xs(2) by (auto simp: word_unat_eq_iff)
    have fr: "ff_list (ff_mem ?h2) (rng_next (ff_mem h r)) xs"
    proof -
      have "a \<noteq> r" "a \<noteq> n" if "unat a \<in> fst ` set xs" for a
        using that above [of "unat a"] starts_points [of xs] xs(2) r(3) n(2) dl by auto
      then show ?thesis
        using xs(1) by (subst ff_list_frame [where m = "ff_mem h"]) auto
    qed
    let ?X = "{s + d ..< s + d + (l - d)} \<union> ff_points xs"
    have "ff_step ?X (NextOf r) ?h2 (pieces (s + d) (l - d) 0 (unat len) @ xs) (salloc_cut len n (NextOf r) ?h2)"
    proof (rule salloc_cut_step)
      show "n \<noteq> 0" "unat n = s + d" "unat (rng_length (ff_mem ?h2 n)) = l - d" "s + d + (l - d) < 2 ^ 64"
        using nr n(2) rest sl dl by auto
      show "ff_list (ff_mem ?h2) (rng_next (ff_mem ?h2 n)) xs" "ff_inv xs"
        using fr nr xs(2) by auto
      show "s + d + (l - d) < x" if "x \<in> ff_points xs" for x
        using above [OF that] dl by simp
      show "0 < unat len" "unat len \<le> l - d"
        using len dl by auto
      show "unat a \<notin> ?X" if "NextOf r = NextOf a" for a
        using that r(3) False above [of s] by auto
    qed
    then have "ff_step (ff_points ((s, l) # xs)) prev h
        ((s, d) # pieces (s + d) (l - d) 0 (unat len) @ xs) (salloc_cut len n (NextOf r) ?h2)"
    proof (rule ff_step_cons)
      show "unat (rng_length (ff_mem ?h2 r)) = d" "s \<notin> ?X"
        using n(4) False above [of s] by auto
      show "ff_mem ?h2 a = ff_mem h a" if "unat a \<notin> ff_points ((s, l) # xs)" for a
        using that r(3) n(2) dl len xs(2) by auto
    qed (use r dl len prev xs(2) in auto)
    moreover have "pieces s l d (unat len) @ xs = (s, d) # pieces (s + d) (l - d) 0 (unat len) @ xs"
      using False by (simp add: pieces_def)
    ultimately show ?thesis
      using False n rest(2) by (simp add: salloc_take_def up)
  qed
qed

lemma salloc_loop_refines:
  assumes "ff_list (ff_mem h) (link_val prev h) xs" "ff_inv xs" "0 < unat len" "al \<noteq> 0"
    and "\<forall>(s, l)\<in>set xs. s + unat al \<le> 2 ^ 64"
    and "\<And>a. prev = NextOf a \<Longrightarrow> unat a \<notin> ff_points xs"
  shows "case list_alloc (unat len) (unat al) xs of
      None \<Rightarrow> salloc_loop len al (link_val prev h) prev h = Some (Inl UNSET, h)
    | Some (n, ys) \<Rightarrow> \<exists>a h'. salloc_loop len al (link_val prev h) prev h = Some (Inr a, h') \<and> unat a = n \<and>
        ff_step (ff_points xs) prev h ys h'"
  using assms
proof (induction xs arbitrary: prev)
  case Nil
  then show ?case
    by (subst salloc_loop.simps) simp
next
  case (Cons x xs)
  obtain s l where x: "x = (s, l)"
    by force
  let ?r = "link_val prev h"
  have r: "?r \<noteq> 0" "unat ?r = s" "unat (rng_length (ff_mem h ?r)) = l" "ff_list (ff_mem h) (rng_next (ff_mem h ?r)) xs"
    using Cons.prems(1) x by auto
  have al: "s + unat al \<le> 2 ^ 64"
    using Cons.prems(5) x by simp
  have fit: "Range_fit ?r len al h = Some (fits (unat len) (unat al) (s, l))"
    using Range_fit_eq [OF Cons.prems(4), of ?r len h] r al Cons.prems(3) by simp
  show ?case
  proof (cases "fits (unat len) (unat al) (s, l)")
    case True
    then obtain a h' where "salloc_take len al ?r prev h = Some (a, h')" "unat a = up_to s (unat al)"
      "ff_step (ff_points ((s, l) # xs)) prev h (pieces s l (up_to s (unat al) - s) (unat len) @ xs) h'"
      using salloc_take_step [OF r(1) refl r(2-4)] Cons.prems(2-4,6) al x by metis
    then show ?thesis
      using True x r(1) fit by (subst salloc_loop.simps) simp
  next
    case False
    have loop: "salloc_loop len al ?r prev h = salloc_loop len al (link_val (NextOf ?r) h) (NextOf ?r) h"
      using r(1) fit False by (subst salloc_loop.simps) (simp add: link_val_def)
    have above: "s \<notin> ff_points xs" and tail: "ff_inv xs"
      using Cons.prems(2) x ff_inv_above [of s l xs s] by auto
    have ok: "unat a \<notin> ff_points xs" if "NextOf ?r = NextOf a" for a
      using that above r(2) by auto
    have IH: "case list_alloc (unat len) (unat al) xs of
        None \<Rightarrow> salloc_loop len al (link_val (NextOf ?r) h) (NextOf ?r) h = Some (Inl UNSET, h)
      | Some (n, ys) \<Rightarrow> \<exists>a h'. salloc_loop len al (link_val (NextOf ?r) h) (NextOf ?r) h = Some (Inr a, h') \<and>
          unat a = n \<and> ff_step (ff_points xs) (NextOf ?r) h ys h'"
      using Cons.prems(3-5) r(4) tail ok by (intro Cons.IH) (auto simp: link_val_def)
    have step: "ff_step (ff_points ((s, l) # xs)) prev h ((s, l) # ys) h'"
      if "ff_step (ff_points xs) (NextOf ?r) h ys h'" for ys h'
      using that r(1) refl r(2,3) above refl refl
      by (rule ff_step_cons) (use Cons.prems(2,6) x in auto)
    show ?thesis
      using IH False x loop step by (auto split: option.splits)
  qed
qed

lemma sfree_append_step:
  assumes r: "r \<noteq> 0" "link_val prev h = r" "unat r = s" "unat (rng_length (ff_mem h r)) = l"
    "ff_list (ff_mem h) (rng_next (ff_mem h r)) xs"
    and inv: "ff_inv ((s, l) # xs)" and adj: "s \<noteq> unat start + unat len" "s + l = unat start"
    and end64: "unat start + unat len < 2 ^ 64" and prev: "\<And>a. prev = NextOf a \<Longrightarrow> unat a \<notin> ff_points ((s, l) # xs)"
  shows "\<exists>h'. sfree_loop start len r prev h = Some h' \<and>
    ff_step (ff_points ((s, l) # xs) \<union> {unat start ..< unat start + unat len}) prev h
      (list_free (unat start) (unat len) ((s, l) # xs)) h'"
proof -
  have tail: "ff_inv xs"
    using inv by simp
  have len': "unat (rng_length (ff_mem h r) + len) = l + unat len"
    "unat (r + (rng_length (ff_mem h r) + len)) = s + (l + unat len)"
    using adj(2) end64 r(3,4) by (simp_all add: unat_add_small)
  have w: "r \<noteq> start + len" "r + rng_length (ff_mem h r) = start"
    using adj r(3,4) end64 by (auto simp: word_unat_eq_iff unat_add_small)
  have pr: "prev \<noteq> NextOf r"
    using prev [of r] r(3) inv by auto
  have lv: "link_val prev (put_range r v n h) = r" for v n
    using pr r(2) by (cases prev) (auto simp: link_val_def)
  have nr: "r \<noteq> a" if "unat a \<in> ff_points xs" for a
    using ff_inv_above [OF inv that] r(3) by auto
  have keep: "ff_list (ff_mem (put_range r v n h)) q ys = ff_list (ff_mem h) q ys" if "fst ` set ys \<subseteq> ff_points xs" for v n q ys
    using that nr by (intro ff_list_frame) auto
  let ?n = "rng_next (ff_mem h r)"
  show ?thesis
  proof (cases "\<exists>l2 ys. xs = (s + (l + unat len), l2) # ys")
    case True
    then obtain l2 ys where ys: "xs = (s + (l + unat len), l2) # ys"
      by blast
    let ?h' = "put_range r (rng_length (ff_mem h r) + len + rng_length (ff_mem h ?n)) (rng_next (ff_mem h ?n)) h"
    have n: "?n \<noteq> 0" "r + (rng_length (ff_mem h r) + len) = ?n" "unat (rng_length (ff_mem h ?n)) = l2"
      "ff_list (ff_mem h) (rng_next (ff_mem h ?n)) ys" "s + (l + unat len) + l2 < 2 ^ 64"
      using r(5) ys len'(2) tail by (auto simp: word_unat_eq_iff)
    have "ff_list (ff_mem ?h') (rng_next (ff_mem h ?n)) ys"
      using n(4) starts_points [OF tail] ys by (subst keep) auto
    moreover have "unat (rng_length (ff_mem h r) + len + rng_length (ff_mem h ?n)) = l + unat len + l2"
      using len'(1) n(3,5) by (simp add: unat_add_small)
    moreover have "sfree_loop start len r prev h = Some ?h'"
      using w r(1) n(1,2) by (subst sfree_loop.simps) (simp add: Let_def add.assoc)
    ultimately show ?thesis
      using adj ys lv r(1,3) inv pr by (auto simp: ff_step_def)
  next
    case False
    let ?h' = "put_range r (rng_length (ff_mem h r) + len) ?n h"
    have "\<not> (?n \<noteq> 0 \<and> r + (rng_length (ff_mem h r) + len) = ?n)"
      using False r(5) len'(2) by (cases xs) auto
    then have "sfree_loop start len r prev h = Some ?h'"
      using w r(1) by (subst sfree_loop.simps) (auto simp: Let_def add.assoc)
    moreover have "ff_list (ff_mem ?h') ?n xs"
      using r(5) starts_points [OF tail] by (subst keep) auto
    moreover have "list_free (unat start) (unat len) ((s, l) # xs) = (s, l + unat len) # xs"
      using adj False by (auto split: list.splits)
    ultimately show ?thesis
      using lv r(1,3) inv pr len'(1) by (auto simp: ff_step_def)
  qed
qed

lemma sfree_loop_refines:
  assumes "ff_list (ff_mem h) (link_val prev h) xs" "ff_inv xs" "0 < unat len" "start \<noteq> 0"
    and "unat start + unat len < 2 ^ 64" "{unat start ..< unat start + unat len} \<inter> ff_points xs = {}"
    and "\<And>a. prev = NextOf a \<Longrightarrow> unat a \<notin> ff_points xs \<union> {unat start ..< unat start + unat len}"
  shows "\<exists>h'. sfree_loop start len (link_val prev h) prev h = Some h' \<and>
    ff_step (ff_points xs \<union> {unat start ..< unat start + unat len}) prev h
      (list_free (unat start) (unat len) xs) h'"
  using assms
proof (induction xs arbitrary: prev)
  case Nil
  have "prev \<noteq> NextOf start"
    using Nil.prems(3,7) by fastforce
  then show ?case
    using Nil.prems by (subst sfree_loop.simps) (auto simp: ff_step_def)
next
  case (Cons x xs)
  obtain s l where x: "x = (s, l)"
    by force
  let ?r = "link_val prev h" and ?B = "{unat start ..< unat start + unat len}"
  have r: "?r \<noteq> 0" "unat ?r = s" "unat (rng_length (ff_mem h ?r)) = l" "ff_list (ff_mem h) (rng_next (ff_mem h ?r)) xs"
    using Cons.prems(1) x by auto
  have inv: "ff_inv ((s, l) # xs)"
    using Cons.prems(2) x by simp
  then have sl: "s + l < 2 ^ 64" "0 < l" and tail: "ff_inv xs"
    by simp_all
  note above = ff_inv_above [OF inv]
  have npr: "prev \<noteq> NextOf a" if "unat a \<in> ff_points (x # xs) \<union> ?B" for a
    using Cons.prems(7) that by blast
  have w: "?r = start + len \<longleftrightarrow> s = unat start + unat len" "?r + rng_length (ff_mem h ?r) = start \<longleftrightarrow> s + l = unat start"
    "start < ?r \<longleftrightarrow> unat start < s" "?r + rng_length (ff_mem h ?r) < start \<longleftrightarrow> s + l < unat start"
    using r sl Cons.prems(5) by (auto simp: word_unat_eq_iff unat_add_small word_less_nat_alt)
  have keep: "ff_list m' p xs = ff_list (ff_mem h) p xs" if "\<And>a. unat a \<in> ff_points xs \<Longrightarrow> m' a = ff_mem h a" for m' p
    using that starts_points [OF tail] by (intro ff_list_frame) auto
  have st: "start \<noteq> a" if "unat a \<in> ff_points (x # xs)" for a
    using that Cons.prems(3,6) by fastforce
  consider "s = unat start + unat len" | "s \<noteq> unat start + unat len" "s + l = unat start"
    | "s \<noteq> unat start + unat len" "s + l \<noteq> unat start" "unat start < s"
    | "s \<noteq> unat start + unat len" "s + l \<noteq> unat start" "\<not> unat start < s"
    by blast
  then show ?case
  proof cases
    case 1
    let ?h' = "put_link prev start (put_range start (len + rng_length (ff_mem h ?r)) (rng_next (ff_mem h ?r)) h)"
    have "unat (len + rng_length (ff_mem h ?r)) = unat len + l"
      using 1 sl r(3) by (simp add: unat_add_small)
    moreover have "ff_list (ff_mem ?h') (rng_next (ff_mem h ?r)) xs"
      using r(4) npr st x by (subst keep) auto
    moreover have "prev \<noteq> NextOf start"
      using npr [of start] Cons.prems(3) by simp
    ultimately show ?thesis
      using 1 w(1) r(1) x Cons.prems(3,4)
      by (subst sfree_loop.simps) (auto simp: Let_def ff_step_def)
  next
    case 3
    let ?h' = "put_link prev start (put_range start len ?r h)"
    have rs: "start \<noteq> ?r" "prev \<noteq> NextOf ?r" "prev \<noteq> NextOf start"
      using st [of ?r] npr [of ?r] npr [of start] x r(2) sl(2) Cons.prems(3) by auto
    moreover have "ff_list (ff_mem ?h') (rng_next (ff_mem h ?r)) xs"
      using r(4) npr st x by (subst keep) auto
    ultimately show ?thesis
      using 3 w r x Cons.prems(3,4) by (subst sfree_loop.simps) (auto simp: Let_def ff_step_def)
  next
    case 4
    have "s + l < unat start"
      using 4 Cons.prems(3,6) x by fastforce
    then have loop: "sfree_loop start len ?r prev h = sfree_loop start len (link_val (NextOf ?r) h) (NextOf ?r) h"
      using 4 w r(1) by (subst sfree_loop.simps) (simp add: Let_def link_val_def)
    have out: "s \<notin> ff_points xs \<union> ?B"
      using above [of s] \<open>s + l < unat start\<close> by auto
    have "\<exists>h'. sfree_loop start len (link_val (NextOf ?r) h) (NextOf ?r) h = Some h' \<and>
        ff_step (ff_points xs \<union> ?B) (NextOf ?r) h (list_free (unat start) (unat len) xs) h'"
    proof (rule Cons.IH)
      show "ff_list (ff_mem h) (link_val (NextOf ?r) h) xs" "ff_inv xs" "?B \<inter> ff_points xs = {}"
        using r(4) tail Cons.prems(6) x by (auto simp: link_val_def)
      show "unat a \<notin> ff_points xs \<union> ?B" if "NextOf ?r = NextOf a" for a
        using that out r(2) by auto
    qed (use Cons.prems in auto)
    then obtain h' where h': "sfree_loop start len ?r prev h = Some h'"
      "ff_step (ff_points xs \<union> ?B) (NextOf ?r) h (list_free (unat start) (unat len) xs) h'"
      using loop by auto
    from h'(2) r(1) refl r(2,3) out refl refl
    have "ff_step (ff_points (x # xs) \<union> ?B) prev h ((s, l) # list_free (unat start) (unat len) xs) h'"
      by (rule ff_step_cons) (use Cons.prems(7) x sl(2) in auto)
    then show ?thesis
      using h'(1) 4 x by simp
  next
    case 2
    then show ?thesis
      using sfree_append_step [OF r(1) refl r(2-4) inv] Cons.prems(5,7) x by auto
  qed
qed

section \<open>The heap as a set of free addresses\<close>

definition heap_ok :: "ff_heap \<Rightarrow> free_list \<Rightarrow> bool" where
  "heap_ok h xs \<longleftrightarrow> ff_list (ff_mem h) (ff_first h) xs \<and> ff_inv xs"

text \<open>The block behind an address: its length is rounded up to the granularity of the heap.\<close>

definition block :: "u64 \<Rightarrow> u64 \<Rightarrow> nat set" where
  "block a len = {unat a ..< unat a + up_to (unat len) HA}"

lemma heapAlign_simps [simp]: "heapAlign \<noteq> 0" "unat heapAlign = HA" "0 < HA"
  by (simp_all add: heapAlign_def alignLine_def HA_def)

lemma round_up_len:
  assumes "unat (len :: u64) + HA - 1 < 2 ^ 64"
  obtains n where "round_up len heapAlign = Some n" "unat n = up_to (unat len) HA" "HA dvd unat n"
    "is_aligned n heapAlign = Some True"
  using round_up_unat [of heapAlign len] assms by (auto simp: is_aligned_iff)

lemma heap_ok_first: "ff_list (ff_mem h) (link_val FirstFree h) xs = ff_list (ff_mem h) (ff_first h) xs"
  by (simp add: link_val_def)

lemma FirstFitHeap_alloc_correct_aux:
  assumes "heap_ok h xs" "0 < unat len" "unat len + HA - 1 < 2 ^ 64" "al \<noteq> 0" "HA dvd unat al"
    and "\<forall>(s, l)\<in>set xs. s + unat al \<le> 2 ^ 64"
  shows "(\<exists>a h' ys. FirstFitHeap_alloc len al h = Some (Inr a, h') \<and> heap_ok h' ys \<and> unat al dvd unat a \<and>
      block a len \<subseteq> ff_points xs \<and> ff_points ys = ff_points xs - block a len \<and>
      (\<forall>b. unat b \<notin> ff_points xs \<longrightarrow> ff_mem h' b = ff_mem h b)) \<or>
    (FirstFitHeap_alloc len al h = Some (Inl UNSET, h) \<and>
      (\<forall>(s, l)\<in>set xs. l < up_to s (unat al) - s + up_to (unat len) HA))"
proof -
  obtain n where n: "round_up len heapAlign = Some n" "unat n = up_to (unat len) HA" "HA dvd unat n"
    "is_aligned n heapAlign = Some True"
    using round_up_len [OF assms(3)] by blast
  have pos: "0 < unat n" "0 < unat al"
    using n(2) assms(2,4) up_to_ge [OF heapAlign_simps(3), of "unat len"] by linarith (simp add: assms(4) unat_gt_0)
  have eq: "FirstFitHeap_alloc len al h = salloc_loop n al (link_val FirstFree h) FirstFree h"
    using n assms(5) by (simp add: FirstFitHeap_alloc_def salloc_def is_aligned_iff link_val_def)
  have ok: "ff_list (ff_mem h) (link_val FirstFree h) xs" "ff_inv xs"
    using assms(1) by (simp_all add: heap_ok_def link_val_def)
  note ref = salloc_loop_refines [OF ok pos(1) assms(4,6)]
  show ?thesis
  proof (cases "list_alloc (unat n) (unat al) xs")
    case None
    then have "FirstFitHeap_alloc len al h = Some (Inl UNSET, h)"
      using ref eq by simp
    moreover have "l < up_to s (unat al) - s + up_to (unat len) HA" if "(s, l) \<in> set xs" for s l
      using None that n(2) unfolding list_alloc_None fits_def by fastforce
    ultimately show ?thesis
      by blast
  next
    case (Some p)
    then obtain m ys where m: "list_alloc (unat n) (unat al) xs = Some (m, ys)"
      by force
    then obtain a h' where a: "FirstFitHeap_alloc len al h = Some (Inr a, h')" "unat a = m"
      "ff_step (ff_points xs) FirstFree h ys h'"
      using ref eq by auto
    have "heap_ok h' ys"
      using a(3) list_alloc_inv [OF ok(2) pos n(3) assms(5) m] by (simp add: heap_ok_def ff_step_def link_val_def)
    then show ?thesis
      using a list_alloc_points [OF ok(2) pos m] n(2) by (auto simp: block_def ff_step_def)
  qed
qed

text \<open>
  C11. Allocation. On a well-formed heap, for a nonempty request and an alignment that is a multiple of
  the granularity, \<^verbatim>\<open>alloc\<close> always returns. Either the result is an aligned block of free addresses,
  the heap stays well formed and the free addresses shrink by exactly that block, and no descriptor
  outside the free memory was written; or it reports an error, the heap is unchanged, and indeed no
  free range has room for an aligned block of that size.
\<close>

theorem FirstFitHeap_alloc_correct:
  assumes "heap_ok h xs" "0 < unat len" "unat len + HA - 1 < 2 ^ 64" "al \<noteq> 0" "HA dvd unat al"
    and "\<forall>(s, l)\<in>set xs. s + unat al \<le> 2 ^ 64"
  shows "(\<exists>a h' ys. FirstFitHeap_alloc len al h = Some (Inr a, h') \<and> heap_ok h' ys \<and> unat al dvd unat a \<and>
      block a len \<subseteq> ff_points xs \<and> ff_points ys = ff_points xs - block a len \<and>
      (\<forall>b. unat b \<notin> ff_points xs \<longrightarrow> ff_mem h' b = ff_mem h b)) \<or>
    (FirstFitHeap_alloc len al h = Some (Inl UNSET, h) \<and>
      (\<forall>(s, l)\<in>set xs. l < up_to s (unat al) - s + up_to (unat len) HA))"
  using FirstFitHeap_alloc_correct_aux [OF assms] .

lemma FirstFitHeap_free_correct_aux:
  assumes "heap_ok h xs" "0 < unat len" "start \<noteq> 0" "HA dvd unat start"
    and "unat start + up_to (unat len) HA < 2 ^ 64" "block start len \<inter> ff_points xs = {}"
  shows "\<exists>h' ys. FirstFitHeap_free start len h = Some h' \<and> heap_ok h' ys \<and>
    ff_points ys = ff_points xs \<union> block start len \<and>
    (\<forall>b. unat b \<notin> ff_points xs \<union> block start len \<longrightarrow> ff_mem h' b = ff_mem h b)"
proof -
  have "unat len + HA - 1 < 2 ^ 64"
  proof -
    have "HA \<le> unat start"
      using assms(3,4) by (simp add: dvd_imp_le unat_gt_0)
    then show ?thesis
      using assms(5) up_to_ge [OF heapAlign_simps(3), of "unat len"] by linarith
  qed
  then obtain n where n: "round_up len heapAlign = Some n" "unat n = up_to (unat len) HA" "HA dvd unat n"
    "is_aligned n heapAlign = Some True"
    using round_up_len by blast
  have pos: "0 < unat n" "0 < unat start"
    using n(2) assms(2,3) up_to_ge [OF heapAlign_simps(3), of "unat len"] by linarith (simp add: assms(3) unat_gt_0)
  have eq: "FirstFitHeap_free start len h = sfree_loop start n (link_val FirstFree h) FirstFree h"
    using n assms(4) by (simp add: FirstFitHeap_free_def sfree_def is_aligned_iff link_val_def)
  have ok: "ff_list (ff_mem h) (link_val FirstFree h) xs" "ff_inv xs"
    using assms(1) by (simp_all add: heap_ok_def link_val_def)
  have b: "unat start + unat n < 2 ^ 64" "{unat start ..< unat start + unat n} \<inter> ff_points xs = {}"
    using assms(5,6) n(2) by (simp_all add: block_def)
  obtain h' where h': "FirstFitHeap_free start len h = Some h'"
    "ff_step (ff_points xs \<union> {unat start ..< unat start + unat n}) FirstFree h (list_free (unat start) (unat n) xs) h'"
    using sfree_loop_refines [OF ok pos(1) assms(3) b] eq by auto
  have "heap_ok h' (list_free (unat start) (unat n) xs)"
    using h'(2) list_free_inv [OF ok(2) pos n(3) assms(4) b] by (simp add: heap_ok_def ff_step_def link_val_def)
  then show ?thesis
    using h' n(2) list_free_points [of "unat start" "unat n" xs] by (auto simp: block_def ff_step_def)
qed

text \<open>
  C12. Freeing. Giving back an aligned nonempty block that is not free returns with a well-formed heap
  whose free addresses are the old ones together with the block, merged with its neighbours; no
  descriptor outside the free memory was written.
\<close>

theorem FirstFitHeap_free_correct:
  assumes "heap_ok h xs" "0 < unat len" "start \<noteq> 0" "HA dvd unat start"
    and "unat start + up_to (unat len) HA < 2 ^ 64" "block start len \<inter> ff_points xs = {}"
  shows "\<exists>h' ys. FirstFitHeap_free start len h = Some h' \<and> heap_ok h' ys \<and>
    ff_points ys = ff_points xs \<union> block start len \<and>
    (\<forall>b. unat b \<notin> ff_points xs \<union> block start len \<longrightarrow> ff_mem h' b = ff_mem h b)"
  using FirstFitHeap_free_correct_aux [OF assms] .

section \<open>Round trip\<close>

lemma ff_points_empty: "ff_inv xs \<Longrightarrow> ff_points xs = {} \<Longrightarrow> xs = []"
  by (cases xs) auto

lemma ff_first_least: "ff_inv ((s, l) # xs) \<Longrightarrow> y \<in> ff_points ((s, l) # xs) \<Longrightarrow> s \<le> y"
  using ff_inv_above [of s l xs y] by auto

lemma ff_gap: "ff_inv ((s, l) # xs) \<Longrightarrow> s + l \<notin> ff_points ((s, l) # xs)"
  using ff_inv_above [of s l xs "s + l"] by auto

lemma ff_points_tail: "ff_inv ((s, l) # xs) \<Longrightarrow> ff_points xs = ff_points ((s, l) # xs) - {s ..< s + l}"
proof -
  assume "ff_inv ((s, l) # xs)"
  then have "y \<notin> {s ..< s + l}" if "y \<in> ff_points xs" for y
    using ff_inv_above [of s l xs y] that by simp
  then show ?thesis
    by (auto simp del: atLeastLessThan_iff)
qed

text \<open>A well-formed free list is determined by its addresses: the representation is canonical.\<close>

lemma ff_inv_unique: "ff_inv xs \<Longrightarrow> ff_inv ys \<Longrightarrow> ff_points xs = ff_points ys \<Longrightarrow> xs = ys"
proof (induction xs arbitrary: ys)
  case Nil
  then show ?case
    using ff_points_empty [of ys] by simp
next
  case (Cons x xs)
  obtain s l where x: "x = (s, l)"
    by force
  have "ys \<noteq> []"
    using Cons.prems x by auto
  then obtain s' l' zs where y: "ys = (s', l') # zs"
    by (cases ys) force+
  have in_pts: "s + k \<in> ff_points (x # xs) \<longleftrightarrow> k < l" if "k \<le> l" for k
    using that ff_gap [of s l xs] Cons.prems(1) x by (cases "k = l") auto
  have in_pts': "s' + k \<in> ff_points ys \<longleftrightarrow> k < l'" if "k \<le> l'" for k
    using that ff_gap [of s' l' zs] Cons.prems(2) y by (cases "k = l'") auto
  have pos: "0 < l" "0 < l'"
    using Cons.prems(1,2) x y by simp_all
  have "s = s'"
  proof (rule antisym)
    show "s \<le> s'"
      using ff_first_least [of s l xs s'] in_pts' [of 0] pos(2) Cons.prems(1) Cons.prems(3) [symmetric] x by simp
    show "s' \<le> s"
      using ff_first_least [of s' l' zs s] in_pts [of 0] pos(1) Cons.prems(2,3) y by simp
  qed
  moreover have "l = l'"
    using in_pts [of l'] in_pts' [of l] in_pts [of l] in_pts' [of l'] Cons.prems(3) \<open>s = s'\<close>
    by (metis nat_le_linear nat_less_le)
  moreover have "ff_points xs = ff_points (x # xs) - {s ..< s + l}"
    using ff_points_tail [of s l xs] Cons.prems(1) x by simp
  moreover have "ff_points zs = ff_points ys - {s' ..< s' + l'}"
    using ff_points_tail [of s' l' zs] Cons.prems(2) y by simp
  ultimately show ?case
    using Cons.IH [of zs] Cons.prems x y by simp
qed

text \<open>
  C13. Allocating and giving back the same block restores the heap: the free list is the one before,
  range by range, so allocation and deallocation do not fragment by themselves.
\<close>

theorem alloc_free_roundtrip:
  assumes "heap_ok h xs" "0 < unat len" "unat len + HA - 1 < 2 ^ 64" "al \<noteq> 0" "HA dvd unat al"
    and "\<forall>(s, l)\<in>set xs. s + unat al \<le> 2 ^ 64" "FirstFitHeap_alloc len al h = Some (Inr a, h1)"
  shows "\<exists>h2. FirstFitHeap_free a len h1 = Some h2 \<and> heap_ok h2 xs"
proof -
  obtain ys where ys: "heap_ok h1 ys" "unat al dvd unat a" "block a len \<subseteq> ff_points xs"
    "ff_points ys = ff_points xs - block a len"
    using FirstFitHeap_alloc_correct_aux [OF assms(1-6)] assms(7) by auto
  have inv: "ff_inv xs"
    using assms(1) by (simp add: heap_ok_def)
  have "unat a \<in> block a len"
    using assms(2) up_to_ge [OF heapAlign_simps(3), of "unat len"] by (simp add: block_def del: unat_gt_0)
  then obtain s l where sl: "(s, l) \<in> set xs" "s \<le> unat a"
    using ys(3) by (force simp: ff_points_def)
  have a0: "a \<noteq> 0"
    using sl ff_inv_mem [OF inv sl(1)] by (auto simp: word_unat_eq_iff)
  have "HA dvd unat a"
    using ys(2) assms(5) dvd_trans by blast
  moreover have "unat a + up_to (unat len) HA < 2 ^ 64"
  proof -
    have "unat a + up_to (unat len) HA - 1 \<in> block a len" "0 < up_to (unat len) HA"
      using assms(2) up_to_ge [OF heapAlign_simps(3), of "unat len"] by (auto simp: block_def simp del: unat_gt_0)
    then obtain s l where "(s, l) \<in> set xs" "unat a + up_to (unat len) HA - 1 < s + l"
      using ys(3) by (force simp: ff_points_def)
    then show ?thesis
      using ff_inv_mem [OF inv, of s l] by linarith
  qed
  ultimately obtain h2 zs where "FirstFitHeap_free a len h1 = Some h2" "heap_ok h2 zs"
    "ff_points zs = ff_points ys \<union> block a len"
    using FirstFitHeap_free_correct_aux [OF ys(1) assms(2) a0] ys(4) by blast
  then show ?thesis
    using ff_inv_unique [of zs xs] inv ys(3,4) by (auto simp: heap_ok_def)
qed

definition ex_heap :: ff_heap where
  "ex_heap = \<lparr>ff_first = 4096, ff_mem = (\<lambda>_. \<lparr>rng_length = 4096, rng_next = 0\<rparr>)\<rparr>"

lemma ex_heap_ok: "heap_ok ex_heap [(4096, 4096)]"
  by (simp add: heap_ok_def ex_heap_def HA_def)

lemma ex_heap_alloc:
  "heap_ok ex_heap [(4096, 4096)]" "0 < unat (100::u64)" "unat (100::u64) + HA - 1 < 2 ^ 64" "(256::u64) \<noteq> 0"
  "HA dvd unat (256::u64)" "\<forall>(s, l)\<in>set [(4096::nat, 4096::nat)]. s + unat (256::u64) \<le> 2 ^ 64"
  using ex_heap_ok by (simp_all add: HA_def)

theorem FirstFitHeap_alloc_correct_witness:
  "\<exists>a h' ys. FirstFitHeap_alloc 100 256 ex_heap = Some (Inr a, h') \<and> heap_ok h' ys \<and> 256 dvd unat a \<and>
     ff_points ys = {4096 ..< 8192} - block a 100"
  using FirstFitHeap_alloc_correct [OF ex_heap_alloc] by (auto simp: up_to_def HA_def)

theorem FirstFitHeap_free_correct_witness:
  "heap_ok ex_heap [(4096, 4096)] \<and>
   (\<exists>h' ys. FirstFitHeap_free 8192 100 ex_heap = Some h' \<and> heap_ok h' ys \<and>
      ff_points ys = {4096 ..< 8192} \<union> block 8192 100)"
  using FirstFitHeap_free_correct [OF ex_heap_ok, of 100 8192] ex_heap_ok
  by (auto simp: up_to_def HA_def block_def)

lemma ex_heap_allocs: "\<exists>h1. FirstFitHeap_alloc 100 256 ex_heap = Some (Inr 4096, h1)"
  by (subst FirstFitHeap_alloc_def, simp add: salloc_def ex_heap_def heapAlign_def alignLine_def round_up_def
      round_down_def is_aligned_def, subst salloc_loop.simps, simp add: Range_fit_def Range_aligned_length_def Range_offset_def
      round_up_def round_down_def salloc_take_def is_aligned_def)

theorem alloc_free_roundtrip_witness:
  "\<exists>h1 h2. FirstFitHeap_alloc 100 256 ex_heap = Some (Inr 4096, h1) \<and> FirstFitHeap_free 4096 100 h1 = Some h2 \<and>
     heap_ok h2 [(4096, 4096)]"
  using alloc_free_roundtrip [OF ex_heap_alloc] ex_heap_allocs by blast

section \<open>Boundary cases\<close>

text \<open>
  The requests the theorems above exclude are not harmless. An empty request fits every range, even
  one whose aligned start lies behind its end: the descriptor is then written outside the range, and
  the range grows over memory that was never free.
\<close>

definition small_heap :: ff_heap where
  "small_heap = \<lparr>ff_first = 4096, ff_mem = (\<lambda>_. \<lparr>rng_length = 64, rng_next = 0\<rparr>)\<rparr>"

lemma empty_alloc_corrupts:
  "heap_ok small_heap [(4096, 64)] \<and>
   (\<exists>h'. FirstFitHeap_alloc 0 8192 small_heap = Some (Inr 8192, h') \<and> heap_ok h' [(4096, 4096)])"
  by (simp add: heap_ok_def small_heap_def HA_def FirstFitHeap_alloc_def salloc_def heapAlign_def alignLine_def
      round_up_def is_aligned_def salloc_loop.simps [of 0 8192 4096] Range_fit_def Range_aligned_length_def
      Range_offset_def salloc_take_def salloc_cut_def put_range_def put_link_def)

text \<open>
  \<^verbatim>\<open>addRange\<close> rounds the start up and the length down, each on its own: the range it adds may end
  behind the one it was given.
\<close>

lemma addRange_overruns:
  "\<exists>h'. FirstFitHeap_addRange 65 128 empty_heap = Some h' \<and> heap_ok h' [(128, 128)] \<and> 65 + 128 < 128 + (128::nat)"
  by (simp add: heap_ok_def HA_def FirstFitHeap_addRange_def sfree_def heapAlign_def alignLine_def empty_heap_def
      round_up_def round_down_def is_aligned_def sfree_loop.simps [of 128 128 0] put_range_def put_link_def)

text \<open>On aligned ranges adding memory is the same as freeing it.\<close>

lemma up_to_dvd_id: "HA dvd n \<Longrightarrow> up_to n HA = n"
  using up_to_least [of HA n n] up_to_ge [of HA n] by (simp add: HA_def)

lemma round_up_aligned:
  assumes "HA dvd unat (v :: u64)"
  shows "round_up v heapAlign = Some v" "round_down v heapAlign = Some v"
proof -
  obtain a where a: "unat v = HA * a"
    using assms by blast
  have h: "heapAlign \<noteq> 0" "unat heapAlign = HA"
    using heapAlign_simps by simp_all
  have "unat v + HA - 1 < 2 ^ 64"
    using a unat_u64_less [of v] by (simp add: HA_def)
  then show "round_up v heapAlign = Some v"
    using round_up_unat [OF h(1), of v] up_to_dvd_id [OF assms] h(2) by (auto simp: word_unat_eq_iff)
  show "round_down v heapAlign = Some v"
    using round_down_unat [OF h(1), of v] a h(2) by (auto simp: word_unat_eq_iff HA_def)
qed

lemma addRange_eq_free:
  "HA dvd unat start \<Longrightarrow> HA dvd unat len \<Longrightarrow> FirstFitHeap_addRange start len h = FirstFitHeap_free start len h"
  by (simp add: FirstFitHeap_addRange_def FirstFitHeap_free_def round_up_aligned)

section \<open>The interface of a block pool\<close>

text \<open>
  What the clients of the heap rely on: a request is answered with a block of the free addresses or
  refused without a change, and a block that was handed out can be given back.
\<close>

locale block_pool =
  fixes alloc :: "u64 \<Rightarrow> u64 \<Rightarrow> 'h \<Rightarrow> (u64 optional \<times> 'h) option"
    and dealloc :: "u64 \<Rightarrow> u64 \<Rightarrow> 'h \<Rightarrow> 'h option"
    and rep :: "'h \<Rightarrow> nat set \<Rightarrow> bool"
    and blk :: "u64 \<Rightarrow> u64 \<Rightarrow> nat set"
    and request :: "nat set \<Rightarrow> u64 \<Rightarrow> u64 \<Rightarrow> bool"
    and handed :: "u64 \<Rightarrow> u64 \<Rightarrow> bool"
  assumes alloc_cases: "rep h X \<Longrightarrow> request X len al \<Longrightarrow>
      (\<exists>a h'. alloc len al h = Some (Inr a, h') \<and> unat al dvd unat a \<and> handed a len \<and> blk a len \<subseteq> X \<and>
         rep h' (X - blk a len)) \<or>
      alloc len al h = Some (Inl UNSET, h)"
    and request_sub: "request X len al \<Longrightarrow> Y \<subseteq> X \<Longrightarrow> request Y len al"
    and dealloc_block: "rep h X \<Longrightarrow> handed a len \<Longrightarrow> blk a len \<inter> X = {} \<Longrightarrow>
      \<exists>h'. dealloc a len h = Some h' \<and> rep h' (X \<union> blk a len)"

definition heap_rep :: "ff_heap \<Rightarrow> nat set \<Rightarrow> bool" where
  "heap_rep h X \<longleftrightarrow> (\<exists>xs. heap_ok h xs \<and> ff_points xs = X)"

definition heap_request :: "nat set \<Rightarrow> u64 \<Rightarrow> u64 \<Rightarrow> bool" where
  "heap_request X len al \<longleftrightarrow>
     0 < unat len \<and> unat len + HA - 1 < 2 ^ 64 \<and> al \<noteq> 0 \<and> HA dvd unat al \<and> (\<forall>x\<in>X. x + unat al \<le> 2 ^ 64)"

definition heap_block :: "u64 \<Rightarrow> u64 \<Rightarrow> bool" where
  "heap_block a len \<longleftrightarrow> 0 < unat len \<and> a \<noteq> 0 \<and> HA dvd unat a \<and> unat a + up_to (unat len) HA < 2 ^ 64"

lemma ff_points_mem: "x \<in> ff_points xs \<Longrightarrow> \<exists>s l. (s, l) \<in> set xs \<and> s \<le> x \<and> x < s + l"
  by (force simp: ff_points_def)

lemma block_inside:
  assumes "ff_inv xs" "block a len \<subseteq> ff_points xs" "0 < unat len" "HA dvd unat a"
  shows "heap_block a len"
proof -
  have up: "unat len \<le> up_to (unat len) HA"
    using up_to_ge [OF heapAlign_simps(3)] .
  have "unat a \<in> block a len" "unat a + up_to (unat len) HA - 1 \<in> block a len"
    using assms(3) up by (auto simp: block_def simp del: unat_gt_0)
  then have "unat a \<in> ff_points xs" "unat a + up_to (unat len) HA - 1 \<in> ff_points xs"
    using assms(2) by blast+
  then obtain s l s' l' where "(s, l) \<in> set xs" "s \<le> unat a" "(s', l') \<in> set xs" "unat a + up_to (unat len) HA - 1 < s' + l'"
    using ff_points_mem by blast
  then have "0 < unat a" "unat a + up_to (unat len) HA < 2 ^ 64"
    using ff_inv_mem [OF assms(1), of s l] ff_inv_mem [OF assms(1), of s' l'] by linarith+
  then show ?thesis
    using assms(3,4) by (auto simp: heap_block_def simp del: unat_gt_0)
qed

interpretation heap_pool: block_pool FirstFitHeap_alloc FirstFitHeap_free heap_rep block heap_request heap_block
proof
  fix h X len al
  assume "heap_rep h X" and r: "heap_request X len al"
  then obtain xs where xs: "heap_ok h xs" "X = ff_points xs"
    by (auto simp: heap_rep_def)
  have r': "0 < unat len" "unat len + HA - 1 < 2 ^ 64" "al \<noteq> 0" "HA dvd unat al"
    using r by (simp_all add: heap_request_def)
  have inv: "ff_inv xs"
    using xs(1) by (simp add: heap_ok_def)
  have "\<forall>(s, l)\<in>set xs. s + unat al \<le> 2 ^ 64"
  proof safe
    fix s l
    assume "(s, l) \<in> set xs"
    then have "s \<in> X"
      using ff_inv_mem [OF inv] xs(2) by (fastforce simp: ff_points_def)
    then show "s + unat al \<le> 2 ^ 64"
      using r by (simp add: heap_request_def)
  qed
  note c = FirstFitHeap_alloc_correct_aux [OF xs(1) r' this]
  have hb: "heap_block a len" if "unat al dvd unat a" "block a len \<subseteq> ff_points xs" for a
    using block_inside [OF inv that(2) r'(1)] dvd_trans [OF r'(4) that(1)] .
  show "(\<exists>a h'. FirstFitHeap_alloc len al h = Some (Inr a, h') \<and> unat al dvd unat a \<and> heap_block a len \<and>
         block a len \<subseteq> X \<and> heap_rep h' (X - block a len)) \<or> FirstFitHeap_alloc len al h = Some (Inl UNSET, h)"
    using c
  proof
    assume "\<exists>a h' ys. FirstFitHeap_alloc len al h = Some (Inr a, h') \<and> heap_ok h' ys \<and> unat al dvd unat a \<and>
      block a len \<subseteq> ff_points xs \<and> ff_points ys = ff_points xs - block a len \<and>
      (\<forall>b. unat b \<notin> ff_points xs \<longrightarrow> ff_mem h' b = ff_mem h b)"
    then obtain a h' ys where "FirstFitHeap_alloc len al h = Some (Inr a, h')" "heap_ok h' ys" "unat al dvd unat a"
      "block a len \<subseteq> ff_points xs" "ff_points ys = ff_points xs - block a len"
      by blast
    then show ?thesis
      using hb [of a] by (intro disjI1 exI [of _ a] exI [of _ h']) (auto simp: heap_rep_def xs(2))
  qed simp
next
  show "heap_request Y len al" if "heap_request X len al" "Y \<subseteq> X" for X len al Y
    using that by (auto simp: heap_request_def)
next
  show "\<exists>h'. FirstFitHeap_free a len h = Some h' \<and> heap_rep h' (X \<union> block a len)"
    if b: "heap_rep h X" "heap_block a len" "block a len \<inter> X = {}" for h X a len
  proof -
    obtain xs where xs: "heap_ok h xs" "X = ff_points xs"
      using b(1) by (auto simp: heap_rep_def)
    have "0 < unat len" "a \<noteq> 0" "HA dvd unat a" "unat a + up_to (unat len) HA < 2 ^ 64" "block a len \<inter> ff_points xs = {}"
      using b(2,3) xs(2) by (simp_all add: heap_block_def)
    then obtain h' ys where "FirstFitHeap_free a len h = Some h'" "heap_ok h' ys" "ff_points ys = X \<union> block a len"
      using FirstFitHeap_free_correct_aux [OF xs(1)] xs(2) by metis
    then show ?thesis
      by (intro exI [of _ h']) (auto simp: heap_rep_def)
  qed
qed

end
