(* ===== verification/Phys_Ptr.thy ===== *)
theory Phys_Ptr
  imports Mythos_Prelude
begin

text \<open>
  The kernel's view of addresses, from \<^verbatim>\<open>kernel/util/address/util/PhysPtr.hh\<close> and the layout
  constants of \<^verbatim>\<open>kernel/boot/kernelspace-amd64/boot/memory-layout-common.h\<close>.
  A pointer is its 64-bit value. Kernel objects live in the direct mapped area, so a pointer to one
  compresses to a 32-bit offset; the lemmas show that the two conversions are inverse to each other
  on that area, which is what the compressed pointers in capabilities and list links rely on.
\<close>

section \<open>Layout constants\<close>

definition VIRT_ADDR :: u64 where
  "VIRT_ADDR = 0xffffffff81000000"

definition KERNELMEM_ADDR :: u64 where
  "KERNELMEM_ADDR = 0xffff800000000000"

definition KERNELMEM_SIZE :: u64 where
  "KERNELMEM_SIZE = 0x0000000100000000"

definition MYTHOS_MAX_THREADS :: nat where
  "MYTHOS_MAX_THREADS = 244"

section \<open>Pointers\<close>

definition isKernelAddress :: "u64 \<Rightarrow> bool" where
  "isKernelAddress p \<longleftrightarrow> p \<ge> KERNELMEM_ADDR \<and> p < KERNELMEM_ADDR + KERNELMEM_SIZE"

text \<open>\<^verbatim>\<open>KERN_END\<close> is placed by the linker script, hence an argument.\<close>

definition isImageAddress :: "u64 \<Rightarrow> u64 \<Rightarrow> bool" where
  "isImageAddress kern_end p \<longleftrightarrow> p \<ge> VIRT_ADDR \<and> p < VIRT_ADDR + kern_end"

definition physPtr_fromImage :: "u64 \<Rightarrow> u64 \<Rightarrow> u64 option" where
  "physPtr_fromImage kern_end vp = do { ASSERT (isImageAddress kern_end vp); Some (vp - VIRT_ADDR) }"

definition physPtr_fromKernel :: "u64 \<Rightarrow> u64 option" where
  "physPtr_fromKernel vp = do { ASSERT (isKernelAddress vp); Some (vp - KERNELMEM_ADDR) }"

definition physPtr_kernelmem :: "u64 \<Rightarrow> bool" where
  "physPtr_kernelmem p \<longleftrightarrow> p < KERNELMEM_SIZE"

definition physPtr_logint :: "u64 \<Rightarrow> u64 option" where
  "physPtr_logint p = do { ASSERT (physPtr_kernelmem p); Some (p + KERNELMEM_ADDR) }"

definition CANONICAL_MASK :: u64 where
  "CANONICAL_MASK = push_bit 48 (push_bit (64 - 48) 1 - 1)"

definition physPtr_canonical :: "u64 \<Rightarrow> bool" where
  "physPtr_canonical p \<longleftrightarrow> p AND CANONICAL_MASK = 0 \<or> p AND CANONICAL_MASK = CANONICAL_MASK"

definition physPtr32 :: "u64 \<Rightarrow> u32 option" where
  "physPtr32 p = do { ASSERT (p \<le> 0xFFFFFFFF); Some (ucast p) }"

definition physPtr32_logint :: "u32 \<Rightarrow> u64" where
  "physPtr32_logint p = ucast p + KERNELMEM_ADDR"

definition kernel2phys :: "u64 \<Rightarrow> u32 option" where
  "kernel2phys vp = do { ASSERT (isKernelAddress vp); Some (ucast (vp - KERNELMEM_ADDR)) }"

definition phys2kernel :: "u64 \<Rightarrow> u64" where
  "phys2kernel phys = phys + KERNELMEM_ADDR"

definition kernel2offset :: "u64 \<Rightarrow> u32 option" where
  "kernel2offset vp = do { ASSERT (isKernelAddress vp); Some (ucast (vp - KERNELMEM_ADDR)) }"

definition offset2kernel :: "u32 \<Rightarrow> u64 option" where
  "offset2kernel o' = do { ASSERT (ucast o' < KERNELMEM_SIZE); Some (ucast o' + KERNELMEM_ADDR) }"

definition image2kernel :: "u64 \<Rightarrow> u64 \<Rightarrow> u64 option" where
  "image2kernel kern_end vp =
     do { ASSERT (isImageAddress kern_end vp); Some (vp - VIRT_ADDR + KERNELMEM_ADDR) }"

section \<open>Facts\<close>

lemmas layout_defs = VIRT_ADDR_def KERNELMEM_ADDR_def KERNELMEM_SIZE_def

lemma unat_u32_bound: "unat (x :: u32) < 2 ^ 32"
  using unsigned_less [of x] by simp

lemma unat_ucast_u32_u64 [simp]: "unat (ucast (x :: u32) :: u64) = unat x"
  using unat_u32_bound [of x] by (simp add: unsigned_ucast_eq take_bit_nat_eq_self)

lemma offset_in_kernelmem [simp]: "ucast (x :: u32) < KERNELMEM_SIZE"
proof -
  have "unat x < 2 ^ 32"
    by (rule unat_u32_bound)
  then show ?thesis
    by (simp add: KERNELMEM_SIZE_def word_less_nat_alt)
qed

lemma kernel_address_unat:
  "isKernelAddress p \<longleftrightarrow> unat KERNELMEM_ADDR \<le> unat p \<and> unat p < unat KERNELMEM_ADDR + 2 ^ 32"
  by (simp add: isKernelAddress_def layout_defs word_less_nat_alt word_le_nat_alt)

lemma isKernelAddress_offset [simp]: "isKernelAddress (ucast (x :: u32) + KERNELMEM_ADDR)"
proof -
  have "unat x < 2 ^ 32"
    by (rule unat_u32_bound)
  then have "unat (ucast x + KERNELMEM_ADDR) = unat x + unat KERNELMEM_ADDR"
    by (subst unat_add_lem [THEN iffD1]) (simp_all add: KERNELMEM_ADDR_def)
  with \<open>unat x < 2 ^ 32\<close> show ?thesis
    by (simp add: kernel_address_unat)
qed

lemma offset2kernel_eq [link_simps]: "offset2kernel x = Some (ucast x + KERNELMEM_ADDR)"
  by (simp add: offset2kernel_def)

lemma offset2kernel_total: "offset2kernel x \<noteq> None"
  by (simp add: offset2kernel_eq)

lemma ucast_ucast_u32 [simp]: "ucast (ucast (x :: u32) :: u64) = x"
  by (rule bit_word_eqI) (simp add: bit_simps)

lemma kernel_offset_bound:
  assumes "isKernelAddress p"
  shows "unat (p - KERNELMEM_ADDR) < 2 ^ 32"
proof -
  have "KERNELMEM_ADDR \<le> p" and "unat p < unat KERNELMEM_ADDR + 2 ^ 32"
    using assms by (auto simp: kernel_address_unat word_le_nat_alt)
  then show ?thesis
    by (simp add: unat_sub word_le_nat_alt)
qed

lemma ucast_down_up_kernel [link_simps]:
  assumes "isKernelAddress p"
  shows "ucast (ucast (p - KERNELMEM_ADDR) :: u32) + KERNELMEM_ADDR = p"
proof -
  have "unat (ucast (ucast (p - KERNELMEM_ADDR) :: u32) :: u64) = unat (p - KERNELMEM_ADDR)"
    using kernel_offset_bound [OF assms] by (simp add: unsigned_ucast_eq unsigned_take_bit_eq take_bit_nat_eq_self)
  then have "ucast (ucast (p - KERNELMEM_ADDR) :: u32) = p - KERNELMEM_ADDR"
    by (simp only: word_unat_eq_iff)
  then show ?thesis
    by simp
qed

lemma kernel2offset_inverse:
  "isKernelAddress p \<Longrightarrow> Option.bind (kernel2offset p) offset2kernel = Some p"
  by (simp add: kernel2offset_def link_simps)

lemma offset2kernel_inverse: "Option.bind (offset2kernel x) kernel2offset = Some x"
  by (simp add: kernel2offset_def link_simps)

end
