(* ===== verification/Boot_Paging.thy ===== *)
theory Boot_Paging
  imports Phys_Ptr
begin

text \<open>
  The kernel's own address space: the page tables the kernel boots with
  (\<^verbatim>\<open>kernel/boot/kernelspace-amd64/boot/pagetables.cc\<close> and \<^verbatim>\<open>pagetables.hh\<close>) and the code that adjusts them
  (\<^verbatim>\<open>init-kernelspace-common.cc\<close>). The tables are arrays of 64-bit entries; their addresses are chosen
  by the linker and are an argument. An access behind the end of an array does not return.

  Against them stands the address translation of the processor: a walk from the level 4 table down
  to a frame. The results say that the tables implement the address arithmetic of \<^verbatim>\<open>PhysPtr\<close>, that no
  mapping of the final address space allows writing to the kernel code, that user mode has no access,
  and where device registers and kernel stacks end up.
\<close>

section \<open>Entry flags and layout\<close>

definition INVALID :: u64 where "INVALID = 0"
definition PRESENT :: u64 where "PRESENT = push_bit 0 1"
definition WRITE :: u64 where "WRITE = push_bit 1 1"
definition USER :: u64 where "USER = push_bit 2 1"
definition PWT :: u64 where "PWT = push_bit 3 1"
definition CD :: u64 where "CD = push_bit 4 1"
definition ACCESSED :: u64 where "ACCESSED = push_bit 5 1"
definition DIRTY :: u64 where "DIRTY = push_bit 6 1"
definition ISPAGE :: u64 where "ISPAGE = push_bit 7 1"
definition GLOBAL :: u64 where "GLOBAL = 0"

definition PML2_PAGESIZE :: u64 where "PML2_PAGESIZE = push_bit 21 1"
definition PAGETABLE_SIZE :: u64 where "PAGETABLE_SIZE = 4096"

definition PML1_BASE :: u64 where "PML1_BASE = PRESENT + WRITE + ACCESSED + DIRTY + GLOBAL"
definition PML2_BASE :: u64 where "PML2_BASE = PRESENT + WRITE + ACCESSED + DIRTY + ISPAGE + GLOBAL"
definition PML3_BASE :: u64 where "PML3_BASE = PRESENT + WRITE + USER + ACCESSED"
definition PML4_BASE :: u64 where "PML4_BASE = PRESENT + WRITE + USER + ACCESSED"

definition LOAD_ADDR :: u64 where "LOAD_ADDR = 0x200000"
definition DEVICES_ADDR :: u64 where "DEVICES_ADDR = 0xffff800100000000"
definition LAPIC_ADDR :: u64 where "LAPIC_ADDR = 0xffff800100001000"
definition IOAPIC_ADDR :: u64 where "IOAPIC_ADDR = 0xffff800100002000"
definition KERNELSTACKS_ADDR :: u64 where "KERNELSTACKS_ADDR = 0xffff800100200000"
definition CORE_STACK_SIZE :: u64 where "CORE_STACK_SIZE = 2 * 4096"

section \<open>The tables\<close>

datatype boot_table = Devices_pml1 | Devices_pml2 | Image_pml2 | Pml2_tables | Pml3_table | Pml4_table

record boot_tables =
  bt_devices_pml1 :: "u64 list"
  bt_devices_pml2 :: "u64 list"
  bt_image_pml2 :: "u64 list"
  bt_pml2_tables :: "u64 list"
  bt_pml3_table :: "u64 list"
  bt_pml4_table :: "u64 list"

fun tbl :: "boot_tables \<Rightarrow> boot_table \<Rightarrow> u64 list" where
  "tbl bt Devices_pml1 = bt_devices_pml1 bt"
| "tbl bt Devices_pml2 = bt_devices_pml2 bt"
| "tbl bt Image_pml2 = bt_image_pml2 bt"
| "tbl bt Pml2_tables = bt_pml2_tables bt"
| "tbl bt Pml3_table = bt_pml3_table bt"
| "tbl bt Pml4_table = bt_pml4_table bt"

type_synonym symbols = "boot_table \<Rightarrow> u64"

definition table_to_phys_addr :: "u64 \<Rightarrow> u64 \<Rightarrow> u64" where
  "table_to_phys_addr t subtable = t + subtable * PAGETABLE_SIZE - VIRT_ADDR"

definition devices_pml1 :: "u64 list" where
  "devices_pml1 = INVALID # INVALID # replicate 510 INVALID @ replicate 512 INVALID @ replicate 512 INVALID"

definition devices_pml2 :: "symbols \<Rightarrow> u64 list" where
  "devices_pml2 loc =
     [PRESENT + WRITE + USER + ACCESSED + table_to_phys_addr (loc Devices_pml1) 0,
      PRESENT + WRITE + USER + ACCESSED + table_to_phys_addr (loc Devices_pml1) 1,
      PRESENT + WRITE + USER + ACCESSED + table_to_phys_addr (loc Devices_pml1) 2] @ replicate 509 INVALID"

definition image_pml2 :: "u64 list" where
  "image_pml2 = replicate 8 INVALID @ map (\<lambda>i. PML2_BASE + word_of_nat i * PML2_PAGESIZE) [0..<1016]"

definition pml2_tables :: "u64 list" where
  "pml2_tables = map (\<lambda>i. PML2_BASE + word_of_nat i * PML2_PAGESIZE) [0..<2048]"

definition pml3_table :: "symbols \<Rightarrow> u64 list" where
  "pml3_table loc =
     map (\<lambda>i. PML3_BASE + table_to_phys_addr (loc Pml2_tables) (word_of_nat i)) [0..<4] @
     [PML3_BASE + table_to_phys_addr (loc Devices_pml2) 0] @ replicate 507 INVALID @
     replicate 510 INVALID @
     map (\<lambda>i. PML3_BASE + table_to_phys_addr (loc Image_pml2) (word_of_nat i)) [0..<2]"

definition pml4_table :: "symbols \<Rightarrow> u64 list" where
  "pml4_table loc =
     [PML4_BASE + table_to_phys_addr (loc Pml3_table) 0] @ replicate 255 INVALID @
     [PML4_BASE + table_to_phys_addr (loc Pml3_table) 0] @ replicate 254 INVALID @
     [PML4_BASE + table_to_phys_addr (loc Pml3_table) 1] @
     replicate 256 INVALID @
     [PML4_BASE + table_to_phys_addr (loc Pml3_table) 0] @ replicate 254 INVALID @
     [PML4_BASE + table_to_phys_addr (loc Pml3_table) 1]"

definition boot_tables_init :: "symbols \<Rightarrow> boot_tables" where
  "boot_tables_init loc =
     \<lparr>bt_devices_pml1 = devices_pml1, bt_devices_pml2 = devices_pml2 loc, bt_image_pml2 = image_pml2,
      bt_pml2_tables = pml2_tables, bt_pml3_table = pml3_table loc, bt_pml4_table = pml4_table loc\<rparr>"

section \<open>Adjusting the tables\<close>

definition put_entry :: "u64 list \<Rightarrow> nat \<Rightarrow> u64 \<Rightarrow> u64 list option" where
  "put_entry xs i e = (if i < length xs then Some (xs[i := e]) else None)"

definition and_entry :: "u64 list \<Rightarrow> nat \<Rightarrow> u64 \<Rightarrow> u64 list option" where
  "and_entry xs i m = (if i < length xs then Some (xs[i := xs ! i AND m]) else None)"

text \<open>The loops of \<^verbatim>\<open>initKernelSpaceCommon\<close>; the first argument is the number of rounds left.\<close>

fun protect_code_loop :: "nat \<Rightarrow> nat \<Rightarrow> boot_tables \<Rightarrow> boot_tables option" where
  "protect_code_loop 0 i bt = Some bt"
| "protect_code_loop (Suc n) i bt = do {
     im \<leftarrow> and_entry (bt_image_pml2 bt) (8 + i) (NOT WRITE);
     pt \<leftarrow> and_entry (bt_pml2_tables bt) i (NOT WRITE);
     protect_code_loop n (i + 1) (bt\<lparr>bt_image_pml2 := im, bt_pml2_tables := pt\<rparr>) }"

fun unmap_rest_loop :: "nat \<Rightarrow> nat \<Rightarrow> boot_tables \<Rightarrow> boot_tables option" where
  "unmap_rest_loop 0 i bt = Some bt"
| "unmap_rest_loop (Suc n) i bt = do {
     im \<leftarrow> and_entry (bt_image_pml2 bt) i (NOT PRESENT);
     unmap_rest_loop n (i + 1) (bt\<lparr>bt_image_pml2 := im\<rparr>) }"

definition initKernelSpaceCommon :: "u64 \<Rightarrow> u64 \<Rightarrow> boot_tables \<Rightarrow> boot_tables option" where
  "initKernelSpaceCommon kern_roend kern_end bt = do {
     im \<leftarrow> and_entry (bt_image_pml2 bt) 8 (NOT PRESENT);
     let i = unat (LOAD_ADDR div PML2_PAGESIZE);
     let j = unat (kern_roend div PML2_PAGESIZE);
     bt \<leftarrow> protect_code_loop (j - i) i (bt\<lparr>bt_image_pml2 := im\<rparr>);
     let k = 8 + unat (kern_end div PML2_PAGESIZE);
     unmap_rest_loop (1024 - k) k bt }"

definition loadKernelSpace :: "symbols \<Rightarrow> u64" where
  "loadKernelSpace loc = table_to_phys_addr (loc Pml4_table) 1"

definition mapLapic :: "u64 \<Rightarrow> boot_tables \<Rightarrow> boot_tables option" where
  "mapLapic phys bt = do {
     d \<leftarrow> put_entry (bt_devices_pml1 bt) 1 (CD + PRESENT + WRITE + ACCESSED + DIRTY + GLOBAL + phys);
     Some (bt\<lparr>bt_devices_pml1 := d\<rparr>) }"

definition mapIOApic :: "u64 \<Rightarrow> boot_tables \<Rightarrow> boot_tables option" where
  "mapIOApic phys bt = do {
     d \<leftarrow> put_entry (bt_devices_pml1 bt) 2 (CD + PRESENT + WRITE + ACCESSED + DIRTY + GLOBAL + phys);
     Some (bt\<lparr>bt_devices_pml1 := d\<rparr>) }"

definition initKernelStack :: "nat \<Rightarrow> u64 \<Rightarrow> boot_tables \<Rightarrow> (u64 \<times> boot_tables) option" where
  "initKernelStack idx paddr bt = do {
     d \<leftarrow> put_entry (bt_devices_pml1 bt) (512 + 3 * idx + 1) (PRESENT + WRITE + ACCESSED + DIRTY + GLOBAL + paddr);
     d \<leftarrow> put_entry d (512 + 3 * idx + 2) (PRESENT + WRITE + ACCESSED + DIRTY + GLOBAL + paddr);
     Some (KERNELSTACKS_ADDR + 4096 * (3 * word_of_nat idx + 3), bt\<lparr>bt_devices_pml1 := d\<rparr>) }"

section \<open>The address translation of the processor\<close>

definition pt_index :: "nat \<Rightarrow> u64 \<Rightarrow> nat" where
  "pt_index l va = unat (drop_bit (12 + 9 * l) va AND 511)"

definition frame_addr :: "nat \<Rightarrow> u64 \<Rightarrow> u64" where
  "frame_addr n e = push_bit n (drop_bit n (take_bit 52 e))"

text \<open>
  The result is the physical address and whether the mapping allows writing and user access. The
  level counts the tables still below this one.
\<close>

record translation =
  tr_phys :: u64
  tr_write :: bool
  tr_user :: bool

fun pt_walk :: "(u64 \<Rightarrow> u64) \<Rightarrow> nat \<Rightarrow> u64 \<Rightarrow> u64 \<Rightarrow> translation option" where
  "pt_walk mem l table va =
     (let e = mem (table + 8 * word_of_nat (pt_index l va)); n = 12 + 9 * l in
      if \<not> bit e 0 then None
      else if l = 0 \<or> (bit e 7 \<and> l \<le> 2)
      then Some \<lparr>tr_phys = frame_addr n e + take_bit n va, tr_write = bit e 1, tr_user = bit e 2\<rparr>
      else map_option (\<lambda>t. t\<lparr>tr_write := tr_write t \<and> bit e 1, tr_user := tr_user t \<and> bit e 2\<rparr>)
             (pt_walk mem (l - 1) (frame_addr 12 e) va))"

declare pt_walk.simps [simp del]

section \<open>Indices and entries\<close>

lemmas flag_defs = INVALID_def PRESENT_def WRITE_def USER_def CD_def ACCESSED_def DIRTY_def ISPAGE_def GLOBAL_def
  PML1_BASE_def PML2_BASE_def PML3_BASE_def PML4_BASE_def

lemma pt_index_less [simp]: "pt_index l va < 512"
proof -
  have "(drop_bit (12 + 9 * l) va AND 511 :: u64) = take_bit 9 (drop_bit (12 + 9 * l) va)"
    by (simp add: take_bit_eq_mask mask_eq_exp_minus_1)
  then show ?thesis
    by (simp add: pt_index_def unsigned_take_bit_eq take_bit_nat_def)
qed

lemma pt_index_less_1024 [simp]: "pt_index l va < 1024"
  by (rule less_trans [OF pt_index_less]) simp

lemma pt_index_nat: "pt_index l va = unat va div 2 ^ (12 + 9 * l) mod 512"
proof -
  have "(drop_bit (12 + 9 * l) va AND 511 :: u64) = take_bit 9 (drop_bit (12 + 9 * l) va)"
    by (simp add: take_bit_eq_mask mask_eq_exp_minus_1)
  then show ?thesis
    using unat_u64_less [of va]
    by (simp add: pt_index_def unsigned_take_bit_eq take_bit_nat_def unsigned_drop_bit_eq drop_bit_nat_def)
qed

lemma unat_frame_addr: "n < 52 \<Longrightarrow> unat (frame_addr n e) = unat e mod 2 ^ 52 div 2 ^ n * 2 ^ n"
proof -
  assume "n < 52"
  have "unat e mod 2 ^ 52 div 2 ^ n * 2 ^ n \<le> unat e mod 2 ^ 52"
    by simp
  also have "\<dots> < 2 ^ 64"
    by (rule less_trans [of _ "2 ^ 52"]) simp_all
  finally show ?thesis
    by (simp add: frame_addr_def unsigned_push_bit_eq unsigned_drop_bit_eq unsigned_take_bit_eq
        push_bit_nat_def drop_bit_nat_def take_bit_nat_def)
qed

lemma frame_addr_add:
  assumes "n < 52" "2 ^ n dvd unat a" "unat b < 2 ^ n" "unat a + unat b < 2 ^ 52"
  shows "frame_addr n (b + a) = a"
proof -
  obtain k where k: "unat a = 2 ^ n * k"
    using assms(2) by blast
  have "unat (b + a) = unat a + unat b"
    using assms(4) by (subst unat_add_small) auto
  then have "unat (frame_addr n (b + a)) = (2 ^ n * k + unat b) div 2 ^ n * 2 ^ n"
    using assms(1,4) k by (simp add: unat_frame_addr)
  then show ?thesis
    using k assms(3) by (simp add: word_unat_eq_iff)
qed

lemma bit_add_frame:
  assumes "2 ^ n dvd unat (a :: u64)" "unat b < 2 ^ n" "unat a + unat b < 2 ^ 64" "j < n"
  shows "bit (b + a) j \<longleftrightarrow> bit b j"
proof -
  have "take_bit n (unat (b + a)) = take_bit n (unat b)"
    using assms(1,3) by (subst unat_add_small) (auto simp: take_bit_nat_def add.commute elim!: dvdE)
  then have "bit (unat (b + a)) j \<longleftrightarrow> bit (unat b) j"
    using assms(4) by (metis bit_take_bit_iff)
  then show ?thesis
    by (simp add: bit_unsigned_iff)
qed

section \<open>The tables in memory\<close>

definition symbols_ok :: "symbols \<Rightarrow> boot_tables \<Rightarrow> bool" where
  "symbols_ok loc bt \<longleftrightarrow> (\<forall>t. 4096 dvd unat (loc t) \<and> VIRT_ADDR \<le> loc t \<and> unat (loc t) + 8 * length (tbl bt t) \<le> 2 ^ 64)"

definition loaded :: "(u64 \<Rightarrow> u64) \<Rightarrow> symbols \<Rightarrow> boot_tables \<Rightarrow> bool" where
  "loaded mem loc bt \<longleftrightarrow>
     (\<forall>t i. i < length (tbl bt t) \<longrightarrow> mem (table_to_phys_addr (loc t) 0 + 8 * word_of_nat i) = tbl bt t ! i)"

lemma loaded_read:
  "loaded mem loc bt \<Longrightarrow> 512 * k + i < length (tbl bt t) \<Longrightarrow>
     mem (table_to_phys_addr (loc t) (word_of_nat k) + 8 * word_of_nat i) = tbl bt t ! (512 * k + i)"
proof -
  assume a: "loaded mem loc bt" "512 * k + i < length (tbl bt t)"
  have "table_to_phys_addr (loc t) (word_of_nat k) + 8 * word_of_nat i =
      table_to_phys_addr (loc t) 0 + 8 * word_of_nat (512 * k + i)"
    by (simp add: table_to_phys_addr_def PAGETABLE_SIZE_def algebra_simps)
  then show ?thesis
    using a unfolding loaded_def by metis
qed

lemma unat_table:
  assumes "symbols_ok loc bt" "512 * k < length (tbl bt t)"
  shows "unat (table_to_phys_addr (loc t) (word_of_nat k)) = unat (loc t) + 4096 * k - unat VIRT_ADDR"
proof -
  have a: "unat VIRT_ADDR \<le> unat (loc t)" "unat (loc t) + 8 * length (tbl bt t) \<le> 2 ^ 64"
    using assms(1) by (simp_all add: symbols_ok_def word_le_nat_alt)
  have "unat (word_of_nat k * 4096 :: u64) = 4096 * k"
    using a assms(2) by (simp add: unat_word_ariths take_bit_nat_def unsigned_of_nat)
  then have "unat (loc t + word_of_nat k * 4096) = unat (loc t) + 4096 * k"
    using a assms(2) by (subst unat_add_small) auto
  then show ?thesis
    using a by (simp add: table_to_phys_addr_def PAGETABLE_SIZE_def unat_sub_small)
qed

lemma table_small:
  assumes "symbols_ok loc bt" "512 * k < length (tbl bt t)"
  shows "4096 dvd unat (table_to_phys_addr (loc t) (word_of_nat k))"
    "unat (table_to_phys_addr (loc t) (word_of_nat k)) < 2 ^ 31"
proof -
  have a: "4096 dvd unat (loc t)" "unat (loc t) + 8 * length (tbl bt t) \<le> 2 ^ 64"
    using assms(1) by (simp_all add: symbols_ok_def)
  have "4096 dvd unat VIRT_ADDR"
    by (simp add: VIRT_ADDR_def)
  then show "4096 dvd unat (table_to_phys_addr (loc t) (word_of_nat k))"
    using a by (simp add: unat_table [OF assms] dvd_diff_nat)
  show "unat (table_to_phys_addr (loc t) (word_of_nat k)) < 2 ^ 31"
    using a assms(2) by (simp add: unat_table [OF assms] VIRT_ADDR_def)
qed

text \<open>An entry that refers to a table: its flags are those of the base, its frame is the table.\<close>

lemma table_entry:
  assumes "symbols_ok loc bt" "512 * k < length (tbl bt t)" "unat b < 2 ^ 12"
  shows "frame_addr 12 (b + table_to_phys_addr (loc t) (word_of_nat k)) = table_to_phys_addr (loc t) (word_of_nat k)"
    "j < 12 \<Longrightarrow> bit (b + table_to_phys_addr (loc t) (word_of_nat k)) j \<longleftrightarrow> bit b j"
proof -
  note s = table_small [OF assms(1,2)]
  show "frame_addr 12 (b + table_to_phys_addr (loc t) (word_of_nat k)) = table_to_phys_addr (loc t) (word_of_nat k)"
    using s assms(3) by (intro frame_addr_add) auto
  show "j < 12 \<Longrightarrow> bit (b + table_to_phys_addr (loc t) (word_of_nat k)) j \<longleftrightarrow> bit b j"
    using s assms(3) by (intro bit_add_frame [of 12]) auto
qed

section \<open>The translation in closed form\<close>

definition leaf :: "nat \<Rightarrow> u64 \<Rightarrow> u64 \<Rightarrow> translation option" where
  "leaf n e va = (if \<not> bit e 0 then None
     else Some \<lparr>tr_phys = frame_addr n e + take_bit n va, tr_write = bit e 1, tr_user = bit e 2\<rparr>)"

text \<open>The upper tables are never changed after boot, and the level 2 entries are pages.\<close>

definition shape :: "symbols \<Rightarrow> boot_tables \<Rightarrow> bool" where
  "shape loc bt \<longleftrightarrow>
     bt_pml4_table bt = pml4_table loc \<and> bt_pml3_table bt = pml3_table loc \<and>
     bt_devices_pml2 bt = devices_pml2 loc \<and> length (bt_devices_pml1 bt) = 1536 \<and>
     length (bt_image_pml2 bt) = 1024 \<and> length (bt_pml2_tables bt) = 2048 \<and>
     (\<forall>e\<in>set (bt_image_pml2 bt) \<union> set (bt_pml2_tables bt). bit e 0 \<longrightarrow> bit e 7)"

definition kernel_space :: "boot_tables \<Rightarrow> u64 \<Rightarrow> translation option" where
  "kernel_space bt va =
     (let a = pt_index 3 va; b = pt_index 2 va; c = pt_index 1 va; d = pt_index 0 va in
      if a = 256 \<and> b < 4 then leaf 21 (bt_pml2_tables bt ! (512 * b + c)) va
      else if a = 256 \<and> b = 4 \<and> c < 3 then leaf 12 (bt_devices_pml1 bt ! (512 * c + d)) va
      else if a = 511 \<and> 510 \<le> b then leaf 21 (bt_image_pml2 bt ! (512 * (b - 510) + c)) va
      else None)"

lemma pml4_nth: "a < 512 \<Longrightarrow> pml4_table loc ! (512 + a) =
   (if a = 256 then PML4_BASE + table_to_phys_addr (loc Pml3_table) 0
    else if a = 511 then PML4_BASE + table_to_phys_addr (loc Pml3_table) 1 else INVALID)"
  by (auto simp: pml4_table_def nth_append nth_Cons')

lemma pml3_nth: "b < 512 \<Longrightarrow> pml3_table loc ! b =
   (if b < 4 then PML3_BASE + table_to_phys_addr (loc Pml2_tables) (word_of_nat b)
    else if b = 4 then PML3_BASE + table_to_phys_addr (loc Devices_pml2) 0 else INVALID)"
  by (auto simp: pml3_table_def nth_append nth_Cons')

lemma pml3_nth_upper: "b < 512 \<Longrightarrow> pml3_table loc ! (512 + b) =
   (if 510 \<le> b then PML3_BASE + table_to_phys_addr (loc Image_pml2) (word_of_nat (b - 510)) else INVALID)"
  by (auto simp: pml3_table_def nth_append nth_Cons')

lemma devices_pml2_nth: "c < 512 \<Longrightarrow> devices_pml2 loc ! c =
   (if c < 3 then PML3_BASE + table_to_phys_addr (loc Devices_pml1) (word_of_nat c) else INVALID)"
proof -
  assume "c < 512"
  moreover have "c = 0 \<or> c = 1 \<or> c = 2 \<or> 3 \<le> c"
    by linarith
  ultimately show ?thesis
    by (auto simp: devices_pml2_def nth_append nth_Cons' PML3_BASE_def)
qed

lemma table_lengths [simp]: "length (pml4_table loc) = 1024" "length (pml3_table loc) = 1024"
    "length (devices_pml2 loc) = 512" "length devices_pml1 = 1536" "length image_pml2 = 1024" "length pml2_tables = 2048"
  by (simp_all add: pml4_table_def pml3_table_def devices_pml2_def devices_pml1_def image_pml2_def pml2_tables_def)

lemma pt_walk_table:
  assumes "mem (table + 8 * word_of_nat (pt_index l va)) = e" "bit e 0" "bit e 1" "bit e 2" "\<not> bit e 7" "0 < l"
  shows "pt_walk mem l table va = pt_walk mem (l - 1) (frame_addr 12 e) va"
  using assms by (subst pt_walk.simps) (simp add: Let_def map_option_case split: option.splits)

lemma pt_walk_leaf:
  assumes "mem (table + 8 * word_of_nat (pt_index l va)) = e" "bit e 0 \<longrightarrow> l = 0 \<or> bit e 7" "l \<le> 2"
  shows "pt_walk mem l table va = leaf (12 + 9 * l) e va"
  using assms by (subst pt_walk.simps) (auto simp: Let_def leaf_def)

lemma pt_walk_invalid:
  assumes "mem (table + 8 * word_of_nat (pt_index l va)) = INVALID"
  shows "pt_walk mem l table va = None"
  using assms by (subst pt_walk.simps) (simp add: INVALID_def)

lemma base_bits: "unat PML4_BASE < 2 ^ 12" "unat PML3_BASE < 2 ^ 12" "bit PML4_BASE 0" "bit PML4_BASE 1" "bit PML4_BASE 2"
  "\<not> bit PML4_BASE 7" "bit PML3_BASE 0" "bit PML3_BASE 1" "bit PML3_BASE 2" "\<not> bit PML3_BASE 7"
  by (simp_all add: flag_defs bit_iff_odd)

text \<open>One step down from a table entry.\<close>

lemma pt_walk_down:
  assumes "symbols_ok loc bt" "loaded mem loc bt" "512 * k + pt_index l va < length (tbl bt t)"
    and "tbl bt t ! (512 * k + pt_index l va) = b + table_to_phys_addr (loc t') (word_of_nat k')"
    and "b = PML4_BASE \<or> b = PML3_BASE" "512 * k' < length (tbl bt t')" "0 < l"
  shows "pt_walk mem l (table_to_phys_addr (loc t) (word_of_nat k)) va =
    pt_walk mem (l - 1) (table_to_phys_addr (loc t') (word_of_nat k')) va"
proof -
  have b: "unat b < 2 ^ 12" "bit b 0" "bit b 1" "bit b 2" "\<not> bit b 7"
    using assms(5) base_bits by auto
  note te = table_entry [OF assms(1,6) b(1)]
  show ?thesis
    using pt_walk_table [where mem = mem, OF loaded_read [OF assms(2,3)], unfolded assms(4)] te(1) te(2) [of 0] te(2) [of 1]
      te(2) [of 2] te(2) [of 7] b assms(7) by simp
qed

lemma pt_walk_stop:
  assumes "loaded mem loc bt" "512 * k + pt_index l va < length (tbl bt t)" "tbl bt t ! (512 * k + pt_index l va) = INVALID"
  shows "pt_walk mem l (table_to_phys_addr (loc t) (word_of_nat k)) va = None"
  using pt_walk_invalid [where mem = mem, OF loaded_read [OF assms(1,2), unfolded assms(3)]] .

lemma pt_walk_page:
  assumes "loaded mem loc bt" "512 * k + pt_index l va < length (tbl bt t)" "l \<le> 2"
    and "bit (tbl bt t ! (512 * k + pt_index l va)) 0 \<longrightarrow> l = 0 \<or> bit (tbl bt t ! (512 * k + pt_index l va)) 7"
  shows "pt_walk mem l (table_to_phys_addr (loc t) (word_of_nat k)) va = leaf (12 + 9 * l) (tbl bt t ! (512 * k + pt_index l va)) va"
  using pt_walk_leaf [where mem = mem, OF loaded_read [OF assms(1,2)] assms(4,3)] .

lemma shapeD:
  assumes "shape loc bt"
  shows "tbl bt Pml4_table = pml4_table loc" "tbl bt Pml3_table = pml3_table loc" "tbl bt Devices_pml2 = devices_pml2 loc"
    "length (tbl bt Devices_pml1) = 1536" "length (tbl bt Image_pml2) = 1024" "length (tbl bt Pml2_tables) = 2048"
    and "i < length (tbl bt Image_pml2) \<Longrightarrow> bit (tbl bt Image_pml2 ! i) 0 \<longrightarrow> bit (tbl bt Image_pml2 ! i) 7"
    and "i < length (tbl bt Pml2_tables) \<Longrightarrow> bit (tbl bt Pml2_tables ! i) 0 \<longrightarrow> bit (tbl bt Pml2_tables ! i) 7"
  using assms by (auto simp: shape_def)

lemma walk_devices:
  assumes ok: "symbols_ok loc bt" and ld: "loaded mem loc bt" and sh: "shape loc bt"
  shows "pt_walk mem 1 (table_to_phys_addr (loc Devices_pml2) (word_of_nat 0)) va =
    (if pt_index 1 va < 3 then leaf 12 (tbl bt Devices_pml1 ! (512 * pt_index 1 va + pt_index 0 va)) va else None)"
proof (cases "pt_index 1 va < 3")
  case True
  have "512 * pt_index 1 va + pt_index 0 va < 1536"
    using True pt_index_less [of 0 va] by linarith
  moreover have "pt_walk mem 1 (table_to_phys_addr (loc Devices_pml2) (word_of_nat 0)) va =
      pt_walk mem 0 (table_to_phys_addr (loc Devices_pml1) (word_of_nat (pt_index 1 va))) va"
    using pt_walk_down [OF ok ld, of 0 1 va Devices_pml2 PML3_BASE Devices_pml1 "pt_index 1 va"] shapeD [OF sh]
      devices_pml2_nth [of "pt_index 1 va"] True by (simp del: tbl.simps)
  ultimately show ?thesis
    using pt_walk_page [OF ld, of "pt_index 1 va" 0 va Devices_pml1] shapeD [OF sh] True by (simp del: tbl.simps)
next
  case False
  then show ?thesis
    using pt_walk_stop [OF ld, of 0 1 va Devices_pml2] shapeD [OF sh] devices_pml2_nth [of "pt_index 1 va"]
    by (simp del: tbl.simps)
qed

lemma walk_direct:
  assumes ok: "symbols_ok loc bt" and ld: "loaded mem loc bt" and sh: "shape loc bt"
  shows "pt_walk mem 2 (table_to_phys_addr (loc Pml3_table) (word_of_nat 0)) va =
    (if pt_index 2 va < 4 then leaf 21 (tbl bt Pml2_tables ! (512 * pt_index 2 va + pt_index 1 va)) va
     else if pt_index 2 va = 4 then pt_walk mem 1 (table_to_phys_addr (loc Devices_pml2) (word_of_nat 0)) va else None)"
proof -
  note down = pt_walk_down [OF ok ld, of 0 2 va Pml3_table PML3_BASE] and nth = pml3_nth [of "pt_index 2 va" loc]
  consider (page) "pt_index 2 va < 4" | (devices) "pt_index 2 va = 4" | (hole) "4 < pt_index 2 va"
    by linarith
  then show ?thesis
  proof cases
    case page
    have i: "512 * pt_index 2 va + pt_index 1 va < 2048"
      using page pt_index_less [of 1 va] by linarith
    have "pt_walk mem 2 (table_to_phys_addr (loc Pml3_table) (word_of_nat 0)) va =
        pt_walk mem 1 (table_to_phys_addr (loc Pml2_tables) (word_of_nat (pt_index 2 va))) va"
      using down [of Pml2_tables "pt_index 2 va"] nth shapeD [OF sh] page by (simp del: tbl.simps)
    then show ?thesis
      using pt_walk_page [OF ld, of "pt_index 2 va" 1 va Pml2_tables] shapeD(1-6) [OF sh] shapeD(8) [OF sh] i page
      by (simp del: tbl.simps)
  next
    case devices
    then show ?thesis
      using down [of Devices_pml2 0] nth shapeD [OF sh] by (simp del: tbl.simps)
  next
    case hole
    then show ?thesis
      using pt_walk_stop [OF ld, of 0 2 va Pml3_table] shapeD [OF sh] nth by (simp del: tbl.simps)
  qed
qed

lemma walk_image:
  assumes ok: "symbols_ok loc bt" and ld: "loaded mem loc bt" and sh: "shape loc bt"
  shows "pt_walk mem 2 (table_to_phys_addr (loc Pml3_table) (word_of_nat 1)) va =
    (if 510 \<le> pt_index 2 va then leaf 21 (tbl bt Image_pml2 ! (512 * (pt_index 2 va - 510) + pt_index 1 va)) va else None)"
proof (cases "510 \<le> pt_index 2 va")
  case True
  have i: "512 * (pt_index 2 va - 510) + pt_index 1 va < 1024"
    using True pt_index_less [of 1 va] pt_index_less [of 2 va] by linarith
  have "512 * (pt_index 2 va - 510) < 1024"
    using i by linarith
  then have "pt_walk mem 2 (table_to_phys_addr (loc Pml3_table) (word_of_nat 1)) va =
      pt_walk mem 1 (table_to_phys_addr (loc Image_pml2) (word_of_nat (pt_index 2 va - 510))) va"
    using pt_walk_down [OF ok ld, of 1 2 va Pml3_table PML3_BASE Image_pml2 "pt_index 2 va - 510"]
      pml3_nth_upper [of "pt_index 2 va"] shapeD [OF sh] True by (simp del: tbl.simps)
  then show ?thesis
    using pt_walk_page [OF ld, of "pt_index 2 va - 510" 1 va Image_pml2] shapeD(1-6) [OF sh] shapeD(7) [OF sh] i True
    by (simp del: tbl.simps)
next
  case False
  then show ?thesis
    using pt_walk_stop [OF ld, of 1 2 va Pml3_table] shapeD [OF sh] pml3_nth_upper [of "pt_index 2 va"]
    by (simp del: tbl.simps)
qed

lemma kernel_space_walk:
  assumes ok: "symbols_ok loc bt" and ld: "loaded mem loc bt" and sh: "shape loc bt"
  shows "pt_walk mem 3 (loadKernelSpace loc) va = kernel_space bt va"
proof -
  have top: "loadKernelSpace loc = table_to_phys_addr (loc Pml4_table) (word_of_nat 1)"
    by (simp add: loadKernelSpace_def)
  note down = pt_walk_down [OF ok ld, of 1 3 va Pml4_table PML4_BASE Pml3_table]
  consider "pt_index 3 va = 256" | "pt_index 3 va = 511" | "pt_index 3 va \<noteq> 256" "pt_index 3 va \<noteq> 511"
    by blast
  then show ?thesis
  proof cases
    case 1
    then have "pt_walk mem 3 (loadKernelSpace loc) va = pt_walk mem 2 (table_to_phys_addr (loc Pml3_table) (word_of_nat 0)) va"
      unfolding top using down [of 0] shapeD [OF sh] pml4_nth [of 256 loc] by (simp del: tbl.simps)
    then show ?thesis
      using 1 by (simp only: walk_direct [OF assms] walk_devices [OF assms]) (simp add: kernel_space_def)
  next
    case 2
    then have "pt_walk mem 3 (loadKernelSpace loc) va = pt_walk mem 2 (table_to_phys_addr (loc Pml3_table) (word_of_nat 1)) va"
      unfolding top using down [of 1] shapeD [OF sh] pml4_nth [of 511 loc] by (simp del: tbl.simps)
    then show ?thesis
      using 2 by (simp only: walk_image [OF assms]) (simp add: kernel_space_def)
  next
    case 3
    then show ?thesis
      unfolding top using pt_walk_stop [OF ld, of 1 3 va Pml4_table] shapeD [OF sh] pml4_nth [of "pt_index 3 va" loc]
      by (simp add: kernel_space_def)
  qed
qed

section \<open>The final kernel space\<close>

definition mask_range :: "nat \<Rightarrow> nat \<Rightarrow> u64 \<Rightarrow> u64 list \<Rightarrow> u64 list" where
  "mask_range a b m xs = map (\<lambda>j. if a \<le> j \<and> j < b then xs ! j AND m else xs ! j) [0..<length xs]"

lemma length_mask_range [simp]: "length (mask_range a b m xs) = length xs"
  by (simp add: mask_range_def)

lemma nth_mask_range [simp]:
  "j < length xs \<Longrightarrow> mask_range a b m xs ! j = (if a \<le> j \<and> j < b then xs ! j AND m else xs ! j)"
  by (simp add: mask_range_def)

lemma mask_range_empty [simp]: "b \<le> a \<Longrightarrow> mask_range a b m xs = xs"
  by (rule nth_equalityI) auto

lemma mask_range_merge: "a \<le> c \<Longrightarrow> c \<le> b \<Longrightarrow> mask_range c b m (mask_range a c m xs) = mask_range a b m xs"
  by (rule nth_equalityI) auto

lemma and_entry_mask: "i < length xs \<Longrightarrow> and_entry xs i m = Some (mask_range i (Suc i) m xs)"
  by (auto simp: and_entry_def nth_list_update intro!: nth_equalityI)

lemma protect_code_loop_eq:
  "8 + i + n \<le> length (bt_image_pml2 bt) \<Longrightarrow> i + n \<le> length (bt_pml2_tables bt) \<Longrightarrow>
     protect_code_loop n i bt = Some (bt\<lparr>bt_image_pml2 := mask_range (8 + i) (8 + i + n) (NOT WRITE) (bt_image_pml2 bt),
       bt_pml2_tables := mask_range i (i + n) (NOT WRITE) (bt_pml2_tables bt)\<rparr>)"
  by (induction n arbitrary: i bt) (simp_all add: and_entry_mask mask_range_merge add.assoc)

lemma unmap_rest_loop_eq:
  "i + n \<le> length (bt_image_pml2 bt) \<Longrightarrow>
     unmap_rest_loop n i bt = Some (bt\<lparr>bt_image_pml2 := mask_range i (i + n) (NOT PRESENT) (bt_image_pml2 bt)\<rparr>)"
  by (induction n arbitrary: i bt) (simp_all add: and_entry_mask mask_range_merge add.assoc)

text \<open>What the linker script guarantees: the image is loaded from \<open>LOAD_ADDR\<close> on, its parts end at page borders.\<close>

definition image_layout :: "u64 \<Rightarrow> u64 \<Rightarrow> bool" where
  "image_layout kern_roend kern_end \<longleftrightarrow> 2 ^ 21 dvd unat kern_roend \<and> 2 ^ 21 dvd unat kern_end \<and>
     LOAD_ADDR \<le> kern_roend \<and> kern_roend \<le> kern_end \<and> unat kern_end \<le> 1016 * 2 ^ 21"

abbreviation pages :: "u64 \<Rightarrow> nat" where
  "pages a \<equiv> unat a div 2 ^ 21"

lemma unat_pages: "unat (a div PML2_PAGESIZE) = pages a"
  by (simp add: PML2_PAGESIZE_def unat_div)

lemma LOAD_pages: "pages LOAD_ADDR = 1" "unat LOAD_ADDR = 2 ^ 21"
  by (simp_all add: LOAD_ADDR_def)

lemma image_layoutD:
  assumes "image_layout kern_roend kern_end"
  shows "1 \<le> pages kern_roend" "pages kern_roend \<le> pages kern_end" "pages kern_end \<le> 1016"
    "unat kern_roend = pages kern_roend * 2 ^ 21" "unat kern_end = pages kern_end * 2 ^ 21"
  using assms div_le_mono [of "unat LOAD_ADDR" "unat kern_roend" "2 ^ 21"] div_le_mono [of "unat kern_roend" "unat kern_end" "2 ^ 21"]
    div_le_mono [of "unat kern_end" "1016 * 2 ^ 21" "2 ^ 21"]
  by (simp_all add: image_layout_def word_le_nat_alt LOAD_ADDR_def)

lemma initKernelSpaceCommon_eq:
  assumes "image_layout kern_roend kern_end"
  shows "initKernelSpaceCommon kern_roend kern_end (boot_tables_init loc) = Some ((boot_tables_init loc)\<lparr>
     bt_image_pml2 := mask_range (8 + pages kern_end) 1024 (NOT PRESENT)
       (mask_range 9 (8 + pages kern_roend) (NOT WRITE) (mask_range 8 9 (NOT PRESENT) image_pml2)),
     bt_pml2_tables := mask_range 1 (pages kern_roend) (NOT WRITE) pml2_tables\<rparr>)"
  using image_layoutD [OF assms]
  by (simp add: initKernelSpaceCommon_def boot_tables_init_def and_entry_mask protect_code_loop_eq unmap_rest_loop_eq
      unat_pages LOAD_pages)

section \<open>Page entries\<close>

lemma page_entry:
  assumes "i < 2048"
  shows "unat (frame_addr 21 (PML2_BASE + word_of_nat i * PML2_PAGESIZE)) = i * 2 ^ 21"
    and "j < 21 \<Longrightarrow> bit (PML2_BASE + word_of_nat i * PML2_PAGESIZE) j \<longleftrightarrow> bit PML2_BASE j"
proof -
  have u: "unat (word_of_nat i * PML2_PAGESIZE) = i * 2 ^ 21"
    using assms by (simp add: PML2_PAGESIZE_def unat_word_ariths take_bit_nat_def unsigned_of_nat)
  have b: "unat PML2_BASE < 2 ^ 21"
    by (simp add: flag_defs)
  have "i * 2 ^ 21 + unat PML2_BASE < 2 ^ 52"
    using assms b by simp
  then show "unat (frame_addr 21 (PML2_BASE + word_of_nat i * PML2_PAGESIZE)) = i * 2 ^ 21"
    using u b by (subst frame_addr_add) auto
  show "j < 21 \<Longrightarrow> bit (PML2_BASE + word_of_nat i * PML2_PAGESIZE) j \<longleftrightarrow> bit PML2_BASE j"
    using u b assms by (intro bit_add_frame [of 21]) auto
qed

lemma page_bits: "bit PML2_BASE 0" "bit PML2_BASE 1" "\<not> bit PML2_BASE 2" "bit PML2_BASE 7"
  by (simp_all add: flag_defs bit_iff_odd)

lemma pt_flag_bits: "bit (e AND NOT WRITE) j \<longleftrightarrow> bit e j \<and> j \<noteq> 1" "bit (e AND NOT PRESENT) j \<longleftrightarrow> bit e j \<and> j \<noteq> 0"
  unfolding WRITE_def PRESENT_def bit_and_iff bit_not_iff bit_push_bit_iff bit_1_iff
  by (auto dest: bit_imp_le_length)

lemma frame_addr_flags: "frame_addr 21 (e AND NOT WRITE) = frame_addr 21 e" "frame_addr 21 (e AND NOT PRESENT) = frame_addr 21 e"
  by (rule bit_word_eqI, simp only: frame_addr_def bit_push_bit_iff bit_drop_bit_eq bit_take_bit_iff pt_flag_bits comp_def,
      force)+

definition page_at :: "nat \<Rightarrow> u64 \<Rightarrow> bool \<Rightarrow> translation" where
  "page_at i va w = \<lparr>tr_phys = word_of_nat i * PML2_PAGESIZE + take_bit 21 va, tr_write = w, tr_user = False\<rparr>"

lemma unat_page_at: "i < 2048 \<Longrightarrow> unat (tr_phys (page_at i va w)) = i * 2 ^ 21 + unat va mod 2 ^ 21"
proof -
  assume i: "i < 2048"
  then have "unat (word_of_nat i * PML2_PAGESIZE) = i * 2 ^ 21"
    by (simp add: PML2_PAGESIZE_def unat_word_ariths take_bit_nat_def unsigned_of_nat)
  moreover have "unat (take_bit 21 va) = unat va mod 2 ^ 21"
    by (simp add: unsigned_take_bit_eq take_bit_nat_def)
  moreover have "i * 2 ^ 21 + unat va mod 2 ^ 21 < 2 ^ 64"
    using i mod_less_divisor [of "2 ^ 21" "unat va"] by simp
  ultimately show ?thesis
    by (simp add: page_at_def unat_add_small)
qed

lemma leaf_page:
  assumes "i < 2048"
  shows "leaf 21 (PML2_BASE + word_of_nat i * PML2_PAGESIZE) va = Some (page_at i va True)"
    "leaf 21 ((PML2_BASE + word_of_nat i * PML2_PAGESIZE) AND NOT WRITE) va = Some (page_at i va False)"
    "leaf 21 (e AND NOT PRESENT) va = None"
proof -
  have "frame_addr 21 (PML2_BASE + word_of_nat i * PML2_PAGESIZE) = word_of_nat i * PML2_PAGESIZE"
    using page_entry(1) [OF assms] assms
    by (simp add: word_unat_eq_iff PML2_PAGESIZE_def unat_word_ariths take_bit_nat_def unsigned_of_nat)
  then show "leaf 21 (PML2_BASE + word_of_nat i * PML2_PAGESIZE) va = Some (page_at i va True)"
    "leaf 21 ((PML2_BASE + word_of_nat i * PML2_PAGESIZE) AND NOT WRITE) va = Some (page_at i va False)"
    using page_entry(2) [OF assms, of 0] page_entry(2) [OF assms, of 1] page_entry(2) [OF assms, of 2] page_bits
    by (simp_all add: leaf_def frame_addr_flags pt_flag_bits page_at_def)
  show "leaf 21 (e AND NOT PRESENT) va = None"
    by (simp add: leaf_def pt_flag_bits)
qed

definition kernel_tables :: "symbols \<Rightarrow> u64 \<Rightarrow> u64 \<Rightarrow> boot_tables \<Rightarrow> bool" where
  "kernel_tables loc kern_roend kern_end bt \<longleftrightarrow>
     image_layout kern_roend kern_end \<and> initKernelSpaceCommon kern_roend kern_end (boot_tables_init loc) = Some bt"

lemma pml2_nth: "i < 2048 \<Longrightarrow> pml2_tables ! i = PML2_BASE + word_of_nat i * PML2_PAGESIZE"
  by (simp add: pml2_tables_def)

lemma image_nth: "j < 1024 \<Longrightarrow> image_pml2 ! j = (if j < 8 then INVALID else PML2_BASE + word_of_nat (j - 8) * PML2_PAGESIZE)"
  by (auto simp: image_pml2_def nth_append)

lemma devices_nth: "d < 1536 \<Longrightarrow> devices_pml1 ! d = INVALID"
  by (auto simp: devices_pml1_def nth_append nth_Cons')

lemma kernel_tables_direct:
  assumes "kernel_tables loc kern_roend kern_end bt" "i < 2048"
  shows "leaf 21 (bt_pml2_tables bt ! i) va = Some (page_at i va (\<not> (1 \<le> i \<and> i < pages kern_roend)))"
  using assms initKernelSpaceCommon_eq [of kern_roend kern_end loc]
  by (auto simp: kernel_tables_def pml2_nth leaf_page)

lemma kernel_tables_image:
  assumes "kernel_tables loc kern_roend kern_end bt" "j < 1024"
  shows "leaf 21 (bt_image_pml2 bt ! j) va =
    (if 9 \<le> j \<and> j < 8 + pages kern_end then Some (page_at (j - 8) va (8 + pages kern_roend \<le> j)) else None)"
proof -
  have "leaf 21 INVALID va = None" "leaf 21 (INVALID AND NOT PRESENT) va = None"
    by (simp_all add: leaf_def INVALID_def)
  moreover have "1 \<le> pages kern_roend" "pages kern_roend \<le> pages kern_end"
    using assms(1) image_layoutD by (auto simp: kernel_tables_def)
  moreover have "bt_image_pml2 bt ! j = mask_range (8 + pages kern_end) 1024 (NOT PRESENT)
       (mask_range 9 (8 + pages kern_roend) (NOT WRITE) (mask_range 8 9 (NOT PRESENT) image_pml2)) ! j"
    using assms(1) initKernelSpaceCommon_eq [of kern_roend kern_end loc] by (auto simp: kernel_tables_def)
  ultimately show ?thesis
    using assms(2) leaf_page [of "j - 8"] by (auto simp: image_nth)
qed

lemma kernel_tables_shape:
  assumes "kernel_tables loc kern_roend kern_end bt"
  shows "shape loc bt" "bt_devices_pml1 bt = devices_pml1"
proof -
  have eq: "bt = (boot_tables_init loc)\<lparr>
     bt_image_pml2 := mask_range (8 + pages kern_end) 1024 (NOT PRESENT)
       (mask_range 9 (8 + pages kern_roend) (NOT WRITE) (mask_range 8 9 (NOT PRESENT) image_pml2)),
     bt_pml2_tables := mask_range 1 (pages kern_roend) (NOT WRITE) pml2_tables\<rparr>"
    using assms initKernelSpaceCommon_eq [of kern_roend kern_end loc] by (simp add: kernel_tables_def)
  have page: "bit (pml2_tables ! i) 7" if "i < 2048" for i
    using that page_entry(2) [of i 7] page_bits by (simp add: pml2_nth)
  have image: "bit (image_pml2 ! j) 0 \<Longrightarrow> bit (image_pml2 ! j) 7" if "j < 1024" for j
    using that page_entry(2) [of "j - 8" 7] page_bits by (auto simp: image_nth INVALID_def split: if_splits)
  show "shape loc bt"
    unfolding shape_def Ball_def using page image
    by (auto simp: eq boot_tables_init_def in_set_conv_nth pt_flag_bits split: if_splits)
  show "bt_devices_pml1 bt = devices_pml1"
    by (simp add: eq boot_tables_init_def)
qed

text \<open>The final kernel space, over all virtual addresses.\<close>

lemma kernel_space_final:
  assumes "kernel_tables loc kern_roend kern_end bt"
  shows "kernel_space bt va =
    (let a = pt_index 3 va; i = 512 * pt_index 2 va + pt_index 1 va; j = 512 * (pt_index 2 va - 510) + pt_index 1 va in
     if a = 256 \<and> pt_index 2 va < 4 then Some (page_at i va (\<not> (1 \<le> i \<and> i < pages kern_roend)))
     else if a = 511 \<and> 510 \<le> pt_index 2 va \<and> 9 \<le> j \<and> j < 8 + pages kern_end
     then Some (page_at (j - 8) va (8 + pages kern_roend \<le> j)) else None)"
proof -
  let ?i = "512 * pt_index 2 va + pt_index 1 va" and ?j = "512 * (pt_index 2 va - 510) + pt_index 1 va"
  have less: "pt_index 2 va < 512" "pt_index 1 va < 512" "pt_index 0 va < 512"
    by simp_all
  have "?i < 2048" if "pt_index 2 va < 4"
    using that less by linarith
  moreover have "?j < 1024" if "510 \<le> pt_index 2 va"
    using that less by linarith
  moreover have "leaf 12 (bt_devices_pml1 bt ! (512 * pt_index 1 va + pt_index 0 va)) va = None" if "pt_index 1 va < 3"
  proof -
    have "512 * pt_index 1 va + pt_index 0 va < 1536"
      using that less by linarith
    then show ?thesis
      using kernel_tables_shape(2) [OF assms] by (simp add: devices_nth leaf_def INVALID_def)
  qed
  ultimately show ?thesis
    using kernel_tables_direct [OF assms, of ?i va] kernel_tables_image [OF assms, of ?j va]
    by (auto simp: kernel_space_def Let_def)
qed

section \<open>The windows of the kernel space\<close>

lemma direct_index:
  assumes "unat p < 2 ^ 32"
  shows "unat (p + KERNELMEM_ADDR) = unat p + 0x1ffff00 * 2 ^ 39" "pt_index 3 (p + KERNELMEM_ADDR) = 256"
    "pt_index 2 (p + KERNELMEM_ADDR) = unat p div 2 ^ 30" "pt_index 1 (p + KERNELMEM_ADDR) = pages p mod 512"
    "unat (p + KERNELMEM_ADDR) mod 2 ^ 21 = unat p mod 2 ^ 21"
proof -
  show u: "unat (p + KERNELMEM_ADDR) = unat p + 0x1ffff00 * 2 ^ 39"
    using assms by (subst unat_add_small) (simp_all add: KERNELMEM_ADDR_def)
  have "unat p div 2 ^ 39 = 0"
    using assms by simp
  then have "(unat p + 0x1ffff00 * 2 ^ 39) div 2 ^ 39 = 0x1ffff00"
    by (subst div_mult_self1) simp_all
  then show "pt_index 3 (p + KERNELMEM_ADDR) = 256"
    unfolding pt_index_nat u by simp
  have "(unat p + 0x1ffff00 * 2 ^ 39) div 2 ^ 30 = unat p div 2 ^ 30 + 512 * 0x1ffff00"
    using div_mult_self1 [of "2 ^ 30 :: nat" "unat p" "0x1ffff00 * 512"] by simp
  moreover have "(unat p div 2 ^ 30 + 512 * 0x1ffff00) mod 512 = unat p div 2 ^ 30"
    using assms by (simp only: mod_mult_self2) simp
  ultimately show "pt_index 2 (p + KERNELMEM_ADDR) = unat p div 2 ^ 30"
    unfolding pt_index_nat u by simp
  have "(unat p + 0x1ffff00 * 2 ^ 39) div 2 ^ 21 = unat p div 2 ^ 21 + 512 * (0x1ffff00 * 512)"
    using div_mult_self1 [of "2 ^ 21 :: nat" "unat p" "0x1ffff00 * 512 * 512"] by simp
  then have "(unat p + 0x1ffff00 * 2 ^ 39) div 2 ^ 21 mod 512 = unat p div 2 ^ 21 mod 512"
    by (simp only: mod_mult_self2)
  then show "pt_index 1 (p + KERNELMEM_ADDR) = pages p mod 512"
    unfolding pt_index_nat u by simp
  show "unat (p + KERNELMEM_ADDR) mod 2 ^ 21 = unat p mod 2 ^ 21"
    unfolding u using mod_mult_self1 [of "unat p" "0x1ffff00 * 2 ^ 18" "2 ^ 21"] by simp
qed

lemma image_index:
  assumes "unat p < 1016 * 2 ^ 21"
  shows "pt_index 3 (p + VIRT_ADDR) = 511" "510 \<le> pt_index 2 (p + VIRT_ADDR)"
    "512 * (pt_index 2 (p + VIRT_ADDR) - 510) + pt_index 1 (p + VIRT_ADDR) = 8 + pages p"
    "unat (p + VIRT_ADDR) mod 2 ^ 21 = unat p mod 2 ^ 21"
proof -
  define q where "q = unat p + 8 * 2 ^ 21"
  have q: "q < 2 ^ 31" "q div 2 ^ 21 = 8 + pages p" "q mod 2 ^ 21 = unat p mod 2 ^ 21"
    using assms mod_mult_self1 [of "unat p" 8 "2 ^ 21"] by (simp_all add: q_def)
  have u: "unat (p + VIRT_ADDR) = q + 0x3fffffffe * 2 ^ 30"
    using assms by (subst unat_add_small) (simp_all add: VIRT_ADDR_def q_def)
  have "(q + 0x3fffffffe * 2 ^ 30) div 2 ^ 30 = q div 2 ^ 30 + 0x3fffffffe"
    by (subst div_mult_self1) simp_all
  moreover have b: "q div 2 ^ 30 < 2"
    using q(1) by simp
  moreover have "(q div 2 ^ 30 + 0x3fffffffe) mod 512 = q div 2 ^ 30 + 510"
  proof -
    have "q div 2 ^ 30 + 0x3fffffffe = q div 2 ^ 30 + 510 + 512 * 33554431"
      by simp
    then show ?thesis
      using b by (simp only: mod_mult_self2) simp
  qed
  ultimately have i2: "pt_index 2 (p + VIRT_ADDR) = q div 2 ^ 30 + 510"
    unfolding pt_index_nat u by simp
  have "(q + 0x3fffffffe * 2 ^ 30) div 2 ^ 39 = (q div 2 ^ 30 + 0x3fffffffe) div 512"
    using div_mult2_eq [of "q + 0x3fffffffe * 2 ^ 30" "2 ^ 30" 512] div_mult_self1 [of "2 ^ 30 :: nat" q "0x3fffffffe"] by simp
  also have "\<dots> = 33554431"
    using b by simp
  finally show "pt_index 3 (p + VIRT_ADDR) = 511"
    unfolding pt_index_nat u by simp
  have "(q + 0x3fffffffe * 2 ^ 30) div 2 ^ 21 mod 512 = q div 2 ^ 21 mod 512"
  proof -
    have "(q + 0x3fffffffe * 2 ^ 30) div 2 ^ 21 = q div 2 ^ 21 + 512 * 0x3fffffffe"
      using div_mult_self1 [of "2 ^ 21 :: nat" q "512 * 0x3fffffffe"] by simp
    then show ?thesis
      by (simp only: mod_mult_self2)
  qed
  then have i1: "pt_index 1 (p + VIRT_ADDR) = q div 2 ^ 21 mod 512"
    unfolding pt_index_nat u by simp
  have "q div 2 ^ 30 = q div 2 ^ 21 div 512"
    using div_mult2_eq [of q "2 ^ 21" 512] by simp
  then show "512 * (pt_index 2 (p + VIRT_ADDR) - 510) + pt_index 1 (p + VIRT_ADDR) = 8 + pages p"
    unfolding i1 i2 using mult_div_mod_eq [of 512 "q div 2 ^ 21"] q(2) by simp
  show "510 \<le> pt_index 2 (p + VIRT_ADDR)"
    by (simp add: i2)
  show "unat (p + VIRT_ADDR) mod 2 ^ 21 = unat p mod 2 ^ 21"
    unfolding u using mod_mult_self1 [of q "0x3fffffffe * 2 ^ 9" "2 ^ 21"] q(3) by simp
qed

text \<open>
  C14. The boot page tables implement the address arithmetic of \<^verbatim>\<open>PhysPtr\<close>. After
  \<^verbatim>\<open>initKernelSpaceCommon\<close> returned, the processor translates the logical address of every physical address
  below 4 GiB back to that physical address, and every image address from the load address to the
  end of the image to the physical address \<^verbatim>\<open>fromImage\<close> computes. Both windows are closed for user mode,
  and both are writable exactly outside the kernel code.
\<close>

theorem kernel_space_correct:
  assumes "kernel_tables loc kern_roend kern_end bt" "symbols_ok loc bt" "loaded mem loc bt"
  shows "(\<forall>p v. physPtr_logint p = Some v \<longrightarrow> pt_walk mem 3 (loadKernelSpace loc) v =
      Some \<lparr>tr_phys = p, tr_write = (\<not> (LOAD_ADDR \<le> p \<and> p < kern_roend)), tr_user = False\<rparr>) \<and>
    (\<forall>p v. physPtr_fromImage kern_end v = Some p \<and> LOAD_ADDR \<le> p \<longrightarrow> pt_walk mem 3 (loadKernelSpace loc) v =
      Some \<lparr>tr_phys = p, tr_write = (kern_roend \<le> p), tr_user = False\<rparr>)"
proof -
  note walk = kernel_space_walk [OF assms(2,3) kernel_tables_shape(1) [OF assms(1)]] kernel_space_final [OF assms(1)]
  have lay: "image_layout kern_roend kern_end"
    using assms(1) by (simp add: kernel_tables_def)
  note d = image_layoutD [OF lay]
  have page: "page_at (pages p) va w = \<lparr>tr_phys = p, tr_write = w, tr_user = False\<rparr>"
    if "unat va mod 2 ^ 21 = unat p mod 2 ^ 21" "unat p < 2 ^ 32" for p va w
  proof -
    have "pages p < 2048"
      using that(2) by simp
    then have "unat (tr_phys (page_at (pages p) va w)) = pages p * 2 ^ 21 + unat p mod 2 ^ 21"
      using that(1) unat_page_at by simp
    then have "tr_phys (page_at (pages p) va w) = p"
      by (simp only: div_mult_mod_eq word_unat_eq_iff)
    then show ?thesis
      by (simp add: page_at_def)
  qed
  have code: "LOAD_ADDR \<le> p \<longleftrightarrow> 1 \<le> pages p" "p < kern_roend \<longleftrightarrow> pages p < pages kern_roend"
    "p < kern_end \<longleftrightarrow> pages p < pages kern_end" for p
    using d(4,5) by (simp_all add: word_le_nat_alt word_less_nat_alt LOAD_ADDR_def less_eq_div_iff_mult_less_eq div_less_iff_less_mult)
  have "pt_walk mem 3 (loadKernelSpace loc) v =
      Some \<lparr>tr_phys = p, tr_write = (\<not> (LOAD_ADDR \<le> p \<and> p < kern_roend)), tr_user = False\<rparr>"
    if "physPtr_logint p = Some v" for p v
  proof -
    have p: "unat p < 2 ^ 32" and v: "v = p + KERNELMEM_ADDR"
      using that by (auto simp: physPtr_logint_def physPtr_kernelmem_def KERNELMEM_SIZE_def word_less_nat_alt)
    have "unat p div 2 ^ 30 < 4" "512 * (unat p div 2 ^ 30) + pages p mod 512 = pages p"
      using p div_mult2_eq [of "unat p" "2 ^ 21" 512] by simp_all
    then show ?thesis
      unfolding walk v using page [OF direct_index(5) [OF p] p] direct_index(2-4) [OF p] by (simp add: code Let_def)
  qed
  moreover have "pt_walk mem 3 (loadKernelSpace loc) v = Some \<lparr>tr_phys = p, tr_write = (kern_roend \<le> p), tr_user = False\<rparr>"
    if "physPtr_fromImage kern_end v = Some p" "LOAD_ADDR \<le> p" for p v
  proof -
    have v: "v = p + VIRT_ADDR" and "VIRT_ADDR \<le> v" "v < VIRT_ADDR + kern_end" "p = v - VIRT_ADDR"
      using that by (auto simp: physPtr_fromImage_def isImageAddress_def)
    moreover have "unat (VIRT_ADDR + kern_end) \<le> unat VIRT_ADDR + unat kern_end"
      by (simp add: unat_word_ariths(1))
    ultimately have "unat p < unat kern_end"
      by (simp add: word_less_nat_alt word_le_nat_alt unat_sub_small)
    then have p: "unat p < 1016 * 2 ^ 21" "p < kern_end"
      using d(3,5) by (simp_all add: word_less_nat_alt)
    have "1 \<le> pages p" "pages p < pages kern_end"
      using that(2) p(2) code by blast+
    then show ?thesis
      unfolding walk v using page [OF image_index(4) [OF p(1)]] image_index(1-3) [OF p(1)] p(1)
      by (simp add: code(2) linorder_not_less [symmetric] Let_def)
  qed
  ultimately show ?thesis
    by blast
qed

lemma va_parts: "unat va = ((unat va div 2 ^ 39 * 512 + pt_index 2 va) * 512 + pt_index 1 va) * 2 ^ 21 + unat va mod 2 ^ 21"
proof -
  have "unat va div 2 ^ 39 = unat va div 2 ^ 30 div 512" "unat va div 2 ^ 30 = unat va div 2 ^ 21 div 512"
    using div_mult2_eq [of "unat va" "2 ^ 30" 512] div_mult2_eq [of "unat va" "2 ^ 21" 512] by simp_all
  then show ?thesis
    using div_mult_mod_eq [of "unat va" "2 ^ 21"] div_mult_mod_eq [of "unat va div 2 ^ 21" 512]
      div_mult_mod_eq [of "unat va div 2 ^ 30" 512] by (simp add: pt_index_nat)
qed

text \<open>Canonical addresses are sign extended from bit 47.\<close>

definition sign_extended :: "u64 \<Rightarrow> bool" where
  "sign_extended va \<longleftrightarrow> unat va < 2 ^ 47 \<or> 2 ^ 64 - 2 ^ 47 \<le> unat va"

lemma upper_half:
  assumes "sign_extended va" "256 \<le> pt_index 3 va"
  shows "unat va div 2 ^ 39 = 0x1fffe00 + pt_index 3 va"
proof -
  let ?q = "unat va div 2 ^ 39"
  have "?q < 2 ^ 25"
    using unat_u64_less [of va] by simp
  moreover have "2 ^ 64 - 2 ^ 47 \<le> unat va"
  proof (rule ccontr)
    assume "\<not> 2 ^ 64 - 2 ^ 47 \<le> unat va"
    then have "?q < 256"
      using assms(1) by (simp add: sign_extended_def)
    then show False
      using assms(2) by (simp add: pt_index_nat)
  qed
  then have "0x1ffff00 \<le> ?q"
    using div_le_mono [of "2 ^ 64 - 2 ^ 47" "unat va" "2 ^ 39"] by simp
  ultimately have "(?q - 0x1fffe00 + 512 * 0xffff) mod 512 = ?q - 0x1fffe00"
    by (simp only: mod_mult_self2) simp
  moreover have "?q - 0x1fffe00 + 512 * 0xffff = ?q"
    using \<open>0x1ffff00 \<le> ?q\<close> by simp
  ultimately show ?thesis
    using \<open>0x1ffff00 \<le> ?q\<close> by (simp add: pt_index_nat)
qed

text \<open>
  C15. Protection of the kernel. Whatever virtual address the processor translates through the final
  kernel space: user mode has no access to it, the kernel code from the load address to the end of
  the read-only part is not writable, and a sign-extended address that is translated at all lies in
  the direct mapped area or in the kernel image. In particular the lower half is empty.
\<close>

theorem kernel_code_protected:
  assumes "kernel_tables loc kern_roend kern_end bt" "symbols_ok loc bt" "loaded mem loc bt"
    and "pt_walk mem 3 (loadKernelSpace loc) va = Some t"
  shows "\<not> tr_user t \<and> (LOAD_ADDR \<le> tr_phys t \<and> tr_phys t < kern_roend \<longrightarrow> \<not> tr_write t) \<and>
    (sign_extended va \<longrightarrow> isKernelAddress va \<or> VIRT_ADDR \<le> va \<and> unat va < unat VIRT_ADDR + unat kern_end)"
proof -
  let ?i = "512 * pt_index 2 va + pt_index 1 va" and ?j = "512 * (pt_index 2 va - 510) + pt_index 1 va"
  have lay: "image_layout kern_roend kern_end"
    using assms(1) by (simp add: kernel_tables_def)
  note d = image_layoutD [OF lay]
  have less: "pt_index 2 va < 512" "pt_index 1 va < 512" "unat va mod 2 ^ 21 < 2 ^ 21"
    by simp_all
  have less': "pt_index (Suc 0) va < 512" "unat va mod 2097152 < 2097152"
    by simp_all
  have code: "LOAD_ADDR \<le> p \<longleftrightarrow> 1 \<le> pages p" "p < kern_roend \<longleftrightarrow> pages p < pages kern_roend" for p
    using d(4,5) by (simp_all add: word_le_nat_alt word_less_nat_alt LOAD_ADDR_def less_eq_div_iff_mult_less_eq div_less_iff_less_mult)
  have page: "pages (tr_phys (page_at i va w)) = i" if "i < 2048" for i w
    using unat_page_at [OF that, of va w] by simp
  have "kernel_space bt va = Some t"
    using assms(4) kernel_space_walk [OF assms(2,3) kernel_tables_shape(1) [OF assms(1)]] by simp
  then consider
    (direct) "pt_index 3 va = 256" "pt_index 2 va < 4" "t = page_at ?i va (\<not> (1 \<le> ?i \<and> ?i < pages kern_roend))"
  | (image) "pt_index 3 va = 511" "510 \<le> pt_index 2 va" "9 \<le> ?j" "?j < 8 + pages kern_end"
      "t = page_at (?j - 8) va (8 + pages kern_roend \<le> ?j)"
    unfolding kernel_space_final [OF assms(1)] Let_def by (auto split: if_splits)
  then show ?thesis
  proof cases
    case direct
    have "?i < 2048"
      using direct(2) less by linarith
    moreover have "isKernelAddress va" if "sign_extended va"
      using va_parts [of va] upper_half [OF that] direct(1,2) less
      by (simp add: isKernelAddress_def word_le_nat_alt word_less_nat_alt KERNELMEM_ADDR_def KERNELMEM_SIZE_def)
        (use less' in linarith)
    moreover have "\<not> tr_user t" "tr_write t \<longleftrightarrow> \<not> (1 \<le> ?i \<and> ?i < pages kern_roend)"
      using direct(3) by (simp_all add: page_at_def)
    ultimately show ?thesis
      using page [of ?i] direct(3) by (auto simp: code simp del: of_nat_add)
  next
    case image
    have "?j - 8 < 2048"
      using less by linarith
    moreover have "VIRT_ADDR \<le> va \<and> unat va < unat VIRT_ADDR + unat kern_end" if "sign_extended va"
      using va_parts [of va] upper_half [OF that] image(1-4) less d(5)
      by (simp add: word_le_nat_alt VIRT_ADDR_def) (use less' in linarith)
    moreover have "\<not> tr_user t" "tr_write t \<longleftrightarrow> \<not> ?j - 8 < pages kern_roend"
      using image(3,5) by (auto simp: page_at_def)
    ultimately show ?thesis
      using page [of "?j - 8"] image(5) by (auto simp: code)
  qed
qed

section \<open>Devices and kernel stacks\<close>

lemma device_index:
  assumes "unat x < 1536 * 2 ^ 12"
  shows "unat (DEVICES_ADDR + x) = (0x1ffff00 * 512 + 4) * 2 ^ 30 + unat x" "pt_index 3 (DEVICES_ADDR + x) = 256"
    "pt_index 2 (DEVICES_ADDR + x) = 4" "pt_index 1 (DEVICES_ADDR + x) < 3"
    "512 * pt_index 1 (DEVICES_ADDR + x) + pt_index 0 (DEVICES_ADDR + x) = unat x div 2 ^ 12"
    "take_bit 12 (DEVICES_ADDR + x) = take_bit 12 x"
proof -
  show u: "unat (DEVICES_ADDR + x) = (0x1ffff00 * 512 + 4) * 2 ^ 30 + unat x"
    using assms by (subst unat_add_small) (simp_all add: DEVICES_ADDR_def)
  have "((0x1ffff00 * 512 + 4) * 2 ^ 30 + unat x) div 2 ^ 30 = 0x1ffff00 * 512 + 4"
    using assms div_mult_self3 [of "2 ^ 30 :: nat" "0x1ffff00 * 512 + 4" "unat x"] by simp
  then show "pt_index 3 (DEVICES_ADDR + x) = 256" "pt_index 2 (DEVICES_ADDR + x) = 4"
    using div_mult2_eq [of "unat (DEVICES_ADDR + x)" "2 ^ 30" 512] unfolding pt_index_nat u by simp_all
  have "((0x1ffff00 * 512 + 4) * 2 ^ 30 + unat x) div 2 ^ 21 = 512 * (0x1ffff00 * 512 + 4) + unat x div 2 ^ 21"
    using div_mult_self3 [of "2 ^ 21 :: nat" "512 * (0x1ffff00 * 512 + 4)" "unat x"] by simp
  moreover have c: "unat x div 2 ^ 21 < 3"
    using assms by simp
  moreover have "(512 * (0x1ffff00 * 512 + 4) + unat x div 2 ^ 21) mod 512 = unat x div 2 ^ 21"
    using c by (simp only: mod_mult_self4) simp
  ultimately have i1: "pt_index 1 (DEVICES_ADDR + x) = unat x div 2 ^ 21"
    unfolding pt_index_nat u by simp
  then show "pt_index 1 (DEVICES_ADDR + x) < 3"
    using c by simp
  have "((0x1ffff00 * 512 + 4) * 2 ^ 30 + unat x) div 2 ^ 12 = 512 * (512 * (0x1ffff00 * 512 + 4)) + unat x div 2 ^ 12"
    using div_mult_self3 [of "2 ^ 12 :: nat" "512 * (512 * (0x1ffff00 * 512 + 4))" "unat x"] by simp
  then have "((0x1ffff00 * 512 + 4) * 2 ^ 30 + unat x) div 2 ^ 12 mod 512 = unat x div 2 ^ 12 mod 512"
    by (simp only: mod_mult_self4)
  then have i0: "pt_index 0 (DEVICES_ADDR + x) = unat x div 2 ^ 12 mod 512"
    unfolding pt_index_nat u by simp
  show "512 * pt_index 1 (DEVICES_ADDR + x) + pt_index 0 (DEVICES_ADDR + x) = unat x div 2 ^ 12"
    unfolding i0 i1 using div_mult2_eq [of "unat x" "2 ^ 12" 512] mult_div_mod_eq [of 512 "unat x div 2 ^ 12"] by simp
  have "((0x1ffff00 * 512 + 4) * 2 ^ 30 + unat x) mod 2 ^ 12 = unat x mod 2 ^ 12"
    using mod_mult_self3 [of "(0x1ffff00 * 512 + 4) * 2 ^ 18" "2 ^ 12" "unat x"] by simp
  then show "take_bit 12 (DEVICES_ADDR + x) = take_bit 12 x"
    by (simp only: word_unat_eq_iff unsigned_take_bit_eq take_bit_nat_def u)
qed

lemma kernel_space_device:
  "unat x < 1536 * 2 ^ 12 \<Longrightarrow>
     kernel_space bt (DEVICES_ADDR + x) = leaf 12 (bt_devices_pml1 bt ! (unat x div 2 ^ 12)) (DEVICES_ADDR + x)"
  using device_index [of x] by (simp add: kernel_space_def)

text \<open>The entry of a device or stack page.\<close>

lemma leaf_frame:
  assumes "unat f < 2 ^ 12" "bit f 0" "bit f 1" "\<not> bit f 2" "2 ^ 12 dvd unat p" "unat p < 2 ^ 51"
  shows "leaf 12 (f + p) va = Some \<lparr>tr_phys = p + take_bit 12 va, tr_write = True, tr_user = False\<rparr>"
proof -
  have "frame_addr 12 (f + p) = p"
    using assms by (intro frame_addr_add) auto
  moreover have "bit (f + p) j \<longleftrightarrow> bit f j" if "j < 12" for j
    using assms that by (intro bit_add_frame [of 12]) auto
  ultimately show ?thesis
    using assms by (simp add: leaf_def)
qed

lemma device_flags: "unat (CD + PRESENT + WRITE + ACCESSED + DIRTY + GLOBAL) < 2 ^ 12"
   "bit (CD + PRESENT + WRITE + ACCESSED + DIRTY + GLOBAL) 0" "bit (CD + PRESENT + WRITE + ACCESSED + DIRTY + GLOBAL) 1"
   "\<not> bit (CD + PRESENT + WRITE + ACCESSED + DIRTY + GLOBAL) 2"
  by (simp_all add: flag_defs bit_iff_odd)

lemma stack_flags: "unat (PRESENT + WRITE + ACCESSED + DIRTY + GLOBAL) < 2 ^ 12"
   "bit (PRESENT + WRITE + ACCESSED + DIRTY + GLOBAL) 0" "bit (PRESENT + WRITE + ACCESSED + DIRTY + GLOBAL) 1"
   "\<not> bit (PRESENT + WRITE + ACCESSED + DIRTY + GLOBAL) 2"
  by (simp_all add: flag_defs bit_iff_odd)

lemma device_page:
  assumes "k < 1536" "unat off < 2 ^ 12" "bt_devices_pml1 bt ! k = f + p" "2 ^ 12 dvd unat p" "unat p < 2 ^ 51"
    and "unat f < 2 ^ 12" "bit f 0" "bit f 1" "\<not> bit f 2"
  shows "kernel_space bt (DEVICES_ADDR + (word_of_nat (4096 * k) + off)) =
    Some \<lparr>tr_phys = p + off, tr_write = True, tr_user = False\<rparr>"
proof -
  let ?x = "word_of_nat (4096 * k) + off"
  have "unat (word_of_nat (4096 * k) :: u64) = 4096 * k"
    using assms(1) by (simp only: unsigned_of_nat take_bit_nat_def) simp
  then have x: "unat ?x = 4096 * k + unat off"
    using assms(1,2) by (subst unat_add_small) simp_all
  then have "unat ?x < 1536 * 2 ^ 12" "unat ?x div 2 ^ 12 = k"
    using assms(1,2) by simp_all
  moreover have "take_bit 12 ?x = off"
    using x assms(2) by (simp only: word_unat_eq_iff unsigned_take_bit_eq take_bit_nat_def) simp
  ultimately show ?thesis
    using kernel_space_device [of ?x bt] device_index(6) [of ?x] assms(3) leaf_frame [OF assms(6-9,4,5)] by simp
qed

text \<open>The registers of the interrupt controllers appear at their fixed addresses.\<close>

lemma mapLapic_correct:
  assumes "shape loc bt" "2 ^ 12 dvd unat phys" "unat phys < 2 ^ 51" "unat off < 2 ^ 12"
  shows "\<exists>bt'. mapLapic phys bt = Some bt' \<and> shape loc bt' \<and>
    kernel_space bt' (LAPIC_ADDR + off) = Some \<lparr>tr_phys = phys + off, tr_write = True, tr_user = False\<rparr>"
proof -
  let ?e = "CD + PRESENT + WRITE + ACCESSED + DIRTY + GLOBAL + phys"
  have "mapLapic phys bt = Some (bt\<lparr>bt_devices_pml1 := (bt_devices_pml1 bt)[1 := ?e]\<rparr>)"
    "shape loc (bt\<lparr>bt_devices_pml1 := (bt_devices_pml1 bt)[1 := ?e]\<rparr>)" "length (bt_devices_pml1 bt) = 1536"
    using assms(1) by (simp_all add: mapLapic_def put_entry_def shape_def)
  moreover have "LAPIC_ADDR + off = DEVICES_ADDR + (word_of_nat (4096 * 1) + off)"
    by (simp add: LAPIC_ADDR_def DEVICES_ADDR_def)
  ultimately show ?thesis
    unfolding \<open>LAPIC_ADDR + off = _\<close> using device_page [OF _ assms(4) _ assms(2,3) device_flags, of 1 "bt\<lparr>bt_devices_pml1 := (bt_devices_pml1 bt)[1 := ?e]\<rparr>"] by simp
qed

lemma mapIOApic_correct:
  assumes "shape loc bt" "2 ^ 12 dvd unat phys" "unat phys < 2 ^ 51" "unat off < 2 ^ 12"
  shows "\<exists>bt'. mapIOApic phys bt = Some bt' \<and> shape loc bt' \<and>
    kernel_space bt' (IOAPIC_ADDR + off) = Some \<lparr>tr_phys = phys + off, tr_write = True, tr_user = False\<rparr>"
proof -
  let ?e = "CD + PRESENT + WRITE + ACCESSED + DIRTY + GLOBAL + phys"
  have "mapIOApic phys bt = Some (bt\<lparr>bt_devices_pml1 := (bt_devices_pml1 bt)[2 := ?e]\<rparr>)"
    "shape loc (bt\<lparr>bt_devices_pml1 := (bt_devices_pml1 bt)[2 := ?e]\<rparr>)" "length (bt_devices_pml1 bt) = 1536"
    using assms(1) by (simp_all add: mapIOApic_def put_entry_def shape_def)
  moreover have "IOAPIC_ADDR + off = DEVICES_ADDR + (word_of_nat (4096 * 2) + off)"
    by (simp add: IOAPIC_ADDR_def DEVICES_ADDR_def)
  ultimately show ?thesis
    unfolding \<open>IOAPIC_ADDR + off = _\<close> using device_page [OF _ assms(4) _ assms(2,3) device_flags, of 2 "bt\<lparr>bt_devices_pml1 := (bt_devices_pml1 bt)[2 := ?e]\<rparr>"] by simp
qed


text \<open>
  The reserved stack is two frames large, but its second frame is never mapped: the two stack pages
  are one page seen twice.
\<close>

lemma kernel_stack_aliases:
  assumes "shape loc bt" "idx < MYTHOS_MAX_THREADS" "2 ^ 12 dvd unat paddr" "unat paddr < 2 ^ 51"
    and "initKernelStack idx paddr bt = Some (top, bt')" "unat off < 2 ^ 12"
  shows "kernel_space bt' (top - CORE_STACK_SIZE + off) = kernel_space bt' (top - 4096 + off)"
proof -
  let ?e = "PRESENT + WRITE + ACCESSED + DIRTY + GLOBAL + paddr"
  have idx: "512 + 3 * idx + 2 < 1536"
    using assms(2) by (simp add: MYTHOS_MAX_THREADS_def)
  have bt': "top = KERNELSTACKS_ADDR + 4096 * (3 * word_of_nat idx + 3)" "length (bt_devices_pml1 bt) = 1536"
    "bt' = bt\<lparr>bt_devices_pml1 := (bt_devices_pml1 bt)[512 + 3 * idx + 1 := ?e, 512 + 3 * idx + 2 := ?e]\<rparr>"
    using assms(1,5) idx by (auto simp: initKernelStack_def put_entry_def shape_def)
  have a: "top - CORE_STACK_SIZE + off = DEVICES_ADDR + (word_of_nat (4096 * (512 + 3 * idx + 1)) + off)"
    "top - 4096 + off = DEVICES_ADDR + (word_of_nat (4096 * (512 + 3 * idx + 2)) + off)"
    by (simp_all add: bt'(1) KERNELSTACKS_ADDR_def DEVICES_ADDR_def CORE_STACK_SIZE_def)
  have "kernel_space bt' (top - CORE_STACK_SIZE + off) = Some \<lparr>tr_phys = paddr + off, tr_write = True, tr_user = False\<rparr>"
    unfolding a by (rule device_page [OF _ assms(6) _ assms(3,4) stack_flags]) (use idx bt' in simp_all)
  moreover have "kernel_space bt' (top - 4096 + off) = Some \<lparr>tr_phys = paddr + off, tr_write = True, tr_user = False\<rparr>"
    unfolding a by (rule device_page [OF _ assms(6) _ assms(3,4) stack_flags]) (use idx bt' in simp_all)
  ultimately show ?thesis
    by simp
qed

text \<open>The check that user supplied segment bases are canonical leaves out bit 47.\<close>

lemma canonical_ignores_bit_47: "physPtr_canonical 0x0000800000000000" "\<not> sign_extended 0x0000800000000000"
  by (simp_all add: physPtr_canonical_def CANONICAL_MASK_def sign_extended_def)

section \<open>An example placement\<close>

fun flat_start :: "boot_table \<Rightarrow> nat" where
  "flat_start Devices_pml1 = 0"
| "flat_start Devices_pml2 = 1536"
| "flat_start Image_pml2 = 2048"
| "flat_start Pml2_tables = 3072"
| "flat_start Pml3_table = 5120"
| "flat_start Pml4_table = 6144"

definition flat_loc :: symbols where
  "flat_loc t = VIRT_ADDR + 0x400000 + 8 * word_of_nat (flat_start t)"

definition flat_mem :: "boot_tables \<Rightarrow> u64 \<Rightarrow> u64" where
  "flat_mem bt a = (bt_devices_pml1 bt @ bt_devices_pml2 bt @ bt_image_pml2 bt @ bt_pml2_tables bt @ bt_pml3_table bt @
     bt_pml4_table bt) ! (unat (a - 0x400000) div 8)"

lemma flat_lengths: "shape loc bt \<Longrightarrow> length (tbl bt t) \<le> 2048 \<and> flat_start t + length (tbl bt t) \<le> 7168"
  by (cases t) (simp_all add: shape_def)

lemma flat_ok:
  assumes "shape loc bt"
  shows "symbols_ok flat_loc bt" "loaded (flat_mem bt) flat_loc bt"
proof -
  have u: "unat (flat_loc t) = unat VIRT_ADDR + 0x400000 + 8 * flat_start t" for t
    by (cases t) (simp_all add: flat_loc_def VIRT_ADDR_def)
  have "4096 dvd unat (flat_loc t)" for t
    unfolding u by (cases t) (simp_all add: VIRT_ADDR_def)
  then show "symbols_ok flat_loc bt"
    unfolding symbols_ok_def
  proof (intro allI conjI)
    fix t
    show "VIRT_ADDR \<le> flat_loc t" "unat (flat_loc t) + 8 * length (tbl bt t) \<le> 2 ^ 64"
      using flat_lengths [OF assms, of t] by (simp_all add: u word_le_nat_alt VIRT_ADDR_def)
  qed
  have "flat_mem bt (table_to_phys_addr (flat_loc t) 0 + 8 * word_of_nat i) = tbl bt t ! i" if "i < length (tbl bt t)" for t i
  proof -
    have "flat_start t + i < 7168"
      using flat_lengths [OF assms, of t] that by linarith
    then have "unat (8 * word_of_nat (flat_start t + i) :: u64) = 8 * (flat_start t + i)"
      by (simp only: unat_word_ariths unsigned_of_nat take_bit_nat_def) simp
    moreover have "table_to_phys_addr (flat_loc t) 0 + 8 * word_of_nat i - 0x400000 = 8 * word_of_nat (flat_start t + i)"
      by (simp add: table_to_phys_addr_def flat_loc_def)
    ultimately show ?thesis
      using that assms by (cases t) (auto simp: flat_mem_def nth_append shape_def)
  qed
  then show "loaded (flat_mem bt) flat_loc bt"
    by (simp add: loaded_def)
qed

lemma example_tables: "\<exists>bt. kernel_tables flat_loc 0x400000 0x800000 bt \<and> symbols_ok flat_loc bt \<and> loaded (flat_mem bt) flat_loc bt"
proof -
  have lay: "image_layout 0x400000 0x800000"
    by (simp add: image_layout_def LOAD_ADDR_def word_le_nat_alt)
  then obtain bt where "kernel_tables flat_loc 0x400000 0x800000 bt"
    using initKernelSpaceCommon_eq [OF lay, of flat_loc] by (auto simp: kernel_tables_def)
  then show ?thesis
    using flat_ok [OF kernel_tables_shape(1)] by blast
qed

theorem kernel_space_correct_witness:
  "\<exists>bt. kernel_tables flat_loc 0x400000 0x800000 bt \<and> symbols_ok flat_loc bt \<and> loaded (flat_mem bt) flat_loc bt \<and>
     physPtr_logint 0x345678 = Some 0xffff800000345678 \<and>
     pt_walk (flat_mem bt) 3 (loadKernelSpace flat_loc) 0xffff800000345678 =
       Some \<lparr>tr_phys = 0x345678, tr_write = False, tr_user = False\<rparr> \<and>
     pt_walk (flat_mem bt) 3 (loadKernelSpace flat_loc) 0xffffffff81500000 =
       Some \<lparr>tr_phys = 0x500000, tr_write = True, tr_user = False\<rparr>"
proof -
  obtain bt where bt: "kernel_tables flat_loc 0x400000 0x800000 bt" "symbols_ok flat_loc bt" "loaded (flat_mem bt) flat_loc bt"
    using example_tables by blast
  have a: "physPtr_logint 0x345678 = Some 0xffff800000345678" "physPtr_fromImage 0x800000 0xffffffff81500000 = Some 0x500000"
    by (simp_all add: physPtr_logint_def physPtr_kernelmem_def physPtr_fromImage_def isImageAddress_def layout_defs)
  have "pt_walk (flat_mem bt) 3 (loadKernelSpace flat_loc) 0xffff800000345678 =
       Some \<lparr>tr_phys = 0x345678, tr_write = False, tr_user = False\<rparr>"
    using conjunct1 [OF kernel_space_correct [OF bt], rule_format, OF a(1)] by (simp add: LOAD_ADDR_def)
  moreover have "pt_walk (flat_mem bt) 3 (loadKernelSpace flat_loc) 0xffffffff81500000 =
       Some \<lparr>tr_phys = 0x500000, tr_write = True, tr_user = False\<rparr>"
    using conjunct2 [OF kernel_space_correct [OF bt], rule_format, OF conjI [OF a(2)]] by (simp add: LOAD_ADDR_def)
  ultimately show ?thesis
    using bt a(1) by blast
qed

theorem kernel_code_protected_witness:
  "\<exists>bt t. kernel_tables flat_loc 0x400000 0x800000 bt \<and> symbols_ok flat_loc bt \<and> loaded (flat_mem bt) flat_loc bt \<and>
     pt_walk (flat_mem bt) 3 (loadKernelSpace flat_loc) 0xffff800000200000 = Some t \<and> tr_phys t = 0x200000 \<and>
     \<not> tr_user t \<and> \<not> tr_write t"
proof -
  obtain bt where bt: "kernel_tables flat_loc 0x400000 0x800000 bt" "symbols_ok flat_loc bt" "loaded (flat_mem bt) flat_loc bt"
    using example_tables by blast
  have ix: "pt_index 3 0xffff800000200000 = 256" "pt_index 2 0xffff800000200000 = 0" "pt_index 1 0xffff800000200000 = 1"
    by (simp_all add: pt_index_nat)
  obtain t where t: "pt_walk (flat_mem bt) 3 (loadKernelSpace flat_loc) 0xffff800000200000 = Some t" "tr_phys t = 0x200000"
    using kernel_space_walk [OF bt(2,3) kernel_tables_shape(1) [OF bt(1)]] kernel_space_final [OF bt(1), of "0xffff800000200000"] ix
    by (simp add: page_at_def PML2_PAGESIZE_def)
  then show ?thesis
    using bt kernel_code_protected [OF bt t(1)] by (auto simp: LOAD_ADDR_def)
qed


end
