(* ===== verification/Tasklet_Race.thy ===== *)
theory Tasklet_Race
  imports Tasklet_Queue
begin

text \<open>
  The task queue of \<^verbatim>\<open>TaskletQueue.hh\<close> under concurrency. Every shared memory access of \<^verbatim>\<open>push\<close>,
  \<^verbatim>\<open>pull\<close>, \<^verbatim>\<open>pushPrivate\<close>, \<^verbatim>\<open>tryAcquire\<close> and \<^verbatim>\<open>tryRelease\<close> is one step, and the steps of any number of pushing threads
  interleave with those of the owner. A push has three accesses: it marks its task as incomplete,
  exchanges the shared tail, and stores the old tail in its task. Accesses to the private tail and to
  tasks that only the owner can reach are not separated.

  A ghost history records the operations in the order in which they take effect: a push with the exchange of
  the shared tail, a pull with the access that decides its result.
\<close>

section \<open>The sequential queue\<close>

text \<open>
  What a history means: a list of tasks, pushed at the end by \<^verbatim>\<open>push\<close> and at the front by \<^verbatim>\<open>pushPrivate\<close>,
  and pulled from the front. A history is legal when each pull returned the first task, or nothing from
  an empty list.
\<close>

datatype queue_event = Pushed u64 | PushedPrivate u64 | Pulled u64 | PulledNothing

fun queue_event_step :: "queue_event \<Rightarrow> u64 list \<Rightarrow> u64 list option" where
  "queue_event_step (Pushed t) ts = Some (ts @ [t])"
| "queue_event_step (PushedPrivate t) ts = Some (t # ts)"
| "queue_event_step (Pulled t) (u # ts) = (if t = u then Some ts else None)"
| "queue_event_step (Pulled t) [] = None"
| "queue_event_step PulledNothing ts = (if ts = [] then Some [] else None)"

primrec queue_run :: "queue_event list \<Rightarrow> u64 list \<Rightarrow> u64 list option" where
  "queue_run [] ts = Some ts"
| "queue_run (ev # evs) ts = Option.bind (queue_event_step ev ts) (queue_run evs)"

lemma queue_run_snoc [simp]: "queue_run (evs @ [ev]) ts = Option.bind (queue_run evs ts) (queue_event_step ev)"
  by (induction evs arbitrary: ts) (simp_all split: bind_split)

section \<open>The state\<close>

datatype push_pc = Idle | Marked | Swapped u64

datatype owner_pc = Nobody | Claimed u64 | Owner | Walking u64

record cq =
  cq_q :: tq
  cq_pc :: "u64 \<Rightarrow> push_pc"
  cq_owner :: owner_pc
  cq_hist :: "queue_event list"

abbreviation nxt :: "cq \<Rightarrow> nexts" where
  "nxt s \<equiv> tq_next (cq_q s)"

section \<open>Steps\<close>

definition push_mark :: "u64 \<Rightarrow> cq \<Rightarrow> cq" where
  "push_mark t s = s\<lparr>cq_q := set_next t CH_INCOMPLETE (cq_q s), cq_pc := (cq_pc s)(t := Marked)\<rparr>"

definition push_swap :: "u64 \<Rightarrow> cq \<Rightarrow> cq" where
  "push_swap t s =
     (let old = tq_shared (cq_q s) in
      s\<lparr>cq_q := (cq_q s)\<lparr>tq_shared := t\<rparr>, cq_pc := (cq_pc s)(t := Swapped old),
        cq_owner := (if old = CH_FREE then Claimed t else cq_owner s), cq_hist := cq_hist s @ [Pushed t]\<rparr>)"

definition push_store :: "u64 \<Rightarrow> u64 \<Rightarrow> cq \<Rightarrow> cq" where
  "push_store t old s =
     s\<lparr>cq_q := set_next t old (cq_q s), cq_pc := (cq_pc s)(t := Idle),
       cq_owner := (if old = CH_FREE then Owner else cq_owner s)\<rparr>"

definition pull_private :: "cq \<Rightarrow> cq" where
  "pull_private s =
     (let t = tq_private (cq_q s); q = set_next t CH_INIT (cq_q s) in
      s\<lparr>cq_q := q\<lparr>tq_private := nxt s t\<rparr>, cq_hist := cq_hist s @ [Pulled t]\<rparr>)"

definition pull_detach :: "cq \<Rightarrow> cq" where
  "pull_detach s =
     (let old = tq_shared (cq_q s) in
      s\<lparr>cq_q := (cq_q s)\<lparr>tq_shared := CH_LOCKED\<rparr>,
        cq_owner := (if old = CH_FREE \<or> old = CH_LOCKED then Owner else Walking old),
        cq_hist := (if old = CH_FREE \<or> old = CH_LOCKED then cq_hist s @ [PulledNothing] else cq_hist s)\<rparr>)"

definition walk_step :: "u64 \<Rightarrow> cq \<Rightarrow> cq" where
  "walk_step t s =
     (let n = nxt s t; q = set_next t CH_INCOMPLETE (cq_q s) in
      if n = CH_INCOMPLETE then s\<lparr>cq_q := q\<rparr>
      else if n = CH_FREE \<or> n = CH_LOCKED
      then s\<lparr>cq_q := set_next t CH_INIT q, cq_owner := Owner, cq_hist := cq_hist s @ [Pulled t]\<rparr>
      else s\<lparr>cq_q := set_next t (tq_private q) (q\<lparr>tq_private := t\<rparr>), cq_owner := Walking n\<rparr>)"

inductive cq_step :: "cq \<Rightarrow> cq \<Rightarrow> bool" where
  mark: "is_task t \<Longrightarrow> cq_pc s t = Idle \<Longrightarrow> Chainable_isInit (nxt s) t \<Longrightarrow> cq_step s (push_mark t s)"
| swap: "cq_pc s t = Marked \<Longrightarrow> cq_step s (push_swap t s)"
| store: "cq_pc s t = Swapped old \<Longrightarrow> cq_step s (push_store t old s)"
| acquire: "ChainFIFO_tryAcquire (cq_q s) = (True, q) \<Longrightarrow> cq_step s (s\<lparr>cq_q := q, cq_owner := Owner\<rparr>)"
| private_pull: "cq_owner s = Owner \<Longrightarrow> tq_private (cq_q s) \<noteq> CH_FREE \<Longrightarrow> cq_step s (pull_private s)"
| detach: "cq_owner s = Owner \<Longrightarrow> tq_private (cq_q s) = CH_FREE \<Longrightarrow> cq_step s (pull_detach s)"
| walk: "cq_owner s = Walking t \<Longrightarrow> cq_step s (walk_step t s)"
| release: "cq_owner s = Owner \<Longrightarrow> ChainFIFO_tryRelease (cq_q s) = (True, q) \<Longrightarrow> cq_step s (s\<lparr>cq_q := q, cq_owner := Nobody\<rparr>)"
| private_push: "cq_owner s = Owner \<Longrightarrow> is_task t \<Longrightarrow> cq_pc s t = Idle \<Longrightarrow> ChainFIFO_pushPrivate t (cq_q s) = Some (b, q) \<Longrightarrow>
    cq_step s (s\<lparr>cq_q := q, cq_hist := cq_hist s @ [PushedPrivate t]\<rparr>)"

definition cq_start :: "nexts \<Rightarrow> cq" where
  "cq_start n = \<lparr>cq_q = empty_queue n, cq_pc = (\<lambda>_. Idle), cq_owner = Nobody, cq_hist = []\<rparr>"

inductive cq_reach :: "nexts \<Rightarrow> cq \<Rightarrow> bool" for n where
  start: "cq_reach n (cq_start n)"
| step: "cq_reach n s \<Longrightarrow> cq_step s s' \<Longrightarrow> cq_reach n s'"

inductive_cases cq_stepE: "cq_step s s'"

section \<open>The invariant\<close>

text \<open>The chain as it will be once every exchanged push has stored its old tail.\<close>

definition vnext :: "cq \<Rightarrow> nexts" where
  "vnext s t = (case cq_pc s t of Swapped old \<Rightarrow> old | _ \<Rightarrow> nxt s t)"

definition ends :: "u64 set" where
  "ends = {CH_FREE, CH_LOCKED}"

fun walking :: "owner_pc \<Rightarrow> nexts \<Rightarrow> u64 list \<Rightarrow> bool" where
  "walking (Walking w) n ws \<longleftrightarrow> ws \<noteq> [] \<and> (\<exists>e\<in>ends. chained n w ws e)"
| "walking _ n ws \<longleftrightarrow> ws = []"

definition cq_inv :: "cq \<Rightarrow> u64 list \<Rightarrow> u64 list \<Rightarrow> u64 list \<Rightarrow> bool" where
  "cq_inv s ps ws ss \<longleftrightarrow>
     distinct (ps @ ws @ ss) \<and>
     chained (nxt s) (tq_private (cq_q s)) ps CH_FREE \<and>
     (\<exists>e\<in>ends. chained (vnext s) (tq_shared (cq_q s)) ss e \<and>
        (ss = [] \<longrightarrow> e = (if cq_owner s = Nobody then CH_FREE else CH_LOCKED))) \<and>
     walking (cq_owner s) (vnext s) ws \<and>
     queue_run (cq_hist s) [] = Some (rev ws @ ps @ rev ss) \<and>
     (cq_owner s = Nobody \<longrightarrow> ss = []) \<and>
     (\<forall>t. cq_owner s = Claimed t \<longrightarrow> cq_pc s t = Swapped CH_FREE \<and> ss \<noteq> []) \<and>
     (\<forall>t. cq_pc s t = Swapped CH_FREE \<longrightarrow> cq_owner s = Claimed t) \<and>
     (\<forall>t old. cq_pc s t = Swapped old \<longrightarrow> t \<in> set (ws @ ss) \<and> nxt s t = CH_INCOMPLETE \<and> old \<noteq> CH_INCOMPLETE) \<and>
     (\<forall>t. cq_pc s t = Marked \<longrightarrow> is_task t \<and> t \<notin> set (ps @ ws @ ss) \<and> nxt s t = CH_INCOMPLETE)"

lemma cq_inv_start: "cq_inv (cq_start n) [] [] []"
  by (simp add: cq_inv_def cq_start_def empty_queue_def ends_def)

lemma chained_first: "chained n p ts e \<Longrightarrow> e \<in> ends \<Longrightarrow> p \<in> ends \<longleftrightarrow> ts = []"
  by (cases ts) (auto simp: ends_def dest: is_task_neq)

lemma chained_first_task: "chained n p ts e \<Longrightarrow> p = e \<or> is_task p"
  by (cases ts) auto

lemma cq_invD:
  assumes "cq_inv s ps ws ss"
  shows "distinct (ps @ ws @ ss)" "chained (nxt s) (tq_private (cq_q s)) ps CH_FREE" "walking (cq_owner s) (vnext s) ws"
    "queue_run (cq_hist s) [] = Some (rev ws @ ps @ rev ss)" "cq_owner s = Nobody \<Longrightarrow> ss = []"
    "cq_owner s = Claimed t \<Longrightarrow> cq_pc s t = Swapped CH_FREE \<and> ss \<noteq> []"
    "cq_pc s t = Swapped CH_FREE \<Longrightarrow> cq_owner s = Claimed t"
    "cq_pc s t = Swapped old \<Longrightarrow> t \<in> set (ws @ ss) \<and> nxt s t = CH_INCOMPLETE \<and> old \<noteq> CH_INCOMPLETE"
    "cq_pc s t = Marked \<Longrightarrow> is_task t \<and> t \<notin> set (ps @ ws @ ss) \<and> nxt s t = CH_INCOMPLETE"
  using assms unfolding cq_inv_def by blast+

lemma cq_inv_shared:
  assumes "cq_inv s ps ws ss"
  obtains e where "e \<in> ends" "chained (vnext s) (tq_shared (cq_q s)) ss e"
    "ss = [] \<longrightarrow> e = (if cq_owner s = Nobody then CH_FREE else CH_LOCKED)"
  using assms unfolding cq_inv_def by blast

lemma ch_distinct: "CH_FREE \<noteq> CH_LOCKED" "CH_FREE \<noteq> CH_INCOMPLETE" "CH_LOCKED \<noteq> CH_INCOMPLETE"
  by (simp_all add: ch_defs)

lemma shared_free_iff: "cq_inv s ps ws ss \<Longrightarrow> tq_shared (cq_q s) = CH_FREE \<longleftrightarrow> cq_owner s = Nobody"
proof -
  assume inv: "cq_inv s ps ws ss"
  obtain e where e: "e \<in> ends" "chained (vnext s) (tq_shared (cq_q s)) ss e"
    "ss = [] \<longrightarrow> e = (if cq_owner s = Nobody then CH_FREE else CH_LOCKED)"
    using cq_inv_shared [OF inv] .
  show ?thesis
  proof (cases ss)
    case Nil
    then show ?thesis
      using e ch_distinct by simp
  next
    case (Cons t ts)
    then have "is_task (tq_shared (cq_q s))" "cq_owner s \<noteq> Nobody"
      using e(2) cq_invD(5) [OF inv] by auto
    then show ?thesis
      using is_task_neq by blast
  qed
qed

lemma shared_value: "cq_inv s ps ws ss \<Longrightarrow> tq_shared (cq_q s) \<noteq> CH_INCOMPLETE"
proof -
  assume "cq_inv s ps ws ss"
  then obtain e where "e \<in> ends" "chained (vnext s) (tq_shared (cq_q s)) ss e"
    by (rule cq_inv_shared)
  then show ?thesis
    using chained_first_task [of "vnext s" "tq_shared (cq_q s)" ss e] is_task_neq ch_distinct by (auto simp: ends_def)
qed

lemma private_free_iff: "cq_inv s ps ws ss \<Longrightarrow> tq_private (cq_q s) = CH_FREE \<longleftrightarrow> ps = []"
  using cq_invD(2) [of s ps ws ss] by (cases ps) (auto dest: is_task_neq)

lemma private_idle: "cq_inv s ps ws ss \<Longrightarrow> t \<in> set ps \<Longrightarrow> cq_pc s t = Idle"
  using cq_invD(1) [of s ps ws ss] cq_invD(8,9) [of s ps ws ss t] by (cases "cq_pc s t") force+

text \<open>A task that may be pushed is in none of the chains.\<close>

lemma fresh_task:
  assumes inv: "cq_inv s ps ws ss" and t: "cq_pc s t = Idle" "Chainable_isInit (nxt s) t"
  shows "t \<notin> set (ps @ ws @ ss)"
proof -
  have v: "vnext s t = nxt s t"
    using t(1) by (simp add: vnext_def)
  have no: "nxt s t \<notin> ends" "\<not> is_task (nxt s t)"
    using t(2) by (auto simp: Chainable_isInit_def ends_def is_task_def ch_defs)
  have out: "t \<notin> set ts" if "chained (vnext s) p ts e" "e \<in> ends" for p ts e
    using chained_next_in [OF that(1), of t] chained_tasks [OF that(1)] that(2) no v by auto
  have "t \<notin> set ps"
    using chained_next_in [OF cq_invD(2) [OF inv], of t] chained_tasks [OF cq_invD(2) [OF inv]] no
    by (auto simp: ends_def)
  moreover have "t \<notin> set ss"
    using cq_inv_shared [OF inv] out by metis
  moreover have "t \<notin> set ws"
    using cq_invD(3) [OF inv] out by (cases "cq_owner s") auto
  ultimately show ?thesis
    by simp
qed

lemma walking_upd: "t \<notin> set ws \<Longrightarrow> walking w (n(t := v)) ws \<longleftrightarrow> walking w n ws"
  by (cases w) auto

lemma cq_invI:
  assumes "distinct (ps @ ws @ ss)" "chained (nxt s) (tq_private (cq_q s)) ps CH_FREE" "walking (cq_owner s) (vnext s) ws"
    "queue_run (cq_hist s) [] = Some (rev ws @ ps @ rev ss)" "cq_owner s = Nobody \<Longrightarrow> ss = []"
    "\<And>t. cq_owner s = Claimed t \<Longrightarrow> cq_pc s t = Swapped CH_FREE \<and> ss \<noteq> []"
    "\<And>t. cq_pc s t = Swapped CH_FREE \<Longrightarrow> cq_owner s = Claimed t"
    "\<And>t old. cq_pc s t = Swapped old \<Longrightarrow> t \<in> set (ws @ ss) \<and> nxt s t = CH_INCOMPLETE \<and> old \<noteq> CH_INCOMPLETE"
    "\<And>t. cq_pc s t = Marked \<Longrightarrow> is_task t \<and> t \<notin> set (ps @ ws @ ss) \<and> nxt s t = CH_INCOMPLETE"
    and "e \<in> ends" "chained (vnext s) (tq_shared (cq_q s)) ss e"
    "ss = [] \<Longrightarrow> e = (if cq_owner s = Nobody then CH_FREE else CH_LOCKED)"
  shows "cq_inv s ps ws ss"
  unfolding cq_inv_def using assms by blast

lemma mark_inv:
  assumes inv: "cq_inv s ps ws ss" and "is_task t" "cq_pc s t = Idle" "Chainable_isInit (nxt s) t"
  shows "cq_inv (push_mark t s) ps ws ss"
proof -
  note fresh = fresh_task [OF inv assms(3,4)]
  have v: "vnext (push_mark t s) = (vnext s)(t := CH_INCOMPLETE)"
    by (auto simp: vnext_def push_mark_def set_next_def fun_eq_iff split: push_pc.splits)
  have q: "nxt (push_mark t s) = (nxt s)(t := CH_INCOMPLETE)" "tq_private (cq_q (push_mark t s)) = tq_private (cq_q s)"
    "tq_shared (cq_q (push_mark t s)) = tq_shared (cq_q s)" "cq_pc (push_mark t s) = (cq_pc s)(t := Marked)"
    "cq_owner (push_mark t s) = cq_owner s" "cq_hist (push_mark t s) = cq_hist s"
    by (simp_all add: push_mark_def set_next_def)
  obtain e where e: "e \<in> ends" "chained (vnext s) (tq_shared (cq_q s)) ss e"
    "ss = [] \<longrightarrow> e = (if cq_owner s = Nobody then CH_FREE else CH_LOCKED)"
    using cq_inv_shared [OF inv] .
  show ?thesis
  proof (rule cq_invI [where e = e])
    show "cq_pc (push_mark t s) u = Swapped CH_FREE \<Longrightarrow> cq_owner (push_mark t s) = Claimed u" for u
      using cq_invD(7) [OF inv, of u] by (auto simp: q split: if_splits)
    show "cq_owner (push_mark t s) = Claimed u \<Longrightarrow> cq_pc (push_mark t s) u = Swapped CH_FREE \<and> ss \<noteq> []" for u
      using cq_invD(6) [OF inv, of u] assms(3) by (auto simp: q)
    show "cq_pc (push_mark t s) u = Swapped old \<Longrightarrow>
        u \<in> set (ws @ ss) \<and> nxt (push_mark t s) u = CH_INCOMPLETE \<and> old \<noteq> CH_INCOMPLETE" for u old
      using cq_invD(8) [OF inv, of u] by (auto simp: q split: if_splits)
    show "cq_pc (push_mark t s) u = Marked \<Longrightarrow>
        is_task u \<and> u \<notin> set (ps @ ws @ ss) \<and> nxt (push_mark t s) u = CH_INCOMPLETE" for u
      using cq_invD(9) [OF inv, of u] fresh assms(2) by (auto simp: q split: if_splits)
  qed (use cq_invD(1-5) [OF inv] e fresh in \<open>simp_all add: q v walking_upd split: if_splits\<close>)
qed

lemma swap_inv:
  assumes inv: "cq_inv s ps ws ss" and t: "cq_pc s t = Marked"
  shows "cq_inv (push_swap t s) ps ws (t # ss)"
proof -
  let ?old = "tq_shared (cq_q s)"
  have fresh: "t \<notin> set (ps @ ws @ ss)" "is_task t" "nxt s t = CH_INCOMPLETE"
    using cq_invD(9) [OF inv t] by simp_all
  have v: "vnext (push_swap t s) = (vnext s)(t := ?old)"
    by (auto simp: vnext_def push_swap_def Let_def fun_eq_iff split: push_pc.splits)
  have q: "nxt (push_swap t s) = nxt s" "tq_private (cq_q (push_swap t s)) = tq_private (cq_q s)"
    "tq_shared (cq_q (push_swap t s)) = t" "cq_pc (push_swap t s) = (cq_pc s)(t := Swapped ?old)"
    "cq_owner (push_swap t s) = (if cq_owner s = Nobody then Claimed t else cq_owner s)"
    "cq_hist (push_swap t s) = cq_hist s @ [Pushed t]"
    by (simp_all add: push_swap_def Let_def shared_free_iff [OF inv])
  obtain e where e: "e \<in> ends" "chained (vnext s) (tq_shared (cq_q s)) ss e"
    "ss = [] \<longrightarrow> e = (if cq_owner s = Nobody then CH_FREE else CH_LOCKED)"
    using cq_inv_shared [OF inv] .
  have w: "walking (Claimed t) n ws" if "cq_owner s = Nobody" for n
    using cq_invD(3) [OF inv] that by simp
  have old: "?old = CH_FREE \<longleftrightarrow> cq_owner s = Nobody" "?old \<noteq> CH_INCOMPLETE"
    using shared_free_iff [OF inv] shared_value [OF inv] .
  show ?thesis
  proof (rule cq_invI [where e = e])
    show "walking (cq_owner (push_swap t s)) (vnext (push_swap t s)) ws"
      using cq_invD(3) [OF inv] w fresh by (auto simp: q v walking_upd)
    show "cq_pc (push_swap t s) u = Swapped CH_FREE \<Longrightarrow> cq_owner (push_swap t s) = Claimed u" for u
      using cq_invD(7) [OF inv, of u] old by (auto simp: q split: if_splits)
    show "cq_owner (push_swap t s) = Claimed u \<Longrightarrow> cq_pc (push_swap t s) u = Swapped CH_FREE \<and> t # ss \<noteq> []" for u
      using cq_invD(5) [OF inv] cq_invD(6) [OF inv, of u] old t by (auto simp: q split: if_splits)
    show "cq_pc (push_swap t s) u = Swapped old \<Longrightarrow>
        u \<in> set (ws @ t # ss) \<and> nxt (push_swap t s) u = CH_INCOMPLETE \<and> old \<noteq> CH_INCOMPLETE" for u old
      using cq_invD(8) [OF inv, of u] fresh old(2) by (auto simp: q split: if_splits)
    show "cq_pc (push_swap t s) u = Marked \<Longrightarrow>
        is_task u \<and> u \<notin> set (ps @ ws @ t # ss) \<and> nxt (push_swap t s) u = CH_INCOMPLETE" for u
      using cq_invD(9) [OF inv, of u] by (auto simp: q split: if_splits)
  qed (use cq_invD(1-4) [OF inv] e fresh in \<open>simp_all add: q v split: if_splits\<close>)
qed

lemma store_inv:
  assumes inv: "cq_inv s ps ws ss" and t: "cq_pc s t = Swapped old"
  shows "cq_inv (push_store t old s) ps ws ss"
proof -
  have out: "t \<notin> set ps"
    using cq_invD(1) [OF inv] cq_invD(8) [OF inv t] by auto
  have v: "vnext (push_store t old s) = vnext s"
    using t by (auto simp: vnext_def push_store_def set_next_def fun_eq_iff split: push_pc.splits)
  have own: "old = CH_FREE \<Longrightarrow> cq_owner s = Claimed t"
    using cq_invD(7) [OF inv, of t] t by simp
  have q: "nxt (push_store t old s) = (nxt s)(t := old)" "tq_private (cq_q (push_store t old s)) = tq_private (cq_q s)"
    "tq_shared (cq_q (push_store t old s)) = tq_shared (cq_q s)" "cq_pc (push_store t old s) = (cq_pc s)(t := Idle)"
    "cq_owner (push_store t old s) = (if old = CH_FREE then Owner else cq_owner s)"
    "cq_hist (push_store t old s) = cq_hist s"
    by (simp_all add: push_store_def set_next_def)
  obtain e where e: "e \<in> ends" "chained (vnext s) (tq_shared (cq_q s)) ss e"
    "ss = [] \<longrightarrow> e = (if cq_owner s = Nobody then CH_FREE else CH_LOCKED)"
    using cq_inv_shared [OF inv] .
  show ?thesis
  proof (rule cq_invI [where e = e])
    show "walking (cq_owner (push_store t old s)) (vnext (push_store t old s)) ws"
      using cq_invD(3) [OF inv] own by (auto simp: q v)
    show "cq_pc (push_store t old s) u = Swapped CH_FREE \<Longrightarrow> cq_owner (push_store t old s) = Claimed u" for u
      using cq_invD(7) [OF inv, of u] own by (auto simp: q split: if_splits)
    show "cq_owner (push_store t old s) = Claimed u \<Longrightarrow> cq_pc (push_store t old s) u = Swapped CH_FREE \<and> ss \<noteq> []" for u
      using cq_invD(6) [OF inv, of u] t by (auto simp: q split: if_splits)
    show "cq_pc (push_store t old s) u = Swapped old' \<Longrightarrow>
        u \<in> set (ws @ ss) \<and> nxt (push_store t old s) u = CH_INCOMPLETE \<and> old' \<noteq> CH_INCOMPLETE" for u old'
      using cq_invD(8) [OF inv, of u] by (auto simp: q split: if_splits)
    show "cq_pc (push_store t old s) u = Marked \<Longrightarrow>
        is_task u \<and> u \<notin> set (ps @ ws @ ss) \<and> nxt (push_store t old s) u = CH_INCOMPLETE" for u
      using cq_invD(9) [OF inv, of u] by (auto simp: q split: if_splits)
    show "ss = [] \<Longrightarrow> e = (if cq_owner (push_store t old s) = Nobody then CH_FREE else CH_LOCKED)"
      using e(3) own by (auto simp: q)
  qed (use cq_invD(1-5) [OF inv] e out in \<open>simp_all add: q v split: if_splits\<close>)
qed

text \<open>The steps of the owner change no push in progress.\<close>

lemma owner_inv:
  assumes inv: "cq_inv s ps ws ss" and own: "\<And>t. cq_owner s \<noteq> Claimed t" "\<And>t. cq_owner s' \<noteq> Claimed t" "cq_owner s' \<noteq> Nobody"
    and pc: "cq_pc s' = cq_pc s" "\<And>t. cq_pc s t \<noteq> Idle \<Longrightarrow> nxt s' t = nxt s t"
    and new: "distinct (ps' @ ws' @ ss')" "chained (nxt s') (tq_private (cq_q s')) ps' CH_FREE" "walking (cq_owner s') (vnext s') ws'"
      "queue_run (cq_hist s') [] = Some (rev ws' @ ps' @ rev ss')"
      "e \<in> ends" "chained (vnext s') (tq_shared (cq_q s')) ss' e" "ss' = [] \<Longrightarrow> e = CH_LOCKED"
    and sub: "set (ps' @ ws' @ ss') \<subseteq> set (ps @ ws @ ss) \<union> {t. cq_pc s t = Idle}" "\<And>t. cq_pc s t \<noteq> Idle \<Longrightarrow> t \<in> set (ws @ ss) \<Longrightarrow> t \<in> set (ws' @ ss')"
  shows "cq_inv s' ps' ws' ss'"
proof (rule cq_invI [where e = e])
  show "cq_pc s' u = Swapped CH_FREE \<Longrightarrow> cq_owner s' = Claimed u" for u
    using cq_invD(7) [OF inv, of u] own(1) pc(1) by simp
  show "cq_pc s' u = Swapped old \<Longrightarrow> u \<in> set (ws' @ ss') \<and> nxt s' u = CH_INCOMPLETE \<and> old \<noteq> CH_INCOMPLETE" for u old
    using cq_invD(8) [OF inv, of u old] pc(1) pc(2) [of u] sub(2) [of u] by simp
  show "cq_pc s' u = Marked \<Longrightarrow> is_task u \<and> u \<notin> set (ps' @ ws' @ ss') \<and> nxt s' u = CH_INCOMPLETE" for u
    using cq_invD(9) [OF inv, of u] pc(1) pc(2) [of u] sub(1) by auto
  show "ss' = [] \<Longrightarrow> e = (if cq_owner s' = Nobody then CH_FREE else CH_LOCKED)"
    using new(7) own(3) by simp
qed (use own new in simp_all)

lemma vnext_eq: "cq_pc s' = cq_pc s \<Longrightarrow> nxt s' = nxt s \<Longrightarrow> vnext s' = vnext s"
  by (auto simp: vnext_def fun_eq_iff split: push_pc.split)

lemma vnext_upd: "cq_pc s' = cq_pc s \<Longrightarrow> nxt s' = (nxt s)(t := v) \<Longrightarrow> cq_pc s t = Idle \<Longrightarrow> vnext s' = (vnext s)(t := v)"
  by (auto simp: vnext_def fun_eq_iff split: push_pc.split)

lemma private_inv:
  assumes inv: "cq_inv s ps ws ss" and own: "cq_owner s = Owner" "tq_private (cq_q s) \<noteq> CH_FREE"
  shows "\<exists>ps'. cq_inv (pull_private s) ps' [] ss"
proof -
  obtain t ps' where ps: "ps = t # ps'"
    using own private_free_iff [OF inv] by (cases ps) auto
  have ws: "ws = []"
    using cq_invD(3) [OF inv] own(1) by simp
  note idle = private_idle [OF inv, of t]
  have t: "tq_private (cq_q s) = t" "chained (nxt s) (nxt s t) ps' CH_FREE" "t \<notin> set ps'" "t \<notin> set ss"
    using cq_invD(1,2) [OF inv] ps by simp_all
  obtain e where e: "e \<in> ends" "chained (vnext s) (tq_shared (cq_q s)) ss e"
    "ss = [] \<longrightarrow> e = (if cq_owner s = Nobody then CH_FREE else CH_LOCKED)"
    using cq_inv_shared [OF inv] .
  let ?s = "pull_private s"
  have s': "nxt ?s = (nxt s)(t := CH_INIT)" "tq_private (cq_q ?s) = nxt s t" "tq_shared (cq_q ?s) = tq_shared (cq_q s)"
    "cq_pc ?s = cq_pc s" "cq_owner ?s = Owner" "cq_hist ?s = cq_hist s @ [Pulled t]"
    using own(1) t(1) by (simp_all add: pull_private_def set_next_def Let_def)
  have v: "vnext ?s = (vnext s)(t := CH_INIT)"
    using vnext_upd [OF s'(4,1)] idle ps by simp
  have "cq_inv ?s ps' [] ss"
    by (rule owner_inv [OF inv, where e = e])
      (use cq_invD(1,4) [OF inv] ps ws t e own idle in \<open>auto simp: s' v split: if_splits\<close>)
  then show ?thesis
    by blast
qed

lemma detach_inv:
  assumes inv: "cq_inv s ps ws ss" and own: "cq_owner s = Owner" "tq_private (cq_q s) = CH_FREE"
  shows "\<exists>ws'. cq_inv (pull_detach s) [] ws' []"
proof -
  have ps: "ps = []" "ws = []"
    using own private_free_iff [OF inv] cq_invD(3) [OF inv] by simp_all
  obtain e where e: "e \<in> ends" "chained (vnext s) (tq_shared (cq_q s)) ss e"
    "ss = [] \<longrightarrow> e = (if cq_owner s = Nobody then CH_FREE else CH_LOCKED)"
    using cq_inv_shared [OF inv] .
  have first: "tq_shared (cq_q s) = CH_FREE \<or> tq_shared (cq_q s) = CH_LOCKED \<longleftrightarrow> ss = []"
    using chained_first [OF e(2,1)] by (simp add: ends_def)
  let ?s = "pull_detach s"
  have s': "nxt ?s = nxt s" "tq_private (cq_q ?s) = CH_FREE" "tq_shared (cq_q ?s) = CH_LOCKED" "cq_pc ?s = cq_pc s"
    "cq_owner ?s = (if ss = [] then Owner else Walking (tq_shared (cq_q s)))" "cq_hist ?s = (if ss = [] then cq_hist s @ [PulledNothing] else cq_hist s)"
    using own(2) first by (simp_all add: pull_detach_def Let_def)
  have "walking (cq_owner ?s) (vnext ?s) ss"
    using e(1,2) unfolding vnext_eq [OF s'(4,1)] s'(5) by auto
  then have "cq_inv ?s [] ss []"
    by (intro owner_inv [OF inv, where e = CH_LOCKED])
      (use cq_invD(1,4) [OF inv] ps own in \<open>simp_all add: s' ends_def\<close>)
  then show ?thesis
    by blast
qed

lemma walk_inv:
  assumes inv: "cq_inv s ps ws ss" and own: "cq_owner s = Walking t"
  shows "\<exists>ps' ws'. cq_inv (walk_step t s) ps' ws' ss"
proof -
  obtain e' ws' where ws: "ws = t # ws'" "e' \<in> ends" "is_task t" "chained (vnext s) (vnext s t) ws' e'"
    using cq_invD(3) [OF inv] own by (cases ws) auto
  have out: "t \<notin> set ps" "t \<notin> set ws'" "t \<notin> set ss"
    using cq_invD(1) [OF inv] ws(1) by simp_all
  obtain e where e: "e \<in> ends" "chained (vnext s) (tq_shared (cq_q s)) ss e"
    "ss = [] \<longrightarrow> e = (if cq_owner s = Nobody then CH_FREE else CH_LOCKED)"
    using cq_inv_shared [OF inv] .
  let ?s = "walk_step t s"
  show ?thesis
  proof (cases "nxt s t = CH_INCOMPLETE")
    case True
    then have "(nxt s)(t := CH_INCOMPLETE) = nxt s"
      by auto
    then have "?s = s"
      using True by (simp add: walk_step_def set_next_def)
    then show ?thesis
      using inv by metis
  next
    case False
    then have idle: "cq_pc s t = Idle"
      using cq_invD(8) [OF inv, of t] cq_invD(9) [OF inv, of t] by (cases "cq_pc s t") auto
    then have vt: "vnext s t = nxt s t"
      by (simp add: vnext_def)
    have first: "nxt s t = CH_FREE \<or> nxt s t = CH_LOCKED \<longleftrightarrow> ws' = []"
      using chained_first [OF ws(4,2)] vt by (simp add: ends_def)
    show ?thesis
    proof (cases "ws' = []")
      case True
      have s': "nxt ?s = (nxt s)(t := CH_INIT)" "tq_private (cq_q ?s) = tq_private (cq_q s)" "tq_shared (cq_q ?s) = tq_shared (cq_q s)"
        "cq_pc ?s = cq_pc s" "cq_owner ?s = Owner" "cq_hist ?s = cq_hist s @ [Pulled t]"
        using False True first by (simp_all add: walk_step_def Let_def set_next_def)
      have "cq_inv ?s ps [] ss"
        by (rule owner_inv [OF inv, where e = e])
          (use cq_invD(1,2,4) [OF inv] True ws(1) out e own idle in \<open>auto simp: s' vnext_upd [OF s'(4,1) idle] split: if_splits\<close>)
      then show ?thesis
        by blast
    next
      case rest: False
      have s': "nxt ?s = (nxt s)(t := tq_private (cq_q s))" "tq_private (cq_q ?s) = t" "tq_shared (cq_q ?s) = tq_shared (cq_q s)"
        "cq_pc ?s = cq_pc s" "cq_owner ?s = Walking (nxt s t)" "cq_hist ?s = cq_hist s"
        using False rest first by (simp_all add: walk_step_def Let_def set_next_def)
      have "cq_inv ?s (t # ps) ws' ss"
        by (rule owner_inv [OF inv, where e = e])
          (use cq_invD(1,2,4) [OF inv] rest ws vt out e own idle in \<open>auto simp: s' vnext_upd [OF s'(4,1) idle] split: if_splits\<close>)
      then show ?thesis
        by blast
    qed
  qed
qed

lemma acquire_inv:
  assumes inv: "cq_inv s ps ws ss" and "ChainFIFO_tryAcquire (cq_q s) = (True, q)"
  shows "cq_inv (s\<lparr>cq_q := q, cq_owner := Owner\<rparr>) ps [] []"
proof -
  have q: "tq_shared (cq_q s) = CH_FREE" "q = (cq_q s)\<lparr>tq_shared := CH_LOCKED\<rparr>"
    using assms(2) by (auto simp: ChainFIFO_tryAcquire_def split: if_splits)
  have own: "cq_owner s = Nobody"
    using shared_free_iff [OF inv] q(1) by simp
  then have "ss = []" "ws = []"
    using cq_invD(3,5) [OF inv] by simp_all
  then show ?thesis
    by (intro owner_inv [OF inv, where e = CH_LOCKED])
      (use cq_invD(1,2,4) [OF inv] own q in \<open>auto simp: ends_def\<close>)
qed

lemma release_inv:
  assumes inv: "cq_inv s ps ws ss" and own: "cq_owner s = Owner" and "ChainFIFO_tryRelease (cq_q s) = (True, q)"
  shows "cq_inv (s\<lparr>cq_q := q, cq_owner := Nobody\<rparr>) ps [] []"
proof -
  have q: "tq_shared (cq_q s) = CH_LOCKED" "q = (cq_q s)\<lparr>tq_shared := CH_FREE\<rparr>"
    using assms(3) by (auto simp: ChainFIFO_tryRelease_def split: if_splits)
  obtain e where "e \<in> ends" "chained (vnext s) (tq_shared (cq_q s)) ss e"
    by (rule cq_inv_shared [OF inv])
  then have "ss = []"
    using chained_first [of "vnext s" "tq_shared (cq_q s)" ss e] q(1) by (simp add: ends_def)
  moreover have "ws = []"
    using own cq_invD(3) [OF inv] by simp
  ultimately show ?thesis
    using cq_invD(1,2,4) [OF inv] cq_invD(7-9) [OF inv] own q
    by (intro cq_invI [where e = CH_FREE]) (auto simp: ends_def)
qed

lemma private_push_inv:
  assumes inv: "cq_inv s ps ws ss" and own: "cq_owner s = Owner" "is_task t" "cq_pc s t = Idle" "ChainFIFO_pushPrivate t (cq_q s) = Some (b, q)"
  shows "cq_inv (s\<lparr>cq_q := q, cq_hist := cq_hist s @ [PushedPrivate t]\<rparr>) (t # ps) [] ss"
proof -
  have q: "Chainable_isInit (nxt s) t" "tq_private q = t" "tq_shared q = tq_shared (cq_q s)" "tq_next q = (nxt s)(t := tq_private (cq_q s))"
    using own(4) by (auto simp: ChainFIFO_pushPrivate_def set_next_def bind_eq_Some_conv Let_def)
  note fresh = fresh_task [OF inv own(3) q(1)]
  have ws: "ws = []"
    using cq_invD(3) [OF inv] own(1) by simp
  obtain e where e: "e \<in> ends" "chained (vnext s) (tq_shared (cq_q s)) ss e"
    "ss = [] \<longrightarrow> e = (if cq_owner s = Nobody then CH_FREE else CH_LOCKED)"
    using cq_inv_shared [OF inv] .
  let ?s = "s\<lparr>cq_q := q, cq_hist := cq_hist s @ [PushedPrivate t]\<rparr>"
  have s': "cq_pc ?s = cq_pc s" "nxt ?s = (nxt s)(t := tq_private (cq_q s))"
    using q(4) by simp_all
  show ?thesis
    by (rule owner_inv [OF inv, where e = e])
      (use cq_invD(1,2,4) [OF inv] ws own e fresh in \<open>auto simp: q vnext_upd [OF s' own(3)] split: if_splits\<close>)
qed

lemma cq_inv_step:
  assumes "cq_step s s'" "cq_inv s ps ws ss"
  shows "\<exists>ps' ws' ss'. cq_inv s' ps' ws' ss'"
  using assms(1)
proof cases
  case (mark t)
  then show ?thesis
    using mark_inv [OF assms(2)] by blast
next
  case (swap t)
  then show ?thesis
    using swap_inv [OF assms(2)] by blast
next
  case (store t old)
  then show ?thesis
    using store_inv [OF assms(2)] by blast
next
  case (acquire q)
  then show ?thesis
    using acquire_inv [OF assms(2)] by blast
next
  case private_pull
  then show ?thesis
    using private_inv [OF assms(2)] by blast
next
  case detach
  then show ?thesis
    using detach_inv [OF assms(2)] by blast
next
  case (walk t)
  then show ?thesis
    using walk_inv [OF assms(2)] by blast
next
  case (release q)
  then show ?thesis
    using release_inv [OF assms(2)] by blast
next
  case (private_push t b q)
  then show ?thesis
    using private_push_inv [OF assms(2)] by blast
qed

lemma cq_inv_reach: "cq_reach n s \<Longrightarrow> \<exists>ps ws ss. cq_inv s ps ws ss"
proof (induction rule: cq_reach.induct)
  case start
  show ?case
    using cq_inv_start by blast
next
  case (step s s')
  then show ?case
    using cq_inv_step by blast
qed

section \<open>Results\<close>

lemma waiting_inv:
  assumes inv: "cq_inv s ps ws ss" and own: "cq_owner s = Walking t" "nxt s t = CH_INCOMPLETE"
  shows "\<exists>old. cq_pc s t = Swapped old"
proof -
  obtain e ws' where ws: "ws = t # ws'" "e \<in> ends" "chained (vnext s) (vnext s t) ws' e"
    using cq_invD(3) [OF inv] own by (cases ws) auto
  then have "vnext s t \<noteq> CH_INCOMPLETE"
    using chained_first_task [OF ws(3)] is_task_neq ch_distinct by (auto simp: ends_def)
  then show ?thesis
    using own(2) cq_invD(9) [OF inv, of t] ws(1) by (cases "cq_pc s t") (auto simp: vnext_def)
qed

text \<open>
  C17. The task queue under concurrency. In every state that any interleaving of pushing threads and
  owners reaches, the operations in the order in which they took effect are a legal history of a
  sequential queue, and the tasks that are left are the ones of that queue, none of them lost or
  doubled: each pull returned the oldest task of the queue or, if it returned nothing, the queue was
  empty at that moment; tasks that the owner pushed privately come first. The queue is marked free
  exactly when nobody owns it, so that two threads never own it at once; what is left in a free queue
  are private tasks of the last owner, and nothing if its private chain was empty. When the owner waits
  for an incomplete push, the pushing thread has its last store still ahead, so that the wait ends.
\<close>

theorem queue_linearizable:
  assumes "cq_reach n s"
  shows "\<exists>ts. queue_run (cq_hist s) [] = Some ts \<and> distinct ts \<and>
    (tq_shared (cq_q s) = CH_FREE \<longleftrightarrow> cq_owner s = Nobody) \<and>
    (cq_owner s = Nobody \<longrightarrow> chained (nxt s) (tq_private (cq_q s)) ts CH_FREE \<and> (tq_private (cq_q s) = CH_FREE \<longrightarrow> ts = [])) \<and>
    (\<forall>t. cq_owner s = Walking t \<and> nxt s t = CH_INCOMPLETE \<longrightarrow> (\<exists>old. cq_pc s t = Swapped old \<and> cq_step s (push_store t old s)))"
proof -
  obtain ps ws ss where inv: "cq_inv s ps ws ss"
    using cq_inv_reach [OF assms] by blast
  have "distinct (rev ws @ ps @ rev ss)"
    using cq_invD(1) [OF inv] by auto
  moreover have "rev ws @ ps @ rev ss = ps" if "cq_owner s = Nobody"
    using cq_invD(3,5) [OF inv] that by simp
  ultimately show ?thesis
    using cq_invD(2,4) [OF inv] shared_free_iff [OF inv] private_free_iff [OF inv] waiting_inv [OF inv] cq_step.store [of s]
    by (intro exI [of _ "rev ws @ ps @ rev ss"]) auto
qed

text \<open>An example run: the owner detaches the chain while the second push is still incomplete.\<close>

definition ex_race :: "cq" where
  "ex_race = pull_detach (push_store 64 CH_FREE (push_swap 128 (push_mark 128 (push_swap 64 (push_mark 64 (cq_start ex_nexts))))))"

lemma ex_race_reach: "cq_reach ex_nexts ex_race"
proof -
  note defs = push_mark_def push_swap_def push_store_def cq_start_def empty_queue_def set_next_def ex_nexts_def
    is_task_def Chainable_isInit_def ch_defs
  let ?s1 = "push_mark 64 (cq_start ex_nexts)" and ?s2 = "push_swap 64 (push_mark 64 (cq_start ex_nexts))"
  let ?s3 = "push_mark 128 ?s2" let ?s4 = "push_swap 128 ?s3" let ?s5 = "push_store 64 CH_FREE ?s4"
  have "cq_reach ex_nexts ?s1"
    by (rule cq_reach.step [OF cq_reach.start], rule cq_step.mark) (simp_all add: defs)
  then have "cq_reach ex_nexts ?s2"
    by (rule cq_reach.step, intro cq_step.swap) (simp add: defs)
  then have "cq_reach ex_nexts ?s3"
    by (rule cq_reach.step, intro cq_step.mark) (simp_all add: defs)
  then have "cq_reach ex_nexts ?s4"
    by (rule cq_reach.step, intro cq_step.swap) (simp add: defs)
  then have "cq_reach ex_nexts ?s5"
    by (rule cq_reach.step, intro cq_step.store) (simp add: defs)
  then show ?thesis
    unfolding ex_race_def by (rule cq_reach.step, intro cq_step.detach) (simp_all add: defs)
qed

theorem queue_linearizable_witness:
  "cq_reach ex_nexts ex_race \<and> queue_run (cq_hist ex_race) [] = Some [64, 128] \<and> cq_owner ex_race = Walking 128 \<and> nxt ex_race 128 = CH_INCOMPLETE \<and>
   (\<exists>old. cq_pc ex_race 128 = Swapped old \<and> cq_step ex_race (push_store 128 old ex_race))"
proof -
  have "queue_run (cq_hist ex_race) [] = Some [64, 128]" "cq_owner ex_race = Walking 128" "nxt ex_race 128 = CH_INCOMPLETE"
    by (simp_all add: ex_race_def pull_detach_def push_mark_def push_swap_def push_store_def cq_start_def empty_queue_def
        set_next_def ch_defs)
  then show ?thesis
    using ex_race_reach queue_linearizable [OF ex_race_reach] by auto
qed

end
