(* ===== verification/Monitors.thy ===== *)
theory Monitors
  imports Tasklet_Queue
begin

text \<open>
  Tasks and monitors: \<^verbatim>\<open>kernel/async/monitor-common\<close> (\<^verbatim>\<open>Tasklet\<close>, \<^verbatim>\<open>DeletionMonitor\<close>),
  \<^verbatim>\<open>nested-monitor-delegating\<close>, \<^verbatim>\<open>nested-monitor-home\<close>, \<^verbatim>\<open>nested-monitor-dummy\<close>,
  \<^verbatim>\<open>simple-monitor-home\<close> and \<^verbatim>\<open>mutex-delegating\<close>. A monitor hands tasks to a place, the scheduler of a
  hardware thread; what it asks the place to do is recorded as a list of events. The monitors with a
  waiting queue take the operations of the queue as arguments and are instantiated with the task queue
  of \<^verbatim>\<open>TaskletQueue.hh\<close>.
\<close>

section \<open>Tasks\<close>

text \<open>A task has its chain word and a function to run; the function is identified by a number.\<close>

record tasklet =
  tk_next :: u64
  tk_handler :: u64

definition Tasklet_set :: "u64 \<Rightarrow> tasklet \<Rightarrow> tasklet option" where
  "Tasklet_set fun_id t = do { ASSERT (tk_next t = CH_UNUSED); Some (t\<lparr>tk_next := CH_INIT, tk_handler := fun_id\<rparr>) }"

text \<open>The result is the task as the handler finds it, and the handler to run.\<close>

definition TaskletBase_run :: "u64 \<Rightarrow> tasklet \<Rightarrow> (u64 \<times> tasklet) option" where
  "TaskletBase_run virt_addr t = do {
     ASSERT (tk_handler t > virt_addr);
     ASSERT (tk_next t = CH_INIT \<or> tk_next t = CH_INIT_HANDOVER);
     Some (tk_handler t, t\<lparr>tk_next := CH_UNUSED\<rparr>) }"

section \<open>What a monitor asks a place to do\<close>

datatype place_event =
    RunInline u64 u64
  | RunLocal u64 u64
  | RunRemote u64 u64
  | PushShared u64

section \<open>Deletion\<close>

record del_mon =
  dm_refcount :: u64
  dm_deleteTask :: u64

definition DeletionMonitor_init :: del_mon where
  "DeletionMonitor_init = \<lparr>dm_refcount = 0, dm_deleteTask = 0\<rparr>"

definition DeletionMonitor_acquireRef :: "del_mon \<Rightarrow> del_mon" where
  "DeletionMonitor_acquireRef d = d\<lparr>dm_refcount := dm_refcount d + 1\<rparr>"

definition DeletionMonitor_releaseRef :: "del_mon \<Rightarrow> place_event list \<times> del_mon" where
  "DeletionMonitor_releaseRef d =
     (let result = dm_refcount d - 1; d = d\<lparr>dm_refcount := dm_refcount d - 1\<rparr> in
      (if result = 0 \<and> dm_deleteTask d \<noteq> 0 then [PushShared (dm_deleteTask d)] else [], d))"

definition DeletionMonitor_doDelete :: "u64 \<Rightarrow> del_mon \<Rightarrow> place_event list \<times> del_mon" where
  "DeletionMonitor_doDelete msg d =
     (let d = d\<lparr>dm_refcount := dm_refcount d + 1\<rparr>;
          d = d\<lparr>dm_deleteTask := msg\<rparr>;
          d = d\<lparr>dm_refcount := dm_refcount d - 1\<rparr> in
      (if dm_refcount d = 0 then [PushShared (dm_deleteTask d)] else [], d))"

section \<open>The delegating monitor\<close>

type_synonym 'q push_op = "u64 \<Rightarrow> 'q \<Rightarrow> (bool \<times> 'q) option"
type_synonym 'q pull_op = "'q \<Rightarrow> (u64 \<times> 'q) option"
type_synonym 'q release_op = "'q \<Rightarrow> bool \<times> 'q"

record 'q nested_mon =
  nm_home :: u64
  nm_waitq :: 'q
  nm_del :: del_mon

definition nmd_request :: "'q push_op \<Rightarrow> 'q pull_op \<Rightarrow> u64 \<Rightarrow> u64 \<Rightarrow> 'q nested_mon \<Rightarrow>
    (place_event list \<times> 'q nested_mon) option" where
  "nmd_request push pull my_place msg m = do {
     ASSERT (msg \<noteq> 0);
     (first, q) \<leftarrow> push msg (nm_waitq m);
     let m = m\<lparr>nm_waitq := q\<rparr>;
     if first then do {
       let m = m\<lparr>nm_del := DeletionMonitor_acquireRef (nm_del m)\<rparr>;
       let m = m\<lparr>nm_home := my_place\<rparr>;
       (tsk, q) \<leftarrow> pull (nm_waitq m);
       let m = m\<lparr>nm_waitq := q\<rparr>;
       ASSERT (tsk \<noteq> 0);
       Some ([RunInline my_place tsk], m) }
     else Some ([], m) }"

definition nmd_requestDone :: "'q pull_op \<Rightarrow> 'q release_op \<Rightarrow> u64 \<Rightarrow> 'q nested_mon \<Rightarrow>
    (place_event list \<times> 'q nested_mon) option" where
  "nmd_requestDone pull tryRelease local_place m = do {
     let my_place = nm_home m;
     ASSERT (my_place = local_place);
     (tsk, q) \<leftarrow> pull (nm_waitq m);
     let m = m\<lparr>nm_waitq := q\<rparr>;
     if tsk \<noteq> 0 then Some ([RunLocal my_place tsk], m)
     else do {
       let (released, q) = tryRelease (nm_waitq m);
       let m = m\<lparr>nm_waitq := q\<rparr>;
       if released then do {
         let m = m\<lparr>nm_home := 0\<rparr>;
         let (ev, d) = DeletionMonitor_releaseRef (nm_del m);
         Some (ev, m\<lparr>nm_del := d\<rparr>) }
       else do {
         (tsk, q) \<leftarrow> pull (nm_waitq m);
         let m = m\<lparr>nm_waitq := q\<rparr>;
         ASSERT (tsk \<noteq> 0);
         Some ([RunLocal my_place tsk], m) } } }"

definition nmd_response :: "u64 \<Rightarrow> u64 \<Rightarrow> 'q nested_mon \<Rightarrow> place_event list option" where
  "nmd_response local_place msg m = do {
     ASSERT (nm_home m \<noteq> 0);
     Some [if nm_home m = local_place then RunInline (nm_home m) msg else RunRemote (nm_home m) msg] }"

definition NestedMonitorDelegating_request :: "u64 \<Rightarrow> u64 \<Rightarrow> tq nested_mon \<Rightarrow> (place_event list \<times> tq nested_mon) option" where
  "NestedMonitorDelegating_request = nmd_request ChainFIFO_push ChainFIFO_pull"

definition NestedMonitorDelegating_requestDone :: "u64 \<Rightarrow> tq nested_mon \<Rightarrow> (place_event list \<times> tq nested_mon) option" where
  "NestedMonitorDelegating_requestDone = nmd_requestDone ChainFIFO_pull ChainFIFO_tryRelease"

section \<open>The monitor with a fixed home\<close>

definition nmh_request :: "'q push_op \<Rightarrow> 'q pull_op \<Rightarrow> u64 \<Rightarrow> u64 \<Rightarrow> 'q nested_mon \<Rightarrow>
    (place_event list \<times> 'q nested_mon) option" where
  "nmh_request push pull local_place msg m = do {
     ASSERT (msg \<noteq> 0);
     (first, q) \<leftarrow> push msg (nm_waitq m);
     let m = m\<lparr>nm_waitq := q\<rparr>;
     if first then do {
       let m = m\<lparr>nm_del := DeletionMonitor_acquireRef (nm_del m)\<rparr>;
       (tsk, q) \<leftarrow> pull (nm_waitq m);
       let m = m\<lparr>nm_waitq := q\<rparr>;
       ASSERT (tsk \<noteq> 0);
       ASSERT (nm_home m \<noteq> 0);
       Some ([if nm_home m = local_place then RunInline (nm_home m) tsk else RunRemote (nm_home m) tsk], m) }
     else Some ([], m) }"

definition nmh_requestDone :: "'q pull_op \<Rightarrow> 'q release_op \<Rightarrow> u64 \<Rightarrow> 'q nested_mon \<Rightarrow>
    (place_event list \<times> 'q nested_mon) option" where
  "nmh_requestDone pull tryRelease local_place m = do {
     (tsk, q) \<leftarrow> pull (nm_waitq m);
     let m = m\<lparr>nm_waitq := q\<rparr>;
     if tsk \<noteq> 0 then do { ASSERT (nm_home m = local_place); Some ([RunInline (nm_home m) tsk], m) }
     else do {
       let (released, q) = tryRelease (nm_waitq m);
       let m = m\<lparr>nm_waitq := q\<rparr>;
       if released then do {
         let (ev, d) = DeletionMonitor_releaseRef (nm_del m);
         Some (ev, m\<lparr>nm_del := d\<rparr>) }
       else do {
         (tsk, q) \<leftarrow> pull (nm_waitq m);
         let m = m\<lparr>nm_waitq := q\<rparr>;
         ASSERT (tsk \<noteq> 0);
         ASSERT (nm_home m = local_place);
         Some ([RunInline (nm_home m) tsk], m) } } }"

definition NestedMonitorHome_request :: "u64 \<Rightarrow> u64 \<Rightarrow> tq nested_mon \<Rightarrow> (place_event list \<times> tq nested_mon) option" where
  "NestedMonitorHome_request = nmh_request ChainFIFO_push ChainFIFO_pull"

definition NestedMonitorHome_requestDone :: "u64 \<Rightarrow> tq nested_mon \<Rightarrow> (place_event list \<times> tq nested_mon) option" where
  "NestedMonitorHome_requestDone = nmh_requestDone ChainFIFO_pull ChainFIFO_tryRelease"

section \<open>Monitors without a queue\<close>

definition NestedMonitorDummy_request :: "u64 \<Rightarrow> u64 \<Rightarrow> del_mon \<Rightarrow> place_event list \<times> del_mon" where
  "NestedMonitorDummy_request local_place msg d = ([RunInline local_place msg], DeletionMonitor_acquireRef d)"

definition NestedMonitorDummy_requestDone :: "del_mon \<Rightarrow> place_event list \<times> del_mon" where
  "NestedMonitorDummy_requestDone d = DeletionMonitor_releaseRef d"

record simple_mon =
  sm_home :: u64
  sm_del :: del_mon

definition SimpleMonitorHome_setHome :: "u64 \<Rightarrow> simple_mon \<Rightarrow> simple_mon" where
  "SimpleMonitorHome_setHome home m = m\<lparr>sm_home := home\<rparr>"

definition SimpleMonitorHome_request :: "u64 \<Rightarrow> u64 \<Rightarrow> simple_mon \<Rightarrow> (place_event list \<times> simple_mon) option" where
  "SimpleMonitorHome_request local_place msg m = do {
     ASSERT (sm_home m \<noteq> 0);
     let m = m\<lparr>sm_del := DeletionMonitor_acquireRef (sm_del m)\<rparr>;
     Some ([if sm_home m = local_place then RunInline (sm_home m) msg else RunRemote (sm_home m) msg], m) }"

definition SimpleMonitorHome_requestDone :: "simple_mon \<Rightarrow> place_event list \<times> simple_mon" where
  "SimpleMonitorHome_requestDone m =
     (let (ev, d) = DeletionMonitor_releaseRef (sm_del m) in (ev, m\<lparr>sm_del := d\<rparr>))"

section \<open>The delegating mutex\<close>

datatype done_flag = PENDING | DONE | HANDOVER

text \<open>The task of a critical section: run the section, then report how the thread goes on.\<close>

definition mutex_task_done :: "tasklet \<Rightarrow> done_flag" where
  "mutex_task_done t = (if tk_next t = CH_INIT_HANDOVER then HANDOVER else DONE)"

text \<open>
  The combiner: \<open>tasks\<close> are the pulled tasks with their done flags to come, \<open>n\<close> the remaining count
  before the next one is told to take over. The result lists what every task reported and whether the
  queue was released.
\<close>

fun MutexDelegating_process :: "u64 \<Rightarrow> nat \<Rightarrow> tasklet list \<Rightarrow> (done_flag list \<times> bool) option" where
  "MutexDelegating_process va n [] = Some ([], True)"
| "MutexDelegating_process va 0 (t # ts) = do {
     ASSERT (tk_next t = CH_INIT);
     (h, t) \<leftarrow> TaskletBase_run va (t\<lparr>tk_next := CH_INIT_HANDOVER\<rparr>);
     Some ([mutex_task_done t], False) }"
| "MutexDelegating_process va (Suc n) (t # ts) = do {
     (h, t) \<leftarrow> TaskletBase_run va t;
     (ds, released) \<leftarrow> MutexDelegating_process va n ts;
     Some (mutex_task_done t # ds, released) }"

section \<open>The life of a task\<close>

text \<open>Setting a function, queueing, running: the task is unused again when its handler starts.\<close>

lemma Tasklet_set_run:
  assumes "tk_next t = CH_UNUSED" "h > va"
  shows "\<exists>t'. Tasklet_set h t = Some t' \<and> TaskletBase_run va t' = Some (h, t'\<lparr>tk_next := CH_UNUSED\<rparr>)"
  using assms by (simp add: Tasklet_set_def TaskletBase_run_def)

section \<open>The abstract monitor\<close>

text \<open>Whether a request is being served, and the requests that wait.\<close>

type_synonym monitor = "bool \<times> u64 list"

fun mon_request :: "u64 \<Rightarrow> monitor \<Rightarrow> u64 list \<times> monitor" where
  "mon_request t (busy, ws) = (if busy then ([], (True, ws @ [t])) else ([t], (True, ws)))"

fun mon_done :: "monitor \<Rightarrow> u64 list \<times> monitor" where
  "mon_done (busy, []) = ([], (False, []))"
| "mon_done (busy, t # ws) = ([t], (True, ws))"

fun started :: "place_event list \<Rightarrow> u64 list" where
  "started [] = []"
| "started (RunInline p t # es) = t # started es"
| "started (RunLocal p t # es) = t # started es"
| "started (RunRemote p t # es) = t # started es"
| "started (PushShared t # es) = started es"

lemma started_releaseRef [simp]: "started (fst (DeletionMonitor_releaseRef d)) = []"
  by (simp add: DeletionMonitor_releaseRef_def Let_def)

definition nm_active :: "'q nested_mon \<Rightarrow> u64 \<Rightarrow> bool \<Rightarrow> bool" where
  "nm_active m p busy \<longleftrightarrow> (busy \<longrightarrow> nm_home m = p)"

context task_queue
begin

text \<open>Both monitors implement the abstract one, whatever queue they use.\<close>

lemma nmd_request_refines:
  assumes "rep (nm_waitq m) busy ws" "ready (nm_waitq m) t" "t \<noteq> 0" "nm_active m p busy"
  shows "\<exists>ev m'. nmd_request push pull p t m = Some (ev, m') \<and> started ev = fst (mon_request t (busy, ws)) \<and>
    rep (nm_waitq m') (fst (snd (mon_request t (busy, ws)))) (snd (snd (mon_request t (busy, ws)))) \<and> nm_active m' p True \<and>
    dm_refcount (nm_del m') = dm_refcount (nm_del m) + (if busy then 0 else 1)"
proof -
  obtain q where q: "push t (nm_waitq m) = Some (\<not> busy, q)" "rep q True (ws @ [t])"
    using push [OF assms(1,2)] by blast
  show ?thesis
  proof (cases busy)
    case True
    then show ?thesis
      using q assms(3,4) by (simp add: nmd_request_def nm_active_def)
  next
    case False
    then have "ws = []"
      using free_empty assms(1) by simp
    moreover from this obtain q' where "pull q = Some (t, q')" "rep q' True []"
      using pull [of q t "[]"] q(2) by auto
    ultimately show ?thesis
      using q False assms(3) by (simp add: nmd_request_def nm_active_def DeletionMonitor_acquireRef_def)
  qed
qed

lemma nmd_requestDone_refines:
  assumes "rep (nm_waitq m) True ws" "nm_active m p True"
  shows "\<exists>ev m'. nmd_requestDone pull tryRelease p m = Some (ev, m') \<and> started ev = fst (mon_done (True, ws)) \<and>
    rep (nm_waitq m') (fst (snd (mon_done (True, ws)))) (snd (snd (mon_done (True, ws)))) \<and>
    nm_active m' p (fst (snd (mon_done (True, ws)))) \<and>
    nm_del m' = (if ws = [] then snd (DeletionMonitor_releaseRef (nm_del m)) else nm_del m)"
proof (cases ws)
  case Nil
  then obtain q where q: "pull (nm_waitq m) = Some (0, q)" "rep q True []" "fst (tryRelease q)" "rep (snd (tryRelease q)) False []"
    using pull_empty [of "nm_waitq m"] assms(1) by auto
  obtain q' where r: "tryRelease q = (True, q')"
    using q(3) by (metis prod.collapse)
  have "nmd_requestDone pull tryRelease p m = Some (fst (DeletionMonitor_releaseRef (nm_del m)),
      m\<lparr>nm_waitq := q', nm_home := 0, nm_del := snd (DeletionMonitor_releaseRef (nm_del m))\<rparr>)"
    using q r assms(2) by (simp add: nmd_requestDone_def nm_active_def split: prod.split)
  then show ?thesis
    using Nil q(4) r by (simp add: nm_active_def)
next
  case (Cons t ts)
  then obtain q where "pull (nm_waitq m) = Some (t, q)" "rep q True ts" "t \<noteq> 0"
    using pull assms(1) by blast
  then show ?thesis
    using Cons assms(2) by (simp add: nmd_requestDone_def nm_active_def)
qed

lemma nmh_request_refines:
  assumes "rep (nm_waitq m) busy ws" "ready (nm_waitq m) t" "t \<noteq> 0" "nm_home m \<noteq> 0"
  shows "\<exists>ev m'. nmh_request push pull p t m = Some (ev, m') \<and> started ev = fst (mon_request t (busy, ws)) \<and>
    rep (nm_waitq m') (fst (snd (mon_request t (busy, ws)))) (snd (snd (mon_request t (busy, ws)))) \<and> nm_home m' = nm_home m"
proof -
  obtain q where q: "push t (nm_waitq m) = Some (\<not> busy, q)" "rep q True (ws @ [t])"
    using push [OF assms(1,2)] by blast
  show ?thesis
  proof (cases busy)
    case True
    then show ?thesis
      using q assms(3) by (simp add: nmh_request_def)
  next
    case False
    then have "ws = []"
      using free_empty assms(1) by simp
    moreover from this obtain q' where "pull q = Some (t, q')" "rep q' True []"
      using pull [of q t "[]"] q(2) by auto
    ultimately show ?thesis
      using q False assms(3,4) by (simp add: nmh_request_def Let_def)
  qed
qed

end


definition ex_monitor :: "tq nested_mon" where
  "ex_monitor = \<lparr>nm_home = 0, nm_waitq = empty_queue ex_nexts, nm_del = DeletionMonitor_init\<rparr>"


lemma NestedMonitorHome_request_refines:
  "tq_rep (nm_waitq m) busy ws \<Longrightarrow> tq_ready (nm_waitq m) t \<Longrightarrow> t \<noteq> 0 \<Longrightarrow> nm_home m \<noteq> 0 \<Longrightarrow>
   \<exists>ev m'. NestedMonitorHome_request p t m = Some (ev, m') \<and> started ev = fst (mon_request t (busy, ws)) \<and>
     tq_rep (nm_waitq m') (fst (snd (mon_request t (busy, ws)))) (snd (snd (mon_request t (busy, ws)))) \<and> nm_home m' = nm_home m"
  unfolding NestedMonitorHome_request_def by (rule chain_fifo.nmh_request_refines)

section \<open>Runs of the abstract monitor\<close>

datatype mon_op = Request u64 | Finish

fun mon_run :: "mon_op list \<Rightarrow> monitor \<Rightarrow> u64 list \<times> monitor" where
  "mon_run [] m = ([], m)"
| "mon_run (Request t # ops) m = (let (s, m) = mon_request t m; (ss, m) = mon_run ops m in (s @ ss, m))"
| "mon_run (Finish # ops) m = (let (s, m) = mon_done m; (ss, m) = mon_run ops m in (s @ ss, m))"

definition requests :: "mon_op list \<Rightarrow> u64 list" where
  "requests ops = concat (map (\<lambda>x. case x of Request t \<Rightarrow> [t] | Finish \<Rightarrow> []) ops)"

lemma mon_run_fifo: "busy \<or> ws = [] \<Longrightarrow> mon_run ops (busy, ws) = (ss, (busy', ws')) \<Longrightarrow>
    ws @ requests ops = ss @ ws' \<and> (busy' \<or> ws' = [])"
proof (induction ops arbitrary: busy ws ss)
  case (Cons x ops)
  then show ?case
    by (cases x; cases ws) (force simp: requests_def Let_def split: prod.splits if_splits)+
qed (simp add: requests_def)

section \<open>Deletion happens once\<close>

datatype dm_op = Acquire | Release | Delete u64

fun dm_run :: "dm_op list \<Rightarrow> del_mon \<Rightarrow> place_event list \<times> del_mon" where
  "dm_run [] d = ([], d)"
| "dm_run (Acquire # ops) d = dm_run ops (DeletionMonitor_acquireRef d)"
| "dm_run (Release # ops) d =
     (let (ev, d) = DeletionMonitor_releaseRef d; (evs, d) = dm_run ops d in (ev @ evs, d))"
| "dm_run (Delete t # ops) d =
     (let (ev, d) = DeletionMonitor_doDelete t d; (evs, d) = dm_run ops d in (ev @ evs, d))"

text \<open>
  References are released only by those who hold one, deletion is requested once, and an object that
  is up for deletion gets no first reference any more: the capability system has removed the last
  capability to it before.
\<close>

fun dm_legal :: "dm_op list \<Rightarrow> nat \<Rightarrow> bool \<Rightarrow> bool" where
  "dm_legal [] c del \<longleftrightarrow> True"
| "dm_legal (Acquire # ops) c del \<longleftrightarrow> (del \<longrightarrow> 0 < c) \<and> c + 2 < 2 ^ 64 \<and> dm_legal ops (c + 1) del"
| "dm_legal (Release # ops) c del \<longleftrightarrow> 0 < c \<and> dm_legal ops (c - 1) del"
| "dm_legal (Delete t # ops) c del \<longleftrightarrow> \<not> del \<and> t \<noteq> 0 \<and> dm_legal ops c True"

fun dm_balance :: "dm_op list \<Rightarrow> nat \<Rightarrow> nat" where
  "dm_balance [] c = c"
| "dm_balance (Acquire # ops) c = dm_balance ops (c + 1)"
| "dm_balance (Release # ops) c = dm_balance ops (c - 1)"
| "dm_balance (Delete t # ops) c = dm_balance ops c"

fun delete_task :: "dm_op list \<Rightarrow> u64 option" where
  "delete_task [] = None"
| "delete_task (Delete t # ops) = Some t"
| "delete_task (_ # ops) = delete_task ops"

lemma dm_legal_end: "dm_legal ops 0 True \<Longrightarrow> ops = []"
proof (cases ops)
  case (Cons x xs)
  then show "dm_legal ops 0 True \<Longrightarrow> ops = []"
    by (cases x) auto
qed simp

lemma word_of_nat_zero_iff: "c < 2 ^ 64 \<Longrightarrow> (word_of_nat c :: u64) = 0 \<longleftrightarrow> c = 0"
  by (auto simp: word_unat_eq_iff unsigned_of_nat take_bit_nat_eq_self)

lemma dm_run_deleting:
  "dm_legal ops c True \<Longrightarrow> dm_refcount d = word_of_nat c \<Longrightarrow> c + 1 < 2 ^ 64 \<Longrightarrow> dm_deleteTask d = t \<Longrightarrow> t \<noteq> 0 \<Longrightarrow>
   fst (dm_run ops d) = (if 0 < c \<and> dm_balance ops c = 0 then [PushShared t] else [])"
proof (induction ops arbitrary: c d)
  case (Cons x ops)
  show ?case
  proof (cases x)
    case Acquire
    then show ?thesis
      using Cons.prems Cons.IH [of "c + 1" "DeletionMonitor_acquireRef d"]
      by (simp add: DeletionMonitor_acquireRef_def add.commute)
  next
    case Release
    then obtain c' where c: "c = Suc c'"
      using Cons.prems(1) by (cases c) auto
    let ?d = "d\<lparr>dm_refcount := dm_refcount d - 1\<rparr>"
    have r: "dm_refcount ?d = word_of_nat c'" "dm_refcount d - 1 = 0 \<longleftrightarrow> c' = 0"
      using Cons.prems(2,3) c word_of_nat_zero_iff [of c'] by simp_all
    have "fst (dm_run ops ?d) = (if 0 < c' \<and> dm_balance ops c' = 0 then [PushShared t] else [])"
      using Cons.IH [OF _ r(1)] Cons.prems Release c by simp
    moreover have "c' = 0 \<Longrightarrow> ops = []"
      using Cons.prems(1) Release c dm_legal_end by simp
    ultimately show ?thesis
      using Release c Cons.prems(4,5) r(2) by (auto simp: DeletionMonitor_releaseRef_def Let_def split: prod.split)
  next
    case Delete
    then show ?thesis
      using Cons.prems(1) by simp
  qed
qed auto

lemma dm_run_living:
  "dm_legal ops c False \<Longrightarrow> dm_refcount d = word_of_nat c \<Longrightarrow> c + 1 < 2 ^ 64 \<Longrightarrow> dm_deleteTask d = 0 \<Longrightarrow>
   fst (dm_run ops d) = (case delete_task ops of None \<Rightarrow> [] | Some t \<Rightarrow> if dm_balance ops c = 0 then [PushShared t] else [])"
proof (induction ops arbitrary: c d)
  case (Cons x ops)
  show ?case
  proof (cases x)
    case Acquire
    then show ?thesis
      using Cons.prems Cons.IH [of "c + 1" "DeletionMonitor_acquireRef d"]
      by (simp add: DeletionMonitor_acquireRef_def add.commute split: option.split)
  next
    case Release
    then obtain c' where c: "c = Suc c'"
      using Cons.prems(1) by (cases c) auto
    then show ?thesis
      using Cons.prems Release Cons.IH [of c' "d\<lparr>dm_refcount := dm_refcount d - 1\<rparr>"]
      by (simp add: DeletionMonitor_releaseRef_def Let_def split: prod.split option.split)
  next
    case (Delete t)
    let ?d = "d\<lparr>dm_deleteTask := t\<rparr>"
    have dm: "DeletionMonitor_doDelete t d = (if c = 0 then [PushShared t] else [], ?d)"
      using Cons.prems(2,3) word_of_nat_zero_iff [of c] by (simp add: DeletionMonitor_doDelete_def Let_def)
    have "fst (dm_run ops ?d) = (if 0 < c \<and> dm_balance ops c = 0 then [PushShared t] else [])"
      using dm_run_deleting [of ops c ?d t] Cons.prems Delete by simp
    moreover have "c = 0 \<Longrightarrow> ops = []"
      using Cons.prems(1) Delete dm_legal_end by simp
    ultimately show ?thesis
      using Delete dm by (auto split: prod.split)
  qed
qed simp

text \<open>
  C20. The deletion task of an object is scheduled exactly once: when deletion was requested and the
  last reference is gone, in whatever order the two happen, and never while a reference is held.
\<close>

theorem deletion_once:
  assumes "dm_legal ops 0 False"
  shows "fst (dm_run ops DeletionMonitor_init) =
    (case delete_task ops of None \<Rightarrow> [] | Some t \<Rightarrow> if dm_balance ops 0 = 0 then [PushShared t] else [])"
  using dm_run_living [OF assms] by (simp add: DeletionMonitor_init_def)

theorem deletion_once_witness:
  "dm_legal [Acquire, Acquire, Release, Delete 64, Release] 0 False \<and>
   fst (dm_run [Acquire, Acquire, Release, Delete 64, Release] DeletionMonitor_init) = [PushShared 64]"
  using deletion_once [of "[Acquire, Acquire, Release, Delete 64, Release]"] by simp

section \<open>Handing over the mutex\<close>

text \<open>
  The combiner marks the task of the thread that shall take over, but running the task first marks it
  as unused. The critical section then reports that it is done, the waiting thread leaves, and nobody
  owns the queue any more although it was not released.
\<close>

lemma handover_lost:
  assumes "n < length ts" "\<forall>t\<in>set ts. tk_next t = CH_INIT \<and> tk_handler t > va"
  shows "MutexDelegating_process va n ts = Some (replicate (Suc n) DONE, False)"
  using assms
proof (induction va n ts rule: MutexDelegating_process.induct)
  case (2 va t ts)
  then show ?case
    by (simp add: TaskletBase_run_def mutex_task_done_def ch_defs)
next
  case (3 va n t ts)
  then show ?case
    by (simp add: TaskletBase_run_def mutex_task_done_def ch_defs)
qed simp

text \<open>Up to the limit every section is done and the queue is released.\<close>

lemma mutex_released:
  assumes "length ts \<le> n" "\<forall>t\<in>set ts. tk_next t = CH_INIT \<and> tk_handler t > va"
  shows "MutexDelegating_process va n ts = Some (replicate (length ts) DONE, True)"
  using assms
proof (induction va n ts rule: MutexDelegating_process.induct)
  case (3 va n t ts)
  then show ?case
    by (simp add: TaskletBase_run_def mutex_task_done_def ch_defs)
qed simp_all

end
