(* ===== verification/Places.thy ===== *)
theory Places
  imports Monitors
begin

text \<open>
  The scheduler of one hardware thread: \<^verbatim>\<open>kernel/async/monitor-common/async/Place.hh\<close> and \<^verbatim>\<open>Place.cc\<close>. A
  place has a queue of pending tasks and one of urgent synchronous tasks. Running a task is an
  argument: a function from the task and the place to the place afterwards, which may not return.
  Interrupts sent to other threads are recorded. The loops are partial functions, since tasks may keep
  queueing tasks.
\<close>

section \<open>State and operations\<close>

record place =
  pl_id :: u64
  pl_threadID :: u64
  pl_apicID :: u64
  pl_nesting :: bool
  pl_cr3 :: u64
  pl_queue :: tq
  pl_queueSync :: tq
  pl_wakeups :: nat
  pl_ran :: "u64 list"

type_synonym handler = "u64 \<Rightarrow> place \<Rightarrow> place option"

definition Place_init :: "u64 \<Rightarrow> u64 \<Rightarrow> place \<Rightarrow> place" where
  "Place_init threadID apicID p =
     p\<lparr>pl_threadID := threadID, pl_apicID := apicID, pl_nesting := True,
       pl_queue := snd (ChainFIFO_tryAcquire (pl_queue p)), pl_queueSync := snd (ChainFIFO_tryAcquire (pl_queueSync p))\<rparr>"

definition Place_wakeup :: "place \<Rightarrow> place" where
  "Place_wakeup p = p\<lparr>pl_wakeups := pl_wakeups p + 1\<rparr>"

definition Place_pushPrivate :: "u64 \<Rightarrow> u64 \<Rightarrow> place \<Rightarrow> place option" where
  "Place_pushPrivate local_place msg p = do {
     ASSERT (pl_id p = local_place);
     ASSERT (msg \<noteq> 0);
     (b, q) \<leftarrow> ChainFIFO_pushPrivate msg (pl_queue p);
     Some (p\<lparr>pl_queue := q\<rparr>) }"

definition Place_pushShared :: "u64 \<Rightarrow> place \<Rightarrow> place option" where
  "Place_pushShared msg p = do {
     ASSERT (msg \<noteq> 0);
     (first, q) \<leftarrow> ChainFIFO_push msg (pl_queue p);
     let p = p\<lparr>pl_queue := q\<rparr>;
     Some (if first then Place_wakeup p else p) }"

definition Place_preempt :: "place \<Rightarrow> bool \<times> place" where
  "Place_preempt p =
     (let (acquired, q) = ChainFIFO_tryAcquire (pl_queue p); p = p\<lparr>pl_queue := q\<rparr> in
      if acquired then (True, Place_wakeup p) else (False, p))"

definition Place_pushSync :: "u64 \<Rightarrow> place \<Rightarrow> place option" where
  "Place_pushSync msg p = do {
     ASSERT (msg \<noteq> 0);
     (first, q) \<leftarrow> ChainFIFO_push msg (pl_queueSync p);
     let p = p\<lparr>pl_queueSync := q\<rparr>;
     Some (if first then snd (Place_preempt p) else p) }"

definition Place_runLocal :: "handler \<Rightarrow> u64 \<Rightarrow> u64 \<Rightarrow> bool \<Rightarrow> place \<Rightarrow> place option" where
  "Place_runLocal run local_place msg may_inline p = do {
     ASSERT (pl_id p = local_place);
     if \<not> may_inline then Place_pushPrivate local_place msg p else run msg p }"

definition Place_run :: "handler \<Rightarrow> u64 \<Rightarrow> u64 \<Rightarrow> bool \<Rightarrow> place \<Rightarrow> place option" where
  "Place_run run local_place msg may_inline p =
     (if pl_id p = local_place then Place_runLocal run local_place msg may_inline p else Place_pushShared msg p)"

definition Place_enterKernel :: "place \<Rightarrow> bool \<times> place" where
  "Place_enterKernel p =
     (let p = p\<lparr>pl_queue := snd (ChainFIFO_tryAcquire (pl_queue p))\<rparr>;
          p = p\<lparr>pl_queueSync := snd (ChainFIFO_tryAcquire (pl_queueSync p))\<rparr> in
      (pl_nesting p, p\<lparr>pl_nesting := True\<rparr>))"

partial_function (option) Place_processSyncTasks :: "handler \<Rightarrow> place \<Rightarrow> place option" where
  "Place_processSyncTasks run p =
     Option.bind (ChainFIFO_pull (pl_queueSync p)) (\<lambda>(msg, q).
       let p = p\<lparr>pl_queueSync := q\<rparr> in
       if msg \<noteq> 0 then Option.bind (run msg p) (Place_processSyncTasks run) else Some p)"

partial_function (option) Place_processTasks_loop :: "handler \<Rightarrow> place \<Rightarrow> place option" where
  "Place_processTasks_loop run p =
     Option.bind (Place_processSyncTasks run p) (\<lambda>p.
       Option.bind (ChainFIFO_pull (pl_queue p)) (\<lambda>(msg, q).
         let p = p\<lparr>pl_queue := q\<rparr> in
         if msg \<noteq> 0 then Option.bind (run msg p) (Place_processTasks_loop run)
         else
           let (r1, q1) = ChainFIFO_tryRelease (pl_queue p); p = p\<lparr>pl_queue := q1\<rparr> in
           if r1 then
             let (r2, q2) = ChainFIFO_tryRelease (pl_queueSync p); p = p\<lparr>pl_queueSync := q2\<rparr> in
             if r2 then Some p else Place_processTasks_loop run p
           else Place_processTasks_loop run p))"

definition Place_processTasks :: "handler \<Rightarrow> place \<Rightarrow> place option" where
  "Place_processTasks run p = do { p \<leftarrow> Place_processTasks_loop run p; Some (p\<lparr>pl_nesting := False\<rparr>) }"

text \<open>The second result says whether the page table register was loaded.\<close>

definition Place_setCR3 :: "u64 \<Rightarrow> u64 \<Rightarrow> place \<Rightarrow> (place \<times> bool) option" where
  "Place_setCR3 local_place v p = do {
     ASSERT (pl_id p = local_place);
     Some (if pl_cr3 p \<noteq> v then (p\<lparr>pl_cr3 := v\<rparr>, True) else (p, False)) }"

definition Place_getCR3 :: "u64 \<Rightarrow> u64 \<Rightarrow> place \<Rightarrow> u64 option" where
  "Place_getCR3 local_place cr3 p = do { ASSERT (implies (pl_id p = local_place) (cr3 = pl_cr3 p)); Some (pl_cr3 p) }"

section \<open>Waking up a place\<close>

text \<open>
  A place is woken exactly when nobody owned its queue: a task pushed to a place that is inside the
  kernel needs no interrupt, and a task pushed to an idle place raises one.
\<close>

lemma pushShared_wakeup:
  assumes "tq_rep (pl_queue p) l ts" "tq_ready (pl_queue p) t"
  shows "\<exists>p'. Place_pushShared t p = Some p' \<and> tq_rep (pl_queue p') True (ts @ [t]) \<and>
    pl_wakeups p' = pl_wakeups p + (if l then 0 else 1) \<and> pl_queueSync p' = pl_queueSync p"
proof -
  obtain q where "ChainFIFO_push t (pl_queue p) = Some (\<not> l, q)" "tq_rep q True (ts @ [t])"
    using push_rep [OF assms] by blast
  moreover have "t \<noteq> 0"
    using assms(2) by (auto simp: tq_ready_def is_task_def)
  ultimately show ?thesis
    by (simp add: Place_pushShared_def Place_wakeup_def)
qed

lemma tryAcquire_rep:
  "tq_rep q l ts \<Longrightarrow> fst (ChainFIFO_tryAcquire q) = (\<not> l) \<and> tq_rep (snd (ChainFIFO_tryAcquire q)) True ts"
proof -
  assume rep: "tq_rep q l ts"
  then obtain ps ss where c: "tq_chains q l ps ss"
    by (auto simp: tq_rep_def)
  then have free: "tq_shared q = CH_FREE \<longleftrightarrow> \<not> l"
    using is_task_neq by (cases ss) (auto simp: tq_chains_def ch_defs)
  show ?thesis
  proof (cases l)
    case True
    then show ?thesis
      using rep free by (simp add: ChainFIFO_tryAcquire_def)
  next
    case False
    then show ?thesis
      using rep free by (auto simp: ChainFIFO_tryAcquire_def tq_rep_def tq_chains_def)
  qed
qed

lemma pushSync_wakeup:
  assumes "tq_rep (pl_queueSync p) l' us" "tq_rep (pl_queue p) l ts" "tq_ready (pl_queueSync p) t"
  shows "\<exists>p'. Place_pushSync t p = Some p' \<and> tq_rep (pl_queueSync p') True (us @ [t]) \<and> tq_rep (pl_queue p') (\<not> l' \<or> l) ts \<and>
    pl_wakeups p' = pl_wakeups p + (if l \<or> l' then 0 else 1)"
proof -
  obtain q where "ChainFIFO_push t (pl_queueSync p) = Some (\<not> l', q)" "tq_rep q True (us @ [t])"
    using push_rep [OF assms(1,3)] by blast
  moreover have "t \<noteq> 0"
    using assms(3) by (auto simp: tq_ready_def is_task_def)
  moreover have "fst (ChainFIFO_tryAcquire (pl_queue p)) = (\<not> l)" "tq_rep (snd (ChainFIFO_tryAcquire (pl_queue p))) True ts"
    using tryAcquire_rep [OF assms(2)] by simp_all
  ultimately show ?thesis
    using assms(2) by (cases l'; cases l) (auto simp: Place_pushSync_def Place_preempt_def Place_wakeup_def Let_def split: prod.splits)
qed

section \<open>Processing all tasks\<close>

text \<open>Tasks that queue nothing: they only leave a trace.\<close>

definition quiet_run :: handler where
  "quiet_run t p = Some (p\<lparr>pl_ran := pl_ran p @ [t]\<rparr>)"

lemma processSyncTasks_quiet:
  "tq_rep (pl_queueSync p) True us \<Longrightarrow>
   \<exists>q. Place_processSyncTasks quiet_run p = Some (p\<lparr>pl_queueSync := q, pl_ran := pl_ran p @ us\<rparr>) \<and> tq_rep q True [] \<and>
     fst (ChainFIFO_tryRelease q) \<and> tq_rep (snd (ChainFIFO_tryRelease q)) False []"
proof (induction us arbitrary: p)
  case Nil
  then show ?case
    using pull_empty_rep [of "pl_queueSync p"] by (subst Place_processSyncTasks.simps) auto
next
  case (Cons u us)
  then obtain q where q: "ChainFIFO_pull (pl_queueSync p) = Some (u, q)" "tq_rep q True us" "u \<noteq> 0"
    using chain_fifo.pull by blast
  have "quiet_run u (p\<lparr>pl_queueSync := q\<rparr>) = Some (p\<lparr>pl_queueSync := q, pl_ran := pl_ran p @ [u]\<rparr>)"
    by (simp add: quiet_run_def)
  then have "Place_processSyncTasks quiet_run p = Place_processSyncTasks quiet_run (p\<lparr>pl_queueSync := q, pl_ran := pl_ran p @ [u]\<rparr>)"
    using q by (subst Place_processSyncTasks.simps) simp
  then show ?case
    using Cons.IH [of "p\<lparr>pl_queueSync := q, pl_ran := pl_ran p @ [u]\<rparr>"] q(2) by simp
qed

lemma processTasks_loop_quiet:
  "tq_rep (pl_queueSync p) True us \<Longrightarrow> tq_rep (pl_queue p) True ts \<Longrightarrow>
   \<exists>q q'. Place_processTasks_loop quiet_run p = Some (p\<lparr>pl_queue := q, pl_queueSync := q', pl_ran := pl_ran p @ us @ ts\<rparr>) \<and>
     tq_rep q False [] \<and> tq_rep q' False []"
proof (induction ts arbitrary: p us)
  case Nil
  obtain q where s: "Place_processSyncTasks quiet_run p = Some (p\<lparr>pl_queueSync := q, pl_ran := pl_ran p @ us\<rparr>)"
    "fst (ChainFIFO_tryRelease q)" "tq_rep (snd (ChainFIFO_tryRelease q)) False []"
    using processSyncTasks_quiet [OF Nil(1)] by blast
  obtain q' where "ChainFIFO_pull (pl_queue p) = Some (0, q')" "fst (ChainFIFO_tryRelease q')"
    "tq_rep (snd (ChainFIFO_tryRelease q')) False []"
    using pull_empty_rep [OF Nil(2)] by blast
  then show ?case
    using s by (subst Place_processTasks_loop.simps)
      (intro exI [of _ "snd (ChainFIFO_tryRelease q')"] exI [of _ "snd (ChainFIFO_tryRelease q)"], auto split: prod.split)
next
  case (Cons t ts)
  obtain q where s: "Place_processSyncTasks quiet_run p = Some (p\<lparr>pl_queueSync := q, pl_ran := pl_ran p @ us\<rparr>)" "tq_rep q True []"
    using processSyncTasks_quiet [OF Cons.prems(1)] by blast
  obtain q' where q': "ChainFIFO_pull (pl_queue p) = Some (t, q')" "tq_rep q' True ts" "t \<noteq> 0"
    using chain_fifo.pull [OF Cons.prems(2)] by blast
  have "Place_processTasks_loop quiet_run p =
      Place_processTasks_loop quiet_run (p\<lparr>pl_queueSync := q, pl_queue := q', pl_ran := pl_ran p @ us @ [t]\<rparr>)"
    using s(1) q' by (subst Place_processTasks_loop.simps) (simp add: quiet_run_def [of t])
  then show ?case
    using Cons.IH [of "p\<lparr>pl_queueSync := q, pl_queue := q', pl_ran := pl_ran p @ us @ [t]\<rparr>" "[]"] s(2) q'(2) by simp
qed


definition ex_place :: place where
  "ex_place = \<lparr>pl_id = 1, pl_threadID = 0, pl_apicID = 0, pl_nesting = True, pl_cr3 = 0,
     pl_queue = \<lparr>tq_private = CH_FREE, tq_shared = 128, tq_next = (\<lambda>t. if t = 128 then 64 else CH_LOCKED)\<rparr>,
     pl_queueSync = \<lparr>tq_private = CH_FREE, tq_shared = CH_LOCKED, tq_next = (\<lambda>t. CH_INIT)\<rparr>, pl_wakeups = 0, pl_ran = []\<rparr>"


end
