(* ===== verification/Bitfield.thy ===== *)
theory Bitfield
  imports Mythos_Prelude
begin

text \<open>
  Bit fields of machine words, from \<^verbatim>\<open>kernel/util/bitfield/util/bitfield.hh\<close>.
  The templates \<^verbatim>\<open>UIntField\<close> and \<^verbatim>\<open>BoolField\<close> take the first bit and the width as template
  arguments; here they are ordinary arguments, and the value type is any word type.
  The lemmas give the laws every packed structure of the kernel relies on: reading back what was
  written, and independence of fields that do not overlap.
\<close>

section \<open>Definitions\<close>

definition UIntField_MASK :: "nat \<Rightarrow> nat \<Rightarrow> 'a::len word" where
  "UIntField_MASK START BITS = ucast (push_bit START (push_bit BITS 1 - 1 :: u64))"

definition UIntField_put :: "nat \<Rightarrow> nat \<Rightarrow> 'a::len word \<Rightarrow> u64 \<Rightarrow> 'a word" where
  "UIntField_put START BITS val v =
     (val AND NOT (UIntField_MASK START BITS)) OR (ucast (push_bit START v) AND UIntField_MASK START BITS)"

definition UIntField_call :: "nat \<Rightarrow> nat \<Rightarrow> 'a::len word \<Rightarrow> u64 \<Rightarrow> 'a word option" where
  "UIntField_call START BITS val v = do { ASSERT (drop_bit BITS v = 0); Some (UIntField_put START BITS val v) }"

definition UIntField_get :: "nat \<Rightarrow> nat \<Rightarrow> 'a::len word \<Rightarrow> 'a word" where
  "UIntField_get START BITS val = drop_bit START (val AND UIntField_MASK START BITS)"

text \<open>Pre- and post-increment return the value of the counter and the updated word.\<close>

definition UIntField_preinc :: "nat \<Rightarrow> nat \<Rightarrow> 'a::len word \<Rightarrow> ('a word \<times> 'a word) option" where
  "UIntField_preinc START BITS val =
     (let v = UIntField_get START BITS val in
      do { val' \<leftarrow> UIntField_call START BITS val (ucast v + 1); Some (v + 1, val') })"

definition UIntField_postinc :: "nat \<Rightarrow> nat \<Rightarrow> 'a::len word \<Rightarrow> ('a word \<times> 'a word) option" where
  "UIntField_postinc START BITS val =
     (let v = UIntField_get START BITS val in
      do { val' \<leftarrow> UIntField_call START BITS val (ucast v + 1); Some (v, val') })"

definition BoolField_MASK :: "nat \<Rightarrow> 'a::len word" where
  "BoolField_MASK START = ucast (push_bit START (1 :: u64))"

definition BoolField_put :: "nat \<Rightarrow> 'a::len word \<Rightarrow> bool \<Rightarrow> 'a word" where
  "BoolField_put START val v =
     (val AND NOT (BoolField_MASK START))
       OR (ucast (push_bit START (if v then 1 else 0 :: u64)) AND BoolField_MASK START)"

definition BoolField_get :: "nat \<Rightarrow> 'a::len word \<Rightarrow> bool" where
  "BoolField_get START val \<longleftrightarrow> drop_bit START (val AND BoolField_MASK START) \<noteq> 0"

section \<open>Which bits a field occupies\<close>

lemma drop_bit_zero_bound:
  assumes "drop_bit k (v :: 'a::len word) = 0" "bit v n"
  shows "n < k"
proof (rule ccontr)
  assume "\<not> n < k"
  then have "bit (drop_bit k v) (n - k)"
    using assms(2) by (simp add: bit_drop_bit_eq)
  with assms(1) show False
    by simp
qed

lemma bit_UIntField_MASK:
  assumes "START + BITS \<le> LENGTH('a)" "LENGTH('a) \<le> 64"
  shows "bit (UIntField_MASK START BITS :: 'a::len word) n \<longleftrightarrow> START \<le> n \<and> n < START + BITS"
proof -
  have "(push_bit BITS 1 - 1 :: u64) = mask BITS"
    by (simp add: mask_eq_exp_minus_1 push_bit_of_1)
  then show ?thesis
    using assms by (auto simp: UIntField_MASK_def bit_ucast_iff bit_push_bit_iff bit_mask_iff bit_simps)
qed

lemma bit_UIntField_put:
  fixes val :: "'a::len word"
  assumes "START + BITS \<le> LENGTH('a)" "LENGTH('a) \<le> 64"
  shows "bit (UIntField_put START BITS val v) n \<longleftrightarrow>
    (if START \<le> n \<and> n < START + BITS then bit v (n - START) else bit val n)"
  using assms bit_imp_le_length [of val n]
  by (auto simp: UIntField_put_def bit_UIntField_MASK bit_simps)

lemma bit_UIntField_get:
  fixes val :: "'a::len word"
  assumes "START + BITS \<le> LENGTH('a)" "LENGTH('a) \<le> 64"
  shows "bit (UIntField_get START BITS val) n \<longleftrightarrow> n < BITS \<and> bit val (START + n)"
  using assms by (auto simp: UIntField_get_def bit_UIntField_MASK bit_simps add.commute)

lemma bit_BoolField_MASK:
  assumes "START < LENGTH('a)" "LENGTH('a) \<le> 64"
  shows "bit (BoolField_MASK START :: 'a::len word) n \<longleftrightarrow> n = START"
  using assms by (auto simp: BoolField_MASK_def bit_simps)

lemma bit_BoolField_put:
  fixes val :: "'a::len word"
  assumes "START < LENGTH('a)" "LENGTH('a) \<le> 64"
  shows "bit (BoolField_put START val v) n \<longleftrightarrow> (if n = START then v else bit val n)"
  using assms bit_imp_le_length [of val n]
  by (auto simp: BoolField_put_def bit_BoolField_MASK bit_simps)

lemma BoolField_get_bit:
  fixes val :: "'a::len word"
  assumes "START < LENGTH('a)" "LENGTH('a) \<le> 64"
  shows "BoolField_get START val \<longleftrightarrow> bit val START"
proof
  assume "BoolField_get START val"
  then obtain n where "bit (drop_bit START (val AND BoolField_MASK START)) n"
    by (auto simp: BoolField_get_def bit_eq_iff)
  then show "bit val START"
    using assms by (auto simp: bit_simps bit_BoolField_MASK)
next
  assume "bit val START"
  then have "bit (drop_bit START (val AND BoolField_MASK START)) 0"
    using assms by (simp add: bit_simps bit_BoolField_MASK)
  then show "BoolField_get START val"
    by (auto simp: BoolField_get_def simp del: bit_0)
qed

lemmas field_bits = bit_UIntField_put bit_UIntField_get bit_BoolField_put

section \<open>Laws of fields\<close>

lemma UIntField_get_put:
  fixes val :: "'a::len word"
  assumes "START + BITS \<le> LENGTH('a)" "LENGTH('a) \<le> 64" "drop_bit BITS v = 0"
  shows "UIntField_get START BITS (UIntField_put START BITS val v) = ucast v"
proof (rule bit_word_eqI)
  fix n assume "n < LENGTH('a)"
  moreover have "bit v n \<Longrightarrow> n < BITS"
    using assms(3) by (rule drop_bit_zero_bound)
  ultimately show "bit (UIntField_get START BITS (UIntField_put START BITS val v)) n = bit (ucast v :: 'a word) n"
    using assms(1,2) by (auto simp: field_bits bit_simps)
qed

lemma UIntField_get_put_other:
  fixes val :: "'a::len word"
  assumes "START + BITS \<le> LENGTH('a)" "START' + BITS' \<le> LENGTH('a)" "LENGTH('a) \<le> 64"
    and "START + BITS \<le> START' \<or> START' + BITS' \<le> START"
  shows "UIntField_get START' BITS' (UIntField_put START BITS val v) = UIntField_get START' BITS' val"
  by (rule bit_word_eqI) (use assms in \<open>auto simp: field_bits\<close>)

lemma UIntField_put_put:
  fixes val :: "'a::len word"
  assumes "START + BITS \<le> LENGTH('a)" "LENGTH('a) \<le> 64"
  shows "UIntField_put START BITS (UIntField_put START BITS val v) w = UIntField_put START BITS val w"
  by (rule bit_word_eqI) (use assms in \<open>auto simp: field_bits\<close>)

lemma UIntField_put_commute:
  fixes val :: "'a::len word"
  assumes "START + BITS \<le> LENGTH('a)" "START' + BITS' \<le> LENGTH('a)" "LENGTH('a) \<le> 64"
    and "START + BITS \<le> START' \<or> START' + BITS' \<le> START"
  shows "UIntField_put START BITS (UIntField_put START' BITS' val w) v =
    UIntField_put START' BITS' (UIntField_put START BITS val v) w"
  by (rule bit_word_eqI) (use assms in \<open>auto simp: field_bits\<close>)

lemma BoolField_get_put:
  fixes val :: "'a::len word"
  assumes "START < LENGTH('a)" "LENGTH('a) \<le> 64"
  shows "BoolField_get START (BoolField_put START val v) \<longleftrightarrow> v"
  using assms by (simp add: BoolField_get_bit bit_BoolField_put)

lemma BoolField_get_put_other:
  fixes val :: "'a::len word"
  assumes "START < LENGTH('a)" "START' < LENGTH('a)" "LENGTH('a) \<le> 64" "START \<noteq> START'"
  shows "BoolField_get START' (BoolField_put START val v) \<longleftrightarrow> BoolField_get START' val"
  using assms by (simp add: BoolField_get_bit bit_BoolField_put)

lemma UIntField_get_BoolField_put:
  fixes val :: "'a::len word"
  assumes "START + BITS \<le> LENGTH('a)" "B < LENGTH('a)" "LENGTH('a) \<le> 64" "B < START \<or> START + BITS \<le> B"
  shows "UIntField_get START BITS (BoolField_put B val v) = UIntField_get START BITS val"
  by (rule bit_word_eqI) (use assms in \<open>auto simp: field_bits\<close>)

lemma BoolField_get_UIntField_put:
  fixes val :: "'a::len word"
  assumes "START + BITS \<le> LENGTH('a)" "B < LENGTH('a)" "LENGTH('a) \<le> 64" "B < START \<or> START + BITS \<le> B"
  shows "BoolField_get B (UIntField_put START BITS val v) \<longleftrightarrow> BoolField_get B val"
  using assms by (auto simp: BoolField_get_bit field_bits)

lemmas field_laws = UIntField_get_put UIntField_get_put_other BoolField_get_put BoolField_get_put_other
  UIntField_get_BoolField_put BoolField_get_UIntField_put

end
