(* ===== verification/Cap_Value.thy ===== *)
theory Cap_Value
  imports Phys_Ptr Bitfield
begin

text \<open>
  The immutable capability value of \<^verbatim>\<open>kernel/objects/common/objects/Cap.hh\<close>: a 64-bit word whose
  lower half holds a compressed object pointer (29 bits) and the three flags transition, reference
  and derived, and whose upper half holds the rights data. The union with the struct
  \<^verbatim>\<open>Fields\<close> is modelled by the bit positions the amd64 ABI gives its members. Assigning to a member
  truncates, hence \<^const>\<open>UIntField_put\<close> without the assertion of the template.
\<close>

section \<open>Layout\<close>

type_synonym cap = u64

datatype CapFlags = CapFlags u8

definition NOFLAG :: u8 where "NOFLAG = 0"
definition DERIVED_FLAG :: u8 where "DERIVED_FLAG = 1"
definition REFERENCE_FLAG :: u8 where "REFERENCE_FLAG = 2"
definition TRANSITION_FLAG :: u8 where "TRANSITION_FLAG = 4"

definition f_ptr :: "cap \<Rightarrow> u64" where "f_ptr c = UIntField_get 0 29 c"
definition f_trans :: "cap \<Rightarrow> bool" where "f_trans c = BoolField_get 29 c"
definition f_ref :: "cap \<Rightarrow> bool" where "f_ref c = BoolField_get 30 c"
definition f_der :: "cap \<Rightarrow> bool" where "f_der c = BoolField_get 31 c"
definition f_data :: "cap \<Rightarrow> u32" where "f_data c = ucast (UIntField_get 32 32 c)"

definition set_ptr :: "cap \<Rightarrow> u32 \<Rightarrow> cap" where "set_ptr c x = UIntField_put 0 29 c (ucast x)"
definition set_trans :: "cap \<Rightarrow> bool \<Rightarrow> cap" where "set_trans c b = BoolField_put 29 c b"
definition set_ref :: "cap \<Rightarrow> bool \<Rightarrow> cap" where "set_ref c b = BoolField_put 30 c b"
definition set_der :: "cap \<Rightarrow> bool \<Rightarrow> cap" where "set_der c b = BoolField_put 31 c b"
definition set_data :: "cap \<Rightarrow> u32 \<Rightarrow> cap" where "set_data c d = UIntField_put 32 32 c (ucast d)"

section \<open>Operations\<close>

definition packPtr :: "u64 \<Rightarrow> u32 option" where
  "packPtr ptr =
     (if ptr = 0 then Some 0
      else do { off \<leftarrow> kernel2offset ptr; ASSERT (off AND 7 = 0); Some (drop_bit 3 off) })"

definition cap_null :: cap where "cap_null = 0"

text \<open>The members are assigned in the order of the constructor; together they cover all 64 bits.\<close>

definition mk_cap :: "u64 \<Rightarrow> u32 \<Rightarrow> u8 \<Rightarrow> cap option" where
  "mk_cap ptr data flags = do {
     p \<leftarrow> packPtr ptr;
     let c = set_ptr 0 (p AND 0x1FFFFFFF);
     let c = set_trans c (bit flags 2);
     let c = set_ref c (bit flags 1);
     let c = set_der c (bit flags 0);
     Some (set_data c data) }"

definition cap_getPtr :: "cap \<Rightarrow> u64" where
  "cap_getPtr c = (if f_ptr c \<noteq> 0 then ucast (push_bit 3 (ucast (f_ptr c) :: u32)) + KERNELMEM_ADDR else 0)"

definition cap_isDerived :: "cap \<Rightarrow> bool" where "cap_isDerived c = f_der c"
definition cap_isReference :: "cap \<Rightarrow> bool" where "cap_isReference c = f_ref c"
definition cap_isOriginal :: "cap \<Rightarrow> bool" where
  "cap_isOriginal c \<longleftrightarrow> \<not> cap_isDerived c \<and> \<not> cap_isReference c"
definition cap_isDerivedReference :: "cap \<Rightarrow> bool" where
  "cap_isDerivedReference c \<longleftrightarrow> cap_isDerived c \<and> cap_isReference c"

definition cap_isEmpty :: "cap \<Rightarrow> bool" where "cap_isEmpty c \<longleftrightarrow> c = 0"
definition cap_inTransition :: "cap \<Rightarrow> bool" where "cap_inTransition c = f_trans c"
definition cap_isAllocated :: "cap \<Rightarrow> bool" where
  "cap_isAllocated c \<longleftrightarrow> f_ptr c = 0 \<and> cap_inTransition c"
definition cap_isZombie :: "cap \<Rightarrow> bool" where
  "cap_isZombie c \<longleftrightarrow> f_ptr c \<noteq> 0 \<and> cap_inTransition c"
definition cap_isUsable :: "cap \<Rightarrow> bool" where
  "cap_isUsable c \<longleftrightarrow> f_ptr c \<noteq> 0 \<and> \<not> cap_inTransition c"

definition cap_data :: "cap \<Rightarrow> u32" where "cap_data c = f_data c"

definition cap_asZombie :: "cap \<Rightarrow> cap" where "cap_asZombie c = set_trans c True"
definition cap_asDerived :: "cap \<Rightarrow> cap" where "cap_asDerived c = set_der c True"
definition cap_asReference :: "cap \<Rightarrow> cap" where "cap_asReference c = set_ref c True"
definition cap_stripReference :: "cap \<Rightarrow> cap" where "cap_stripReference c = set_ref c False"
definition cap_asOriginal :: "cap \<Rightarrow> cap" where "cap_asOriginal c = set_der (set_ref c False) False"

definition cap_withPtr :: "cap \<Rightarrow> u64 \<Rightarrow> cap option" where
  "cap_withPtr c ptr = do { p \<leftarrow> packPtr ptr; Some (set_ptr c (p AND 0x1FFFFFFF)) }"

definition cap_withData :: "cap \<Rightarrow> u32 \<Rightarrow> cap" where "cap_withData c d = set_data c d"
definition cap_asEmpty :: cap where "cap_asEmpty = cap_null"
definition cap_asAllocated :: cap where "cap_asAllocated = set_trans cap_null True"

definition cap_asReferenceData :: "cap \<Rightarrow> u32 \<Rightarrow> cap" where
  "cap_asReferenceData c d = cap_withData (cap_asReference c) d"

definition cap_asReferencePtrData :: "cap \<Rightarrow> u64 \<Rightarrow> u32 \<Rightarrow> cap option" where
  "cap_asReferencePtrData c ptr d =
     do { c' \<leftarrow> cap_withPtr (cap_asReference c) ptr; Some (cap_withData c' d) }"

section \<open>Fields are independent\<close>

lemmas cap_field_defs = f_ptr_def f_trans_def f_ref_def f_der_def f_data_def
  set_ptr_def set_trans_def set_ref_def set_der_def set_data_def

lemma drop_29_small:
  assumes "x AND 0x1FFFFFFF = (x :: u32)" shows "drop_bit 29 (ucast x :: u64) = 0"
proof -
  have "(0x1FFFFFFF :: u32) = mask 29"
    by (simp add: mask_eq_exp_minus_1)
  then have "bit x n \<Longrightarrow> n < 29" for n
    using assms by (metis bit_and_iff bit_mask_iff)
  then show ?thesis
    by (auto intro!: bit_word_eqI simp: bit_simps) (metis not_add_less1)
qed

lemma drop_32_ucast: "drop_bit 32 (ucast (x :: u32) :: u64) = 0"
  by (rule bit_word_eqI) (auto simp: bit_simps dest: bit_imp_le_length)

lemma f_ptr_set [simp]:
  "f_ptr (set_trans c b) = f_ptr c" "f_ptr (set_ref c b) = f_ptr c" "f_ptr (set_der c b) = f_ptr c"
  "f_ptr (set_data c d) = f_ptr c"
  by (simp_all add: cap_field_defs field_laws)

lemma f_ptr_set_ptr: "x AND 0x1FFFFFFF = x \<Longrightarrow> f_ptr (set_ptr c x) = ucast x"
  by (simp add: cap_field_defs field_laws drop_29_small)

lemma f_trans_set [simp]:
  "f_trans (set_trans c b) = b" "f_trans (set_ref c b) = f_trans c" "f_trans (set_der c b) = f_trans c"
  "f_trans (set_data c d) = f_trans c" "f_trans (set_ptr c x) = f_trans c"
  by (simp_all add: cap_field_defs field_laws)

lemma f_ref_set [simp]:
  "f_ref (set_trans c b) = f_ref c" "f_ref (set_ref c b) = b" "f_ref (set_der c b) = f_ref c"
  "f_ref (set_data c d) = f_ref c" "f_ref (set_ptr c x) = f_ref c"
  by (simp_all add: cap_field_defs field_laws)

lemma f_der_set [simp]:
  "f_der (set_trans c b) = f_der c" "f_der (set_ref c b) = f_der c" "f_der (set_der c b) = b"
  "f_der (set_data c d) = f_der c" "f_der (set_ptr c x) = f_der c"
  by (simp_all add: cap_field_defs field_laws)

lemma f_data_set [simp]:
  "f_data (set_trans c b) = f_data c" "f_data (set_ref c b) = f_data c" "f_data (set_der c b) = f_data c"
  "f_data (set_data c d) = d" "f_data (set_ptr c x) = f_data c"
  by (simp_all add: cap_field_defs field_laws drop_32_ucast)

lemma fields_zero [simp]:
  "f_ptr 0 = 0" "\<not> f_trans 0" "\<not> f_ref 0" "\<not> f_der 0" "f_data 0 = 0"
  by (simp_all add: cap_field_defs UIntField_get_def BoolField_get_def)

section \<open>The value is determined by its fields\<close>

lemma f_trans_bit: "f_trans c \<longleftrightarrow> bit c 29"
  by (simp add: f_trans_def BoolField_get_bit)

lemma f_ref_bit: "f_ref c \<longleftrightarrow> bit c 30"
  by (simp add: f_ref_def BoolField_get_bit)

lemma f_der_bit: "f_der c \<longleftrightarrow> bit c 31"
  by (simp add: f_der_def BoolField_get_bit)

lemma bit_f_ptr: "bit (f_ptr c) n \<longleftrightarrow> n < 29 \<and> bit c n"
  by (simp add: f_ptr_def bit_UIntField_get)

lemma bit_f_data: "bit (f_data c) n \<longleftrightarrow> n < 32 \<and> bit c (32 + n)"
  by (auto simp: f_data_def bit_UIntField_get bit_simps)

lemma cap_eqI:
  assumes "f_ptr c = f_ptr d" "f_trans c = f_trans d" "f_ref c = f_ref d" "f_der c = f_der d"
    "f_data c = f_data d"
  shows "c = d"
proof (rule bit_word_eqI)
  fix n
  have ptr: "n < 29 \<Longrightarrow> bit c n = bit d n"
    using assms(1) bit_f_ptr [of c n] bit_f_ptr [of d n] by simp
  have data: "32 \<le> n \<Longrightarrow> n < 64 \<Longrightarrow> bit c n = bit d n"
    using assms(5) bit_f_data [of c "n - 32"] bit_f_data [of d "n - 32"] by auto
  assume "n < LENGTH(64)"
  then have "n < 29 \<or> n = 29 \<or> n = 30 \<or> n = 31 \<or> 32 \<le> n \<and> n < 64"
    by auto
  then show "bit c n = bit d n"
    using ptr data assms(2-4) by (auto simp: f_trans_bit f_ref_bit f_der_bit)
qed

lemmas cap_state_defs = cap_isEmpty_def cap_inTransition_def cap_isAllocated_def cap_isZombie_def
  cap_isUsable_def cap_isDerived_def cap_isReference_def cap_isOriginal_def cap_isDerivedReference_def

lemmas cap_update_defs = cap_asZombie_def cap_asDerived_def cap_asReference_def cap_stripReference_def
  cap_asOriginal_def cap_withData_def cap_asEmpty_def cap_asAllocated_def cap_null_def cap_asReferenceData_def

section \<open>States of an entry's capability\<close>

lemma cap_isAllocated_asAllocated [simp]: "cap_isAllocated cap_asAllocated"
  by (simp add: cap_state_defs cap_update_defs)

lemma cap_isEmpty_null [simp]: "cap_isEmpty cap_null" "cap_isEmpty cap_asEmpty"
  by (simp_all add: cap_state_defs cap_update_defs)

lemma cap_states_exclusive:
  "\<not> (cap_isUsable c \<and> cap_isZombie c)" "\<not> (cap_isUsable c \<and> cap_isAllocated c)"
  "\<not> (cap_isZombie c \<and> cap_isAllocated c)" "cap_isEmpty c \<Longrightarrow> \<not> cap_isUsable c"
  "cap_isEmpty c \<Longrightarrow> \<not> cap_isZombie c" "cap_isEmpty c \<Longrightarrow> \<not> cap_isAllocated c"
  by (auto simp: cap_state_defs)

lemma cap_isUsable_not_Allocated [simp]: "cap_isUsable c \<Longrightarrow> \<not> cap_isAllocated c"
  by (auto simp: cap_state_defs)

lemma cap_asZombie_zombie [simp]: "f_ptr c \<noteq> 0 \<Longrightarrow> cap_isZombie (cap_asZombie c)"
  by (simp add: cap_state_defs cap_update_defs)

lemma cap_asZombie_usable [simp]: "cap_isUsable c \<Longrightarrow> cap_isZombie (cap_asZombie c)"
  by (simp add: cap_isUsable_def)

lemma cap_asZombie_idem [simp]: "cap_asZombie (cap_asZombie c) = cap_asZombie c"
  by (rule cap_eqI) (simp_all add: cap_update_defs)

lemma cap_asZombie_of_zombie [simp]: "cap_isZombie c \<Longrightarrow> cap_asZombie c = c"
  by (rule cap_eqI) (simp_all add: cap_update_defs cap_state_defs)

lemma cap_getPtr_set [simp]:
  "cap_getPtr (set_trans c b) = cap_getPtr c" "cap_getPtr (set_ref c b) = cap_getPtr c"
  "cap_getPtr (set_der c b) = cap_getPtr c" "cap_getPtr (set_data c d) = cap_getPtr c"
  by (simp_all add: cap_getPtr_def)

lemma cap_getPtr_zombie [simp]: "cap_getPtr (cap_asZombie c) = cap_getPtr c"
  by (simp add: cap_asZombie_def)

lemma cap_asZombie_flags [simp]:
  "cap_isDerived (cap_asZombie c) = cap_isDerived c" "cap_isReference (cap_asZombie c) = cap_isReference c"
  "cap_isOriginal (cap_asZombie c) = cap_isOriginal c" "cap_data (cap_asZombie c) = cap_data c"
  "cap_isDerivedReference (cap_asZombie c) = cap_isDerivedReference c"
  by (simp_all add: cap_state_defs cap_update_defs cap_data_def)

lemma cap_getPtr_nonzero: "f_ptr c \<noteq> 0 \<Longrightarrow> isKernelAddress (cap_getPtr c)"
  by (simp add: cap_getPtr_def)

section \<open>Pointers in capabilities\<close>

definition obj_ptr_ok :: "u64 \<Rightarrow> bool" where
  "obj_ptr_ok p \<longleftrightarrow> isKernelAddress p \<and> p \<noteq> KERNELMEM_ADDR \<and> (p - KERNELMEM_ADDR) AND 7 = 0"

lemma drop3_mask29 [simp]: "drop_bit 3 (x :: u32) AND 0x1FFFFFFF = drop_bit 3 x"
  by (rule bit_word_eqI) (auto simp: bit_simps dest: bit_imp_le_length)

lemma push3_drop3: "(x :: u32) AND 7 = 0 \<Longrightarrow> push_bit 3 (drop_bit 3 x) = x"
proof (rule bit_word_eqI)
  fix n assume "x AND 7 = 0" "n < LENGTH(32)"
  then have "\<not> (bit x n \<and> n < 3)"
    by (metis bit_7_iff bit_and_iff bit_0_eq bot_apply bot_bool_def)
  then show "bit (push_bit 3 (drop_bit 3 x)) n = bit x n"
    using \<open>n < LENGTH(32)\<close> by (auto simp: bit_simps)
qed

lemma and_7_eq_0: "(x :: 'a::len word) AND 7 = 0 \<longleftrightarrow> (\<forall>n<3. \<not> bit x n)"
  by (auto simp: bit_eq_iff bit_simps dest: bit_imp_le_length)

lemma ucast_and_7: "ucast (x :: u64) AND 7 = (0 :: u32) \<longleftrightarrow> x AND 7 = 0"
  unfolding and_7_eq_0 by (auto simp: bit_simps)

lemma packPtr_ok:
  assumes "obj_ptr_ok p"
  shows "packPtr p = Some (drop_bit 3 (ucast (p - KERNELMEM_ADDR)))"
proof -
  have "p \<noteq> 0"
    using assms by (auto simp: obj_ptr_ok_def isKernelAddress_def KERNELMEM_ADDR_def)
  then show ?thesis
    using assms by (simp add: packPtr_def kernel2offset_def obj_ptr_ok_def ucast_and_7)
qed

text \<open>An aligned pointer into the kernel area, other than its very first byte, survives packing.\<close>

lemma cap_getPtr_set_ptr:
  assumes "obj_ptr_ok p"
  shows "cap_getPtr (set_ptr c (drop_bit 3 (ucast (p - KERNELMEM_ADDR)))) = p"
proof -
  let ?off = "ucast (p - KERNELMEM_ADDR) :: u32"
  have off: "?off AND 7 = 0" and p: "ucast ?off + KERNELMEM_ADDR = p"
    using assms by (simp_all add: obj_ptr_ok_def ucast_and_7 ucast_down_up_kernel)
  have "?off \<noteq> 0"
  proof
    assume "?off = 0"
    with p have "p = KERNELMEM_ADDR"
      by (metis add_0 ucast_0)
    with assms show False
      by (simp add: obj_ptr_ok_def)
  qed
  then have "drop_bit 3 ?off \<noteq> 0"
    using push3_drop3 [OF off] by (metis push_bit_of_0)
  then have "ucast (drop_bit 3 ?off) \<noteq> (0 :: u64)"
    by (metis ucast_ucast_u32 ucast_0)
  then show ?thesis
    using off p by (simp add: cap_getPtr_def f_ptr_set_ptr push3_drop3)
qed

lemma mk_cap_object:
  assumes "obj_ptr_ok p"
  obtains c where "mk_cap p 0 0 = Some c" "cap_getPtr c = p" "cap_isOriginal c"
  using assms cap_getPtr_set_ptr [OF assms, of 0]
  by (auto simp: mk_cap_def packPtr_ok Let_def cap_state_defs cap_data_def cap_isOriginal_def)

text \<open>
  C1. Packing an object pointer, rights data and flags into a capability value loses nothing: for
  every 8-byte aligned address inside the kernel area except its first byte, the constructor
  succeeds and the accessors return the pointer, the data and each of the three flags.
\<close>

theorem mk_cap_roundtrip:
  assumes "obj_ptr_ok p"
  shows "\<exists>c. mk_cap p d fl = Some c \<and> cap_getPtr c = p \<and> cap_data c = d \<and>
     cap_isDerived c = bit fl 0 \<and> cap_isReference c = bit fl 1 \<and> cap_inTransition c = bit fl 2"
  using assms cap_getPtr_set_ptr [OF assms, of 0]
  by (simp add: mk_cap_def packPtr_ok Let_def cap_state_defs cap_data_def)

theorem mk_cap_roundtrip_witness:
  "obj_ptr_ok 0xffff800000001000 \<and>
   (\<exists>c. mk_cap 0xffff800000001000 7 2 = Some c \<and> cap_getPtr c = 0xffff800000001000 \<and> cap_data c = 7 \<and>
     cap_isDerived c = bit (2::u8) 0 \<and> cap_isReference c = bit (2::u8) 1 \<and> cap_inTransition c = bit (2::u8) 2)"
proof -
  have h: "obj_ptr_ok 0xffff800000001000"
    by (simp add: obj_ptr_ok_def isKernelAddress_def layout_defs)
  show ?thesis
    using h mk_cap_roundtrip [OF h, of 7 2] by blast
qed

end
