(* ===== verification/Cap_Ring.thy ===== *)
theory Cap_Ring
  imports Cap_Value
begin

text \<open>
  The data of \<^verbatim>\<open>kernel/objects/capability-spinning/objects/CapEntry.hh\<close>: capability entries live
  in kernel memory and are linked into one doubly linked ring. Each link is a 32-bit word with the
  kernel offset of the neighbour and three flag bits. The store maps the address of an entry to its
  three atomic words.

  The second half is the shape theory of the ring: \<open>ring s xs\<close> says that following the next links
  from the head of \<open>xs\<close> visits exactly \<open>xs\<close> and returns to the head, and that the previous links
  are the inverse. It comes with the three pointer surgeries (insert, replace, remove) the
  operations perform, stated for any state change with the right effect on links.
\<close>

section \<open>Entries and links\<close>

record cap_entry =
  ce_cap :: cap
  ce_prev :: u32
  ce_next :: u32

type_synonym store = "u64 \<Rightarrow> cap_entry"

definition LOCKED_FLAG :: u32 where "LOCKED_FLAG = 1"
definition REVOKING_FLAG :: u32 where "REVOKING_FLAG = 2"
definition DELETED_FLAG :: u32 where "DELETED_FLAG = 4"
definition LINK_FLAG_MASK :: u32 where "LINK_FLAG_MASK = 7"

definition empty_entry :: cap_entry where
  "empty_entry = \<lparr>ce_cap = cap_null, ce_prev = 0, ce_next = 0\<rparr>"

definition link_pack_offset :: "u32 \<Rightarrow> u32 \<Rightarrow> u32 option" where
  "link_pack_offset off flags = do {
     ASSERT (flags OR LINK_FLAG_MASK = LINK_FLAG_MASK);
     ASSERT (off AND LINK_FLAG_MASK = 0);
     Some (off OR flags) }"

definition link_pack :: "u64 \<Rightarrow> u32 \<Rightarrow> u32 option" where
  "link_pack entry flags = do {
     off \<leftarrow> (if entry \<noteq> 0 then kernel2offset entry else Some 0);
     link_pack_offset off flags }"

definition link_offset :: "u32 \<Rightarrow> u32" where
  "link_offset v = v AND NOT LINK_FLAG_MASK"

definition link_flags :: "u32 \<Rightarrow> u32" where
  "link_flags v = v AND LINK_FLAG_MASK"

definition link_ptr :: "u32 \<Rightarrow> u64" where
  "link_ptr v = (let offset = link_offset v in if offset \<noteq> 0 then ucast offset + KERNELMEM_ADDR else 0)"

definition link_withFlags :: "u32 \<Rightarrow> u32 \<Rightarrow> u32 option" where
  "link_withFlags v flags = link_pack_offset (link_offset v) flags"

definition link_withoutFlags :: "u32 \<Rightarrow> u32 option" where
  "link_withoutFlags v = link_pack_offset (link_offset v) 0"

definition link_withPtr :: "u32 \<Rightarrow> u64 \<Rightarrow> u32 option" where
  "link_withPtr v ptr = link_pack ptr (link_flags v)"

text \<open>The arrow operator of a link asserts that the link is not null.\<close>

definition link_arrow :: "u32 \<Rightarrow> u64 option" where
  "link_arrow v = do { ASSERT (link_ptr v \<noteq> 0); Some (link_ptr v) }"

section \<open>Reading an entry\<close>

definition nextp :: "store \<Rightarrow> u64 \<Rightarrow> u64" where "nextp s p = link_ptr (ce_next (s p))"
definition prevp :: "store \<Rightarrow> u64 \<Rightarrow> u64" where "prevp s p = link_ptr (ce_prev (s p))"
definition is_locked :: "store \<Rightarrow> u64 \<Rightarrow> bool" where
  "is_locked s p \<longleftrightarrow> ce_next (s p) AND LOCKED_FLAG \<noteq> 0"
definition isRevoking :: "store \<Rightarrow> u64 \<Rightarrow> bool" where
  "isRevoking s p \<longleftrightarrow> ce_prev (s p) AND REVOKING_FLAG \<noteq> 0"
definition isDeleted :: "store \<Rightarrow> u64 \<Rightarrow> bool" where
  "isDeleted s p \<longleftrightarrow> ce_prev (s p) AND DELETED_FLAG \<noteq> 0"
definition isLinked :: "store \<Rightarrow> u64 \<Rightarrow> bool" where
  "isLinked s p \<longleftrightarrow> cap_isAllocated (ce_cap (s p)) \<and> nextp s p \<noteq> 0 \<and> prevp s p \<noteq> 0"
definition isUnlinked :: "store \<Rightarrow> u64 \<Rightarrow> bool" where
  "isUnlinked s p \<longleftrightarrow> cap_isZombie (ce_cap (s p)) \<and> nextp s p = 0 \<and> prevp s p = 0"

section \<open>Links carry a pointer and flags\<close>

abbreviation lnk :: "u64 \<Rightarrow> u32 \<Rightarrow> u32" where
  "lnk p fl \<equiv> ucast (p - KERNELMEM_ADDR) OR fl"

lemmas link_flag_defs = LOCKED_FLAG_def REVOKING_FLAG_def DELETED_FLAG_def LINK_FLAG_MASK_def

definition small_flags :: "u32 \<Rightarrow> bool" where
  "small_flags f \<longleftrightarrow> f AND LINK_FLAG_MASK = f"

lemma small_flags_bit: "small_flags f \<longleftrightarrow> (\<forall>n. bit f n \<longrightarrow> n < 3)"
proof
  assume "small_flags f"
  then have "bit f n \<Longrightarrow> bit (f AND 7) n" for n
    by (simp add: small_flags_def link_flag_defs)
  then show "\<forall>n. bit f n \<longrightarrow> n < 3"
    by (auto simp: bit_and_iff)
next
  assume "\<forall>n. bit f n \<longrightarrow> n < 3"
  then show "small_flags f"
    unfolding small_flags_def link_flag_defs by (intro bit_word_eqI) (auto simp: bit_and_iff)
qed

lemma small_flags_simps [simp]:
  "small_flags 0" "small_flags 1" "small_flags 2" "small_flags 4" "small_flags (link_flags v)"
  by (simp_all add: small_flags_def link_flag_defs link_flags_def and.assoc)

lemma or_7_eq_7: "(x :: u32) OR 7 = 7 \<longleftrightarrow> small_flags x"
proof
  assume *: "x OR 7 = 7"
  have "bit x n \<Longrightarrow> bit (x OR 7) n" for n
    by (simp add: bit_or_iff)
  then show "small_flags x"
    unfolding * by (auto simp: small_flags_bit)
next
  assume "small_flags x"
  then show "x OR 7 = 7"
    by (intro bit_word_eqI) (auto simp: bit_or_iff small_flags_bit)
qed

lemma obj_ptr_ok_nonzero [simp]: "obj_ptr_ok p \<Longrightarrow> p \<noteq> 0"
  by (auto simp: obj_ptr_ok_def isKernelAddress_def KERNELMEM_ADDR_def)

lemma link_pack_ok [link_simps]:
  assumes "obj_ptr_ok p" "small_flags fl"
  shows "link_pack p fl = Some (lnk p fl)"
  using assms
  by (simp add: link_pack_def link_pack_offset_def kernel2offset_def obj_ptr_ok_def ucast_and_7
      link_flag_defs or_7_eq_7)

lemma bit_link_offset: "bit (link_offset v) n \<longleftrightarrow> 3 \<le> n \<and> bit v n"
proof -
  have m: "bit LINK_FLAG_MASK n \<longleftrightarrow> n < 3"
    by (auto simp: LINK_FLAG_MASK_def)
  have "bit v n \<Longrightarrow> n < 32"
    using bit_imp_le_length [of v n] by simp
  then show ?thesis
    unfolding link_offset_def bit_and_iff bit_not_iff m by auto
qed

lemma bit_link_flags: "bit (link_flags v) n \<longleftrightarrow> n < 3 \<and> bit v n"
  by (auto simp: link_flags_def link_flag_defs bit_simps dest: bit_imp_le_length)

lemma bit_aligned_ptr:
  assumes "obj_ptr_ok p" "bit (ucast (p - KERNELMEM_ADDR) :: u32) n"
  shows "3 \<le> n"
proof -
  have "(ucast (p - KERNELMEM_ADDR) :: u32) AND 7 = 0"
    using assms(1) by (simp add: obj_ptr_ok_def ucast_and_7)
  with assms(2) show ?thesis
    by (meson and_7_eq_0 not_le)
qed

lemma link_flags_lnk [link_simps]:
  assumes "obj_ptr_ok p" "small_flags fl"
  shows "link_flags (lnk p fl) = fl"
  using assms bit_aligned_ptr [OF assms(1)]
  by (intro bit_word_eqI) (force simp: bit_link_flags bit_or_iff small_flags_bit)

lemma link_offset_lnk [link_simps]:
  assumes "obj_ptr_ok p" "small_flags fl"
  shows "link_offset (lnk p fl) = ucast (p - KERNELMEM_ADDR)"
  using assms bit_aligned_ptr [OF assms(1)]
  by (intro bit_word_eqI) (force simp: bit_link_offset bit_or_iff small_flags_bit)

lemma link_ptr_lnk [link_simps]:
  assumes "obj_ptr_ok p" "small_flags fl"
  shows "link_ptr (lnk p fl) = p"
proof -
  have p: "ucast (ucast (p - KERNELMEM_ADDR) :: u32) + KERNELMEM_ADDR = p"
    using assms(1) by (simp add: obj_ptr_ok_def ucast_down_up_kernel)
  moreover have "(ucast (p - KERNELMEM_ADDR) :: u32) \<noteq> 0"
  proof
    assume "(ucast (p - KERNELMEM_ADDR) :: u32) = 0"
    with p have "p = KERNELMEM_ADDR"
      by (metis add_0 ucast_0)
    with assms(1) show False
      by (simp add: obj_ptr_ok_def)
  qed
  ultimately show ?thesis
    using assms by (simp add: link_ptr_def link_offset_lnk Let_def)
qed

lemma link_withoutFlags_eq [link_simps]: "link_withoutFlags v = Some (link_offset v)"
proof -
  have "link_offset v AND 7 = 0"
    by (simp add: and_7_eq_0 bit_link_offset)
  then show ?thesis
    by (simp add: link_withoutFlags_def link_pack_offset_def link_flag_defs)
qed

lemma link_withPtr_eq [link_simps]: "obj_ptr_ok p \<Longrightarrow> link_withPtr v p = Some (lnk p (link_flags v))"
  by (simp add: link_withPtr_def link_pack_ok)

lemma link_ptr_cong: "link_offset v = link_offset w \<Longrightarrow> link_ptr v = link_ptr w"
  by (simp add: link_ptr_def)

lemma link_offset_idem [simp]: "link_offset (link_offset v) = link_offset v"
  by (rule bit_word_eqI) (auto simp: bit_link_offset)

lemma link_ptr_offset [simp]: "link_ptr (link_offset v) = link_ptr v"
  by (rule link_ptr_cong) simp

lemma link_ptr_or_flag [simp]: "small_flags f \<Longrightarrow> link_ptr (v OR f) = link_ptr v"
  by (rule link_ptr_cong, rule bit_word_eqI) (auto simp: bit_link_offset bit_or_iff small_flags_bit)

lemma link_ptr_and_flag [simp]: "small_flags f \<Longrightarrow> link_ptr (v AND NOT f) = link_ptr v"
  by (rule link_ptr_cong, rule bit_word_eqI)
    (auto simp: bit_link_offset bit_and_iff bit_not_iff small_flags_bit dest: bit_imp_le_length)

lemma link_ptr_zero [simp]: "link_ptr 0 = 0"
  by (simp add: link_ptr_def link_offset_def)

lemma and_push_bit_1: "n < 32 \<Longrightarrow> (v :: u32) AND push_bit n 1 = 0 \<longleftrightarrow> \<not> bit v n"
  by (metis and_exp_eq_0_iff_not_bit push_bit_of_1)

lemma flag_bits [simp]:
  "(v :: u32) AND LOCKED_FLAG = 0 \<longleftrightarrow> \<not> bit v 0" "v AND REVOKING_FLAG = 0 \<longleftrightarrow> \<not> bit v 1"
  "v AND DELETED_FLAG = 0 \<longleftrightarrow> \<not> bit v 2"
  using and_push_bit_1 [of 0 v] and_push_bit_1 [of 1 v] and_push_bit_1 [of 2 v]
  by (simp_all add: link_flag_defs)

section \<open>The ring\<close>

fun links :: "store \<Rightarrow> u64 list \<Rightarrow> bool" where
  "links s (x # y # zs) \<longleftrightarrow> nextp s x = y \<and> prevp s y = x \<and> links s (y # zs)"
| "links s xs \<longleftrightarrow> True"

definition ring :: "store \<Rightarrow> u64 list \<Rightarrow> bool" where
  "ring s xs \<longleftrightarrow> xs \<noteq> [] \<and> distinct xs \<and> (\<forall>x\<in>set xs. obj_ptr_ok x) \<and> links s (xs @ [hd xs])"

lemma links_append: "links s (xs @ y # zs) \<longleftrightarrow> links s (xs @ [y]) \<and> links s (y # zs)"
  by (induction s xs rule: links.induct) (auto simp: neq_Nil_conv)

lemma links_snoc:
  "xs \<noteq> [] \<Longrightarrow> links s (xs @ [y]) \<longleftrightarrow> links s xs \<and> nextp s (last xs) = y \<and> prevp s y = last xs"
  by (induction s xs rule: links.induct) auto

lemma links_cong:
  assumes "\<And>x. x \<in> set (butlast xs) \<Longrightarrow> nextp s' x = nextp s x"
    and "\<And>x. x \<in> set (tl xs) \<Longrightarrow> prevp s' x = prevp s x"
  shows "links s' xs \<longleftrightarrow> links s xs"
  using assms
proof (induction s xs rule: links.induct)
  case (1 s x y zs)
  have "links s' (y # zs) \<longleftrightarrow> links s (y # zs)"
    using "1.prems" by (intro "1.IH") auto
  with "1.prems" show ?case
    by auto
qed auto

lemma ring_cong:
  assumes "\<And>x. x \<in> set xs \<Longrightarrow> nextp s' x = nextp s x" "\<And>x. x \<in> set xs \<Longrightarrow> prevp s' x = prevp s x"
  shows "ring s' xs \<longleftrightarrow> ring s xs"
proof (cases xs)
  case (Cons y ys)
  then have "links s' (xs @ [hd xs]) \<longleftrightarrow> links s (xs @ [hd xs])"
    using assms by (intro links_cong) auto
  then show ?thesis
    by (simp add: ring_def)
qed (simp add: ring_def)

lemma ring_rotate1: "ring s (x # ys) \<longleftrightarrow> ring s (ys @ [x])"
proof (cases ys)
  case (Cons y zs)
  then show ?thesis
    using links_append [of s "y # zs" x "[y]"] by (auto simp: ring_def)
qed simp

lemma ring_rotate: "ring s (xs @ ys) \<longleftrightarrow> ring s (ys @ xs)"
proof (induction xs arbitrary: ys)
  case (Cons x xs)
  have "ring s ((x # xs) @ ys) \<longleftrightarrow> ring s (xs @ (ys @ [x]))"
    using ring_rotate1 [of s x "xs @ ys"] by simp
  also have "\<dots> \<longleftrightarrow> ring s ((ys @ [x]) @ xs)"
    by (rule Cons.IH)
  finally show ?case
    by simp
qed simp

lemma ring_split: "ring s (ys @ p # zs) \<longleftrightarrow> ring s (p # zs @ ys)"
  using ring_rotate [of s ys "p # zs"] by simp

lemma ring_memE:
  assumes "ring s xs" "p \<in> set xs"
  obtains zs where "ring s (p # zs)" "set xs = insert p (set zs)" "length xs = Suc (length zs)"
proof -
  obtain as bs where xs: "xs = as @ p # bs"
    using assms(2) by (meson split_list)
  show ?thesis
    by (rule that [of "bs @ as"]) (use assms(1) xs in \<open>auto simp: ring_split\<close>)
qed

lemma ring_ok: "ring s xs \<Longrightarrow> x \<in> set xs \<Longrightarrow> obj_ptr_ok x"
  by (simp add: ring_def)

lemma ring_next: "ring s (p # zs) \<Longrightarrow> nextp s p = hd (zs @ [p])"
  by (cases zs) (auto simp: ring_def)

lemma ring_prev_next: "ring s (p # zs) \<Longrightarrow> prevp s (hd (zs @ [p])) = p"
  by (cases zs) (auto simp: ring_def)

lemma ring_prev: "ring s (p # zs) \<Longrightarrow> prevp s p = last (p # zs)"
  using links_snoc [of "p # zs" s p] by (simp add: ring_def)

lemma ring_next_prev: "ring s (p # zs) \<Longrightarrow> nextp s (last (p # zs)) = p"
  using links_snoc [of "p # zs" s p] by (simp add: ring_def)

lemma ring_closed:
  assumes "ring s xs" "p \<in> set xs"
  shows "nextp s p \<in> set xs" "prevp s p \<in> set xs"
proof -
  obtain zs where *: "ring s (p # zs)" "set xs = insert p (set zs)"
    using ring_memE [OF assms] by metis
  show "nextp s p \<in> set xs"
    using ring_next [OF *(1)] *(2) by (cases zs) auto
  show "prevp s p \<in> set xs"
    using ring_prev [OF *(1)] *(2) by (auto simp: last_in_set split: if_splits)
qed

section \<open>Pointer surgery\<close>

lemma ring_insert:
  assumes r: "ring s (p # zs)" and t: "obj_ptr_ok t" "t \<notin> set (p # zs)"
    and new: "nextp s' p = t" "prevp s' t = p" "nextp s' t = hd (zs @ [p])" "prevp s' (hd (zs @ [p])) = t"
    and next_frame: "\<And>x. x \<in> set zs \<Longrightarrow> nextp s' x = nextp s x"
    and prev_frame: "\<And>x. x \<in> set (p # zs) \<Longrightarrow> x \<noteq> hd (zs @ [p]) \<Longrightarrow> prevp s' x = prevp s x"
  shows "ring s' (p # t # zs)"
proof -
  obtain n rest where n: "zs @ [p] = n # rest"
    by (cases zs) auto
  have d: "distinct (n # rest)" "set (butlast (n # rest)) \<subseteq> set zs" "set (n # rest) = set (p # zs)"
    using r n [symmetric] by (auto simp: ring_def)
  have "links s (n # rest)"
    using r n by (simp add: ring_def)
  moreover have "links s' (n # rest) \<longleftrightarrow> links s (n # rest)"
  proof (rule links_cong)
    show "nextp s' x = nextp s x" if "x \<in> set (butlast (n # rest))" for x
      using that d by (intro next_frame) auto
    show "prevp s' x = prevp s x" if "x \<in> set (tl (n # rest))" for x
      using that d n by (intro prev_frame) auto
  qed
  ultimately have "links s' (p # t # n # rest)"
    using new n by simp
  then show ?thesis
    using r t n by (auto simp: ring_def)
qed

lemma links_kept:
  assumes "links s zs" "distinct zs"
    and "\<And>x. x \<in> set zs \<Longrightarrow> x \<noteq> last zs \<Longrightarrow> nextp s' x = nextp s x"
    and "\<And>x. x \<in> set zs \<Longrightarrow> x \<noteq> hd zs \<Longrightarrow> prevp s' x = prevp s x"
  shows "links s' zs"
proof -
  have "links s' zs \<longleftrightarrow> links s zs"
  proof (rule links_cong)
    show "nextp s' x = nextp s x" if "x \<in> set (butlast zs)" for x
      using that assms(2) by (intro assms(3)) (auto simp: in_set_butlastD dest: distinct_butlast_neq_last)
    show "prevp s' x = prevp s x" if "x \<in> set (tl zs)" for x
      using that assms(2) by (intro assms(4)) (cases zs; auto)+
  qed
  with assms(1) show ?thesis
    by simp
qed

lemma ring_replace:
  assumes r: "ring s (p # zs)" and zs: "zs \<noteq> []" and t: "obj_ptr_ok t" "t \<notin> set zs"
    and new: "nextp s' t = hd zs" "prevp s' (hd zs) = t" "nextp s' (last zs) = t" "prevp s' t = last zs"
    and next_frame: "\<And>x. x \<in> set zs \<Longrightarrow> x \<noteq> last zs \<Longrightarrow> nextp s' x = nextp s x"
    and prev_frame: "\<And>x. x \<in> set zs \<Longrightarrow> x \<noteq> hd zs \<Longrightarrow> prevp s' x = prevp s x"
  shows "ring s' (t # zs)"
proof -
  obtain n rest where n: "zs = n # rest"
    using zs by (cases zs) auto
  have "links s zs" "distinct zs"
    using r n links_snoc [of zs s p] by (simp_all add: ring_def)
  then have "links s' zs"
    by (rule links_kept) (fact next_frame prev_frame)+
  then have "links s' (zs @ [t])"
    using new zs by (simp add: links_snoc)
  then show ?thesis
    using r t n new by (auto simp: ring_def)
qed

lemma ring_remove:
  assumes r: "ring s (p # zs)" and zs: "zs \<noteq> []"
    and new: "nextp s' (last zs) = hd zs" "prevp s' (hd zs) = last zs"
    and next_frame: "\<And>x. x \<in> set zs \<Longrightarrow> x \<noteq> last zs \<Longrightarrow> nextp s' x = nextp s x"
    and prev_frame: "\<And>x. x \<in> set zs \<Longrightarrow> x \<noteq> hd zs \<Longrightarrow> prevp s' x = prevp s x"
  shows "ring s' zs"
proof -
  obtain n rest where n: "zs = n # rest"
    using zs by (cases zs) auto
  have "links s zs" "distinct zs"
    using r n links_snoc [of zs s p] by (simp_all add: ring_def)
  then have "links s' zs"
    by (rule links_kept) (fact next_frame prev_frame)+
  then have "links s' (zs @ [hd zs])"
    using new zs by (simp add: links_snoc)
  then show ?thesis
    using r n by (auto simp: ring_def)
qed

end
