(* ===== verification/Cap_Entry.thy ===== *)
theory Cap_Entry
  imports Cap_Ring
begin

text \<open>
  The operations of \<^verbatim>\<open>CapEntry\<close>, from \<^verbatim>\<open>kernel/objects/capability-spinning/objects/CapEntry.hh\<close> and
  \<^verbatim>\<open>CapEntry.cc\<close>, as one thread executes them when no other thread interferes: the loops around
  \<^verbatim>\<open>try_lock\<close> and \<^verbatim>\<open>try_lock_prev\<close> are partial functions, so a lock that somebody else holds makes the
  operation not return (\<^term>\<open>None\<close>), as does a failed assertion; a compare-and-exchange loop succeeds
  in its first round.

  The main results say that each operation returns, and describe its effect on the ring as a list
  operation: \<^verbatim>\<open>insertAfter\<close> puts the new entry directly behind its parent, \<^verbatim>\<open>moveTo\<close> replaces an entry
  in place, \<^verbatim>\<open>unlink\<close> removes one; all leave every entry unlocked that was unlocked before.
\<close>

section \<open>Updates of one word of an entry\<close>

definition put_cap :: "u64 \<Rightarrow> cap \<Rightarrow> store \<Rightarrow> store" where
  "put_cap p c s = s(p := (s p)\<lparr>ce_cap := c\<rparr>)"

definition put_prev :: "u64 \<Rightarrow> u32 \<Rightarrow> store \<Rightarrow> store" where
  "put_prev p v s = s(p := (s p)\<lparr>ce_prev := v\<rparr>)"

definition put_next :: "u64 \<Rightarrow> u32 \<Rightarrow> store \<Rightarrow> store" where
  "put_next p v s = s(p := (s p)\<lparr>ce_next := v\<rparr>)"

section \<open>Operations\<close>

definition CapEntry_initRoot :: "u64 \<Rightarrow> cap \<Rightarrow> store \<Rightarrow> store option" where
  "CapEntry_initRoot this c s = do {
     ASSERT (isKernelAddress this);
     ASSERT (cap_isUsable c);
     ASSERT (cap_isEmpty (ce_cap (s this)));
     loopLink \<leftarrow> link_pack this 0;
     let s = put_next this loopLink s;
     let s = put_prev this loopLink s;
     Some (put_cap this c s) }"

definition CapEntry_setRevoking :: "u64 \<Rightarrow> store \<Rightarrow> bool \<times> store" where
  "CapEntry_setRevoking this s =
     (\<not> isRevoking s this, put_prev this (ce_prev (s this) OR REVOKING_FLAG) s)"

definition CapEntry_finishRevoke :: "u64 \<Rightarrow> store \<Rightarrow> store" where
  "CapEntry_finishRevoke this s = put_prev this (ce_prev (s this) AND NOT REVOKING_FLAG) s"

definition CapEntry_setDeleted :: "u64 \<Rightarrow> store \<Rightarrow> store" where
  "CapEntry_setDeleted this s = put_prev this (ce_prev (s this) OR DELETED_FLAG) s"

definition CapEntry_tryAcquire :: "u64 \<Rightarrow> store \<Rightarrow> bool \<times> store" where
  "CapEntry_tryAcquire this s =
     (if ce_cap (s this) = cap_asEmpty then (True, put_cap this cap_asAllocated s) else (False, s))"

definition CapEntry_acquire :: "u64 \<Rightarrow> store \<Rightarrow> unit optional \<times> store" where
  "CapEntry_acquire this s =
     (let (ok, s) = CapEntry_tryAcquire this s in (if ok then Inr () else Inl CAP_NONEMPTY, s))"

definition CapEntry_commit :: "u64 \<Rightarrow> cap \<Rightarrow> store \<Rightarrow> store option" where
  "CapEntry_commit this c s = do { ASSERT (isLinked s this); Some (put_cap this c s) }"

definition CapEntry_reset :: "u64 \<Rightarrow> store \<Rightarrow> store option" where
  "CapEntry_reset this s = do {
     ASSERT (isUnlinked s this \<or> cap_isAllocated (ce_cap (s this)));
     let s = put_prev this 0 s;
     let s = put_next this 0 s;
     Some (put_cap this cap_null s) }"

definition CapEntry_setPrevPreserveFlags :: "u64 \<Rightarrow> u64 \<Rightarrow> store \<Rightarrow> store option" where
  "CapEntry_setPrevPreserveFlags this ptr s = do {
     desired \<leftarrow> link_withPtr (ce_prev (s this)) ptr;
     Some (put_prev this desired s) }"

definition CapEntry_try_lock :: "u64 \<Rightarrow> store \<Rightarrow> bool \<times> store" where
  "CapEntry_try_lock this s = (\<not> is_locked s this, put_next this (ce_next (s this) OR LOCKED_FLAG) s)"

partial_function (option) CapEntry_lock :: "u64 \<Rightarrow> store \<Rightarrow> store option" where
  "CapEntry_lock this s =
     (case CapEntry_try_lock this s of (ok, s') \<Rightarrow> if ok then Some s' else CapEntry_lock this s')"

definition CapEntry_unlock :: "u64 \<Rightarrow> store \<Rightarrow> store option" where
  "CapEntry_unlock this s = do {
     ASSERT (is_locked s this);
     Some (put_next this (ce_next (s this) AND NOT LOCKED_FLAG) s) }"

definition CapEntry_try_lock_prev :: "u64 \<Rightarrow> store \<Rightarrow> (Error \<times> store) option" where
  "CapEntry_try_lock_prev this s =
     (let prev = prevp s this in
      if prev = 0 then Some (GENERIC_ERROR, s)
      else (case CapEntry_try_lock prev s of (ok, s') \<Rightarrow>
        if ok then
          if prevp s' this = prev then Some (SUCCESS, s')
          else do { s'' \<leftarrow> CapEntry_unlock prev s'; Some (RETRY, s'') }
        else Some (RETRY, s')))"

partial_function (option) CapEntry_lock_prev :: "u64 \<Rightarrow> store \<Rightarrow> (bool \<times> store) option" where
  "CapEntry_lock_prev this s =
     Option.bind (CapEntry_try_lock_prev this s) (\<lambda>(result, s').
       if result = RETRY then CapEntry_lock_prev this s' else Some (result = SUCCESS, s'))"

definition CapEntry_unlock_prev :: "u64 \<Rightarrow> store \<Rightarrow> store option" where
  "CapEntry_unlock_prev this s = do {
     prev \<leftarrow> link_arrow (ce_prev (s this));
     CapEntry_unlock prev s }"

definition CapEntry_next :: "u64 \<Rightarrow> store \<Rightarrow> u64 option" where
  "CapEntry_next this s = do { ASSERT (is_locked s this); Some (nextp s this) }"

definition CapEntry_kill :: "u64 \<Rightarrow> store \<Rightarrow> bool \<times> store" where
  "CapEntry_kill this s =
     (let curCap = ce_cap (s this) in
      if \<not> cap_isUsable curCap then (cap_isZombie curCap, s)
      else (True, put_cap this (cap_asZombie curCap) s))"

definition CapEntry_unlink :: "u64 \<Rightarrow> store \<Rightarrow> store option" where
  "CapEntry_unlink this s = do {
     next \<leftarrow> link_withoutFlags (ce_next (s this));
     prev \<leftarrow> link_withoutFlags (ce_prev (s this));
     n \<leftarrow> link_arrow next;
     let s = put_prev n prev s;
     p \<leftarrow> link_arrow prev;
     let s = put_next p next s;
     let s = put_prev this 0 s;
     Some (put_next this 0 s) }"

definition CapEntry_moveTo :: "u64 \<Rightarrow> u64 \<Rightarrow> store \<Rightarrow> (unit optional \<times> store) option" where
  "CapEntry_moveTo this other s = do {
     ASSERT (cap_isAllocated (ce_cap (s other)));
     ASSERT (\<not> isLinked s other);
     (ok, s) \<leftarrow> CapEntry_lock_prev this s;
     if \<not> ok then do {
       s \<leftarrow> CapEntry_reset other s;
       Some (Inl GENERIC_ERROR, s) }
     else do {
       s \<leftarrow> CapEntry_lock this s;
       let thisCap = ce_cap (s this);
       if isRevoking s this \<or> \<not> cap_isUsable thisCap then do {
         s \<leftarrow> CapEntry_reset other s;
         s \<leftarrow> CapEntry_unlock this s;
         s \<leftarrow> CapEntry_unlock_prev this s;
         Some (Inl INVALID_CAPABILITY, s) }
       else do {
         next \<leftarrow> link_withoutFlags (ce_next (s this));
         prev \<leftarrow> link_withoutFlags (ce_prev (s this));
         n \<leftarrow> link_arrow next;
         s \<leftarrow> CapEntry_setPrevPreserveFlags n other s;
         let s = put_next other next s;
         let s = put_prev other prev s;
         p \<leftarrow> link_arrow prev;
         l \<leftarrow> link_pack other 0;
         let s = put_next p l s;
         s \<leftarrow> CapEntry_commit other thisCap s;
         let s = put_prev this 0 s;
         let s = put_next this 0 s;
         Some (Inr (), put_cap this cap_null s) } } }"

text \<open>
  \<^verbatim>\<open>insertAfter\<close> runs a commit function of its caller while the parent is locked. The caller's
  state is passed along; the commit may stop the kernel with an assertion of its own.
\<close>

definition CapEntry_insertAfter ::
  "u64 \<Rightarrow> cap \<Rightarrow> u64 \<Rightarrow> cap \<Rightarrow> (store \<Rightarrow> 'c \<Rightarrow> 'c option) \<Rightarrow> store \<Rightarrow> 'c
     \<Rightarrow> (unit optional \<times> store \<times> 'c) option" where
  "CapEntry_insertAfter this parentCap targetEntry targetCap commit s c = do {
     ASSERT (isKernelAddress this);
     ASSERT (cap_isAllocated (ce_cap (s targetEntry)));
     s \<leftarrow> CapEntry_lock this s;
     let curCap = ce_cap (s this);
     if \<not> cap_isUsable curCap \<or> curCap \<noteq> parentCap then do {
       s \<leftarrow> CapEntry_unlock this s;
       s \<leftarrow> CapEntry_reset targetEntry s;
       Some (Inl LOST_RACE, s, c) }
     else do {
       c \<leftarrow> commit s c;
       next \<leftarrow> link_withoutFlags (ce_next (s this));
       n \<leftarrow> link_arrow next;
       s \<leftarrow> CapEntry_setPrevPreserveFlags n targetEntry s;
       let s = put_next targetEntry next s;
       l \<leftarrow> link_pack this 0;
       let s = put_prev targetEntry l s;
       l' \<leftarrow> link_pack targetEntry 0;
       let s = put_next this l' s;
       s \<leftarrow> CapEntry_commit targetEntry targetCap s;
       Some (Inr (), s, c) } }"

section \<open>Reading after writing\<close>

lemma put_cap_simps [simp]:
  "ce_cap (put_cap p c s q) = (if q = p then c else ce_cap (s q))"
  "ce_prev (put_cap p c s q) = ce_prev (s q)" "ce_next (put_cap p c s q) = ce_next (s q)"
  by (simp_all add: put_cap_def)

lemma put_prev_simps [simp]:
  "ce_cap (put_prev p v s q) = ce_cap (s q)" "ce_next (put_prev p v s q) = ce_next (s q)"
  "ce_prev (put_prev p v s q) = (if q = p then v else ce_prev (s q))"
  by (simp_all add: put_prev_def)

lemma put_next_simps [simp]:
  "ce_cap (put_next p v s q) = ce_cap (s q)" "ce_prev (put_next p v s q) = ce_prev (s q)"
  "ce_next (put_next p v s q) = (if q = p then v else ce_next (s q))"
  by (simp_all add: put_next_def)

lemmas entry_reads = nextp_def prevp_def is_locked_def isRevoking_def isDeleted_def isLinked_def isUnlinked_def

lemma store_eqI: "(\<And>q. ce_cap (s q) = ce_cap (t q)) \<Longrightarrow> (\<And>q. ce_prev (s q) = ce_prev (t q)) \<Longrightarrow>
    (\<And>q. ce_next (s q) = ce_next (t q)) \<Longrightarrow> s = (t :: store)"
  by (rule ext) simp

lemma read_put_cap [simp]:
  "nextp (put_cap p c s) q = nextp s q" "prevp (put_cap p c s) q = prevp s q"
  "is_locked (put_cap p c s) q = is_locked s q" "isRevoking (put_cap p c s) q = isRevoking s q"
  "isDeleted (put_cap p c s) q = isDeleted s q"
  by (simp_all add: entry_reads)

lemma read_put_prev [simp]:
  "nextp (put_prev p v s) q = nextp s q" "prevp (put_prev p v s) q = (if q = p then link_ptr v else prevp s q)"
  "is_locked (put_prev p v s) q = is_locked s q"
  "isRevoking (put_prev p v s) q = (if q = p then bit v 1 else isRevoking s q)"
  "isDeleted (put_prev p v s) q = (if q = p then bit v 2 else isDeleted s q)"
  by (simp_all add: entry_reads)

lemma read_put_next [simp]:
  "nextp (put_next p v s) q = (if q = p then link_ptr v else nextp s q)" "prevp (put_next p v s) q = prevp s q"
  "is_locked (put_next p v s) q = (if q = p then bit v 0 else is_locked s q)"
  "isRevoking (put_next p v s) q = isRevoking s q" "isDeleted (put_next p v s) q = isDeleted s q"
  by (simp_all add: entry_reads)

lemma ring_put_cap [simp]: "ring (put_cap p c s) xs = ring s xs"
  by (rule ring_cong) simp_all

section \<open>Flags of a link\<close>

lemma bit_flag_consts [simp]:
  "bit LOCKED_FLAG n \<longleftrightarrow> n = 0" "bit REVOKING_FLAG n \<longleftrightarrow> n = 1" "bit DELETED_FLAG n \<longleftrightarrow> n = 2"
proof -
  have "(2 :: u32) = push_bit 1 1" "(4 :: u32) = push_bit 2 1"
    by simp_all
  then show "bit LOCKED_FLAG n \<longleftrightarrow> n = 0" "bit REVOKING_FLAG n \<longleftrightarrow> n = 1" "bit DELETED_FLAG n \<longleftrightarrow> n = 2"
    unfolding link_flag_defs by (auto simp only: bit_push_bit_iff bit_1_iff) auto
qed

lemma small_flag_consts [simp]: "small_flags LOCKED_FLAG" "small_flags REVOKING_FLAG" "small_flags DELETED_FLAG"
  by (simp_all add: link_flag_defs)

lemma or_locked_idem [simp]: "bit v 0 \<Longrightarrow> v OR LOCKED_FLAG = v"
  by (rule bit_word_eqI) (auto simp: bit_or_iff)

lemma or_and_not_locked [simp]: "\<not> bit v 0 \<Longrightarrow> (v OR LOCKED_FLAG) AND NOT LOCKED_FLAG = v"
  by (rule bit_word_eqI) (auto simp: bit_or_iff bit_and_iff bit_not_iff intro: gr0I)

lemma link_offset_or_locked [simp]: "link_offset (v OR LOCKED_FLAG) = link_offset v"
  by (rule bit_word_eqI) (auto simp: bit_link_offset bit_or_iff)

lemma bit_lnk [simp]: "obj_ptr_ok p \<Longrightarrow> n < 3 \<Longrightarrow> bit (lnk p fl) n = bit fl n"
  using bit_aligned_ptr [of p n] by (auto simp: bit_or_iff)

lemma bit_ucast_ptr [simp]: "obj_ptr_ok p \<Longrightarrow> n < 3 \<Longrightarrow> \<not> bit (ucast (p - KERNELMEM_ADDR) :: u32) n"
  using bit_aligned_ptr [of p n] by auto

lemma link_ptr_ucast [link_simps]: "obj_ptr_ok p \<Longrightarrow> link_ptr (ucast (p - KERNELMEM_ADDR)) = p"
  using link_ptr_lnk [of p 0] by simp

lemma bit_link_offset_low [simp]: "n < 3 \<Longrightarrow> \<not> bit (link_offset v) n"
  by (simp add: bit_link_offset)

section \<open>Locks\<close>

definition lockp :: "u64 \<Rightarrow> store \<Rightarrow> store" where
  "lockp p s = put_next p (ce_next (s p) OR LOCKED_FLAG) s"

lemma lockp_simps [simp]:
  "ce_cap (lockp p s q) = ce_cap (s q)" "ce_prev (lockp p s q) = ce_prev (s q)"
  "ce_next (lockp p s q) = (if q = p then ce_next (s q) OR LOCKED_FLAG else ce_next (s q))"
  "nextp (lockp p s) q = nextp s q" "prevp (lockp p s) q = prevp s q"
  "is_locked (lockp p s) q = (q = p \<or> is_locked s q)" "isRevoking (lockp p s) q = isRevoking s q"
  "isDeleted (lockp p s) q = isDeleted s q"
  by (simp_all add: lockp_def nextp_def prevp_def bit_or_iff)

lemma ring_lockp [simp]: "ring (lockp p s) xs = ring s xs"
  by (rule ring_cong) simp_all

lemma is_locked_bit: "is_locked s p \<longleftrightarrow> bit (ce_next (s p)) 0"
  by (simp add: is_locked_def)

lemma isRevoking_bit: "isRevoking s p \<longleftrightarrow> bit (ce_prev (s p)) 1"
  by (simp add: isRevoking_def)

lemma isDeleted_bit: "isDeleted s p \<longleftrightarrow> bit (ce_prev (s p)) 2"
  by (simp add: isDeleted_def)

lemma lockp_locked: "is_locked s p \<Longrightarrow> lockp p s = s"
  by (rule store_eqI) (simp_all add: is_locked_bit)

lemma try_lock_eq: "CapEntry_try_lock p s = (\<not> is_locked s p, lockp p s)"
  by (simp add: CapEntry_try_lock_def lockp_def)

lemma CapEntry_lock_Some_unlocked:
  assumes "CapEntry_lock p s = Some r"
  shows "\<not> is_locked s p"
proof (rule CapEntry_lock.raw_induct [where P = "\<lambda>p s r. \<not> is_locked s p", OF _ assms])
  fix f p s r
  assume IH: "\<And>p s r. f p s = Some r \<Longrightarrow> \<not> is_locked s p"
    and eq: "(case CapEntry_try_lock p s of (ok, s') \<Rightarrow> if ok then Some s' else f p s') = Some r"
  show "\<not> is_locked s p"
  proof
    assume l: "is_locked s p"
    with eq have "f p s = Some r"
      by (simp add: try_lock_eq lockp_locked)
    then show False
      using IH l by blast
  qed
qed

lemma CapEntry_lock_eq [step_simps]:
  "CapEntry_lock p s = (if is_locked s p then None else Some (lockp p s))"
proof (cases "is_locked s p")
  case True
  then show ?thesis
    using CapEntry_lock_Some_unlocked [of p s] by (cases "CapEntry_lock p s") auto
next
  case False
  then show ?thesis
    by (subst CapEntry_lock.simps) (simp add: try_lock_eq)
qed

lemma CapEntry_unlock_lockp [simp]: "\<not> is_locked s p \<Longrightarrow> CapEntry_unlock p (lockp p s) = Some s"
  by (auto simp: CapEntry_unlock_def is_locked_bit bit_or_iff intro!: store_eqI)

lemma try_lock_prev_eq:
  "CapEntry_try_lock_prev p s =
     (if prevp s p = 0 then Some (GENERIC_ERROR, s)
      else if is_locked s (prevp s p) then Some (RETRY, s) else Some (SUCCESS, lockp (prevp s p) s))"
  by (simp add: CapEntry_try_lock_prev_def Let_def try_lock_eq lockp_locked)

lemma CapEntry_lock_prev_Some_unlocked:
  assumes "CapEntry_lock_prev p s = Some r"
  shows "prevp s p = 0 \<or> \<not> is_locked s (prevp s p)"
proof (rule CapEntry_lock_prev.raw_induct
    [where P = "\<lambda>p s r. prevp s p = 0 \<or> \<not> is_locked s (prevp s p)", OF _ assms])
  fix f p s r
  assume IH: "\<And>p s r. f p s = Some r \<Longrightarrow> prevp s p = 0 \<or> \<not> is_locked s (prevp s p)"
    and eq: "Option.bind (CapEntry_try_lock_prev p s) (\<lambda>(result, s').
       if result = RETRY then f p s' else Some (result = SUCCESS, s')) = Some r"
  show "prevp s p = 0 \<or> \<not> is_locked s (prevp s p)"
  proof (rule ccontr)
    assume l: "\<not> (prevp s p = 0 \<or> \<not> is_locked s (prevp s p))"
    with eq have "f p s = Some r"
      by (simp add: try_lock_prev_eq)
    then show False
      using IH l by blast
  qed
qed

lemma CapEntry_lock_prev_eq [step_simps]:
  "CapEntry_lock_prev p s =
     (if prevp s p = 0 then Some (False, s)
      else if is_locked s (prevp s p) then None else Some (True, lockp (prevp s p) s))"
proof (cases "prevp s p = 0 \<or> \<not> is_locked s (prevp s p)")
  case True
  then show ?thesis
    by (subst CapEntry_lock_prev.simps) (auto simp: try_lock_prev_eq)
next
  case False
  then show ?thesis
    using CapEntry_lock_prev_Some_unlocked [of p s] by (cases "CapEntry_lock_prev p s") auto
qed

section \<open>Inserting a child\<close>

lemma setPrevPreserveFlags_eq [step_simps]:
  "obj_ptr_ok t \<Longrightarrow>
     CapEntry_setPrevPreserveFlags n t s = Some (put_prev n (lnk t (link_flags (ce_prev (s n)))) s)"
  by (simp add: CapEntry_setPrevPreserveFlags_def link_simps)

lemma link_arrow_eq [step_simps]: "link_ptr v \<noteq> 0 \<Longrightarrow> link_arrow v = Some (link_ptr v)"
  by (simp add: link_arrow_def)

definition inserted :: "u64 \<Rightarrow> u64 \<Rightarrow> cap \<Rightarrow> store \<Rightarrow> store" where
  "inserted p t tc s =
     put_cap t tc (put_next p (lnk t 0) (put_prev t (lnk p 0) (put_next t (link_offset (ce_next (s p)))
       (put_prev (nextp s p) (lnk t (link_flags (ce_prev (s (nextp s p))))) s))))"

lemma insertAfter_step [step_simps]:
  assumes "ring s (p # zs)" "obj_ptr_ok t" "t \<notin> set (p # zs)" "cap_isAllocated (ce_cap (s t))"
    and "\<not> is_locked s p" "cap_isUsable (ce_cap (s p))" "commit (lockp p s) c = Some c'"
  shows "CapEntry_insertAfter p (ce_cap (s p)) t tc commit s c = Some (Inr (), inserted p t tc (lockp p s), c')"
proof -
  have p: "obj_ptr_ok p" "isKernelAddress p"
    using assms(1) by (simp_all add: ring_def obj_ptr_ok_def)
  have "nextp s p \<in> set (p # zs)"
    by (rule ring_closed(1) [OF assms(1)]) simp
  then have n: "nextp s p \<noteq> 0" "nextp s p \<noteq> t"
    using assms(3) ring_ok [OF assms(1), of "nextp s p"] by auto
  have np: "link_ptr (ce_next (s p)) = nextp s p"
    by (simp add: nextp_def)
  show ?thesis
    using assms p n
    by (simp add: CapEntry_insertAfter_def step_simps link_simps Let_def CapEntry_commit_def inserted_def
        np isLinked_def)
qed

text \<open>If the parent's capability is no longer the one the caller saw, the target is given back and nothing else changes.\<close>

lemma insertAfter_lost:
  assumes "isKernelAddress p" "cap_isAllocated (ce_cap (s t))" "\<not> is_locked s p" "\<not> (cap_isUsable (ce_cap (s p)) \<and> ce_cap (s p) = pc)"
    and "CapEntry_reset t s = Some s0"
  shows "CapEntry_insertAfter p pc t tc commit s c = Some (Inl LOST_RACE, s0, c)"
proof -
  have "CapEntry_unlock p (lockp p s) = Some s"
    by (rule CapEntry_unlock_lockp [OF assms(3)])
  then show ?thesis
    using assms by (auto simp: CapEntry_insertAfter_def CapEntry_lock_eq Let_def)
qed

lemma inserted_reads:
  assumes "ring s (p # zs)" "obj_ptr_ok t" "t \<notin> set (p # zs)"
  shows "ce_cap (inserted p t tc s q) = (if q = t then tc else ce_cap (s q))"
    and "nextp (inserted p t tc s) q = (if q = p then t else if q = t then nextp s p else nextp s q)"
    and "prevp (inserted p t tc s) q = (if q = t then p else if q = nextp s p then t else prevp s q)"
    and "is_locked (inserted p t tc s) q = (q \<noteq> p \<and> q \<noteq> t \<and> is_locked s q)"
    and "isRevoking (inserted p t tc s) q = (q \<noteq> t \<and> isRevoking s q)"
    and "isDeleted (inserted p t tc s) q = (q \<noteq> t \<and> isDeleted s q)"
proof -
  have ok: "obj_ptr_ok p" "p \<noteq> t"
    using assms by (auto simp: ring_def)
  have n: "nextp s p \<noteq> t"
    using assms ring_closed(1) [OF assms(1), of p] by auto
  show "ce_cap (inserted p t tc s q) = (if q = t then tc else ce_cap (s q))"
    by (simp add: inserted_def)
  show "nextp (inserted p t tc s) q = (if q = p then t else if q = t then nextp s p else nextp s q)"
    using ok assms(2) by (simp add: inserted_def link_simps nextp_def)
  show "prevp (inserted p t tc s) q = (if q = t then p else if q = nextp s p then t else prevp s q)"
    using ok assms(2) n by (simp add: inserted_def link_simps)
  show "is_locked (inserted p t tc s) q = (q \<noteq> p \<and> q \<noteq> t \<and> is_locked s q)"
    using ok assms(2) by (simp add: inserted_def)
  show "isRevoking (inserted p t tc s) q = (q \<noteq> t \<and> isRevoking s q)"
    using ok assms(2) n by (simp add: inserted_def bit_link_flags isRevoking_bit)
  show "isDeleted (inserted p t tc s) q = (q \<noteq> t \<and> isDeleted s q)"
    using ok assms(2) n by (simp add: inserted_def bit_link_flags isDeleted_bit)
qed

lemma ring_inserted:
  assumes "ring s (p # zs)" "obj_ptr_ok t" "t \<notin> set (p # zs)"
  shows "ring (inserted p t tc s) (p # t # zs)"
proof (rule ring_insert [OF assms])
  have n: "nextp s p = hd (zs @ [p])"
    by (rule ring_next [OF assms(1)])
  have d: "p \<notin> set zs" "hd (zs @ [p]) \<noteq> t"
    using assms by (cases zs; auto simp: ring_def)+
  note r = inserted_reads [OF assms]
  show "nextp (inserted p t tc s) p = t" "prevp (inserted p t tc s) t = p"
    "nextp (inserted p t tc s) t = hd (zs @ [p])" "prevp (inserted p t tc s) (hd (zs @ [p])) = t"
    using assms(3) n d by (auto simp: r)
  show "nextp (inserted p t tc s) x = nextp s x" if "x \<in> set zs" for x
    using that d assms(3) by (auto simp: r)
  show "prevp (inserted p t tc s) x = prevp s x" if "x \<in> set (p # zs)" "x \<noteq> hd (zs @ [p])" for x
    using that n assms(3) by (auto simp: r)
qed

text \<open>
  C2. Inserting a child. In a ring where the parent is unlocked and still holds the usable
  capability the caller read, and for an acquired target entry outside the ring, \<^verbatim>\<open>insertAfter\<close>
  returns success whenever the commit function does. The target then sits directly behind the
  parent, holds the new capability and is unlocked; the parent is unlocked again; the capabilities,
  lock and revocation flags of all other entries are what they were.
\<close>

theorem insertAfter_correct:
  assumes "ring s (p # zs)" "obj_ptr_ok t" "t \<notin> set (p # zs)" "cap_isAllocated (ce_cap (s t))"
    and "\<not> is_locked s p" "cap_isUsable (ce_cap (s p))" "commit (lockp p s) c = Some c'"
  shows "\<exists>s'. CapEntry_insertAfter p (ce_cap (s p)) t tc commit s c = Some (Inr (), s', c') \<and>
    ring s' (p # t # zs) \<and> ce_cap (s' t) = tc \<and> \<not> is_locked s' t \<and>
    (\<forall>q. q \<noteq> t \<longrightarrow> ce_cap (s' q) = ce_cap (s q) \<and> is_locked s' q = is_locked s q \<and>
       isRevoking s' q = isRevoking s q \<and> isDeleted s' q = isDeleted s q)"
proof -
  have r: "ring (lockp p s) (p # zs)"
    using assms(1) by simp
  show ?thesis
    using insertAfter_step [where commit = commit and c = c and tc = tc, OF assms] ring_inserted [OF r assms(2,3), of tc] assms(5)
      inserted_reads [OF r assms(2,3), of tc]
    by auto
qed

text \<open>A small store for the examples: a root entry alone in its ring, and an acquired second entry.\<close>

definition ex_root :: u64 where "ex_root = 0xffff800000001000"
definition ex_child :: u64 where "ex_child = 0xffff800000002000"
definition ex_cap :: cap where "ex_cap = 0x400"

definition ex_store :: store where
  "ex_store = (\<lambda>_. empty_entry)
     (ex_root := \<lparr>ce_cap = ex_cap, ce_prev = 0x1000, ce_next = 0x1000\<rparr>,
      ex_child := \<lparr>ce_cap = cap_asAllocated, ce_prev = 0, ce_next = 0\<rparr>)"

lemma ex_ptr_ok [simp]: "obj_ptr_ok ex_root" "obj_ptr_ok ex_child" "ex_root \<noteq> ex_child" "ex_child \<noteq> ex_root"
  by (simp_all add: obj_ptr_ok_def isKernelAddress_def layout_defs ex_root_def ex_child_def)

lemma ex_cap_usable [simp]: "cap_isUsable ex_cap"
proof -
  have "bit (f_ptr ex_cap) 10" "\<not> bit ex_cap 29"
    by (simp_all add: bit_f_ptr ex_cap_def bit_numeral_rec)
  then show ?thesis
    by (auto simp: cap_state_defs f_trans_bit)
qed

lemma ex_store_simps [simp]:
  "ce_cap (ex_store ex_root) = ex_cap" "ce_cap (ex_store ex_child) = cap_asAllocated"
  "\<not> is_locked ex_store ex_root"
  by (simp_all add: ex_store_def is_locked_bit bit_numeral_rec)

lemma ex_ring: "ring ex_store [ex_root]"
  by (simp add: ring_def nextp_def prevp_def ex_store_def link_ptr_def link_offset_def link_flag_defs)
    (simp add: ex_root_def layout_defs)

theorem insertAfter_correct_witness:
  "ring ex_store [ex_root] \<and> obj_ptr_ok ex_child \<and> ex_child \<notin> set [ex_root] \<and>
   cap_isAllocated (ce_cap (ex_store ex_child)) \<and> \<not> is_locked ex_store ex_root \<and>
   cap_isUsable (ce_cap (ex_store ex_root)) \<and>
   (\<exists>s'. CapEntry_insertAfter ex_root (ce_cap (ex_store ex_root)) ex_child ex_cap (\<lambda>s c. Some c) ex_store ()
       = Some (Inr (), s', ()) \<and> ring s' [ex_root, ex_child])"
  using ex_ring insertAfter_correct [of ex_store ex_root "[]" ex_child "\<lambda>s c. Some c" "()" "()" ex_cap]
  by auto

text \<open>The race is detected: if the parent no longer holds that capability, the target is emptied again.\<close>

lemma insertAfter_lost_race:
  assumes "isKernelAddress p" "cap_isAllocated (ce_cap (s t))" "\<not> is_locked s p" "t \<noteq> p"
    and "\<not> cap_isUsable (ce_cap (s p)) \<or> ce_cap (s p) \<noteq> parentCap"
  shows "CapEntry_insertAfter p parentCap t tc commit s c = Some (Inl LOST_RACE, s(t := empty_entry), c)"
proof -
  have "CapEntry_reset t s = Some (s(t := empty_entry))"
    using assms(2) by (auto simp: CapEntry_reset_def put_cap_def put_prev_def put_next_def empty_entry_def)
  then show ?thesis
    using assms by (simp add: CapEntry_insertAfter_def step_simps Let_def)
qed

section \<open>Removing an entry\<close>

definition unlinked :: "u64 \<Rightarrow> store \<Rightarrow> store" where
  "unlinked p s =
     put_next p 0 (put_prev p 0 (put_next (prevp s p) (link_offset (ce_next (s p)))
       (put_prev (nextp s p) (link_offset (ce_prev (s p))) s)))"

lemma unlink_step [step_simps]:
  assumes "nextp s p \<noteq> 0" "prevp s p \<noteq> 0"
  shows "CapEntry_unlink p s = Some (unlinked p s)"
proof -
  have "link_ptr (ce_next (s p)) = nextp s p" "link_ptr (ce_prev (s p)) = prevp s p"
    by (simp_all add: nextp_def prevp_def)
  then show ?thesis
    using assms by (simp add: CapEntry_unlink_def link_simps step_simps Let_def unlinked_def)
qed

lemma unlinked_reads:
  "ce_cap (unlinked p s q) = ce_cap (s q)"
  "nextp (unlinked p s) q = (if q = p then 0 else if q = prevp s p then nextp s p else nextp s q)"
  "prevp (unlinked p s) q = (if q = p then 0 else if q = nextp s p then prevp s p else prevp s q)"
  "is_locked (unlinked p s) q = (q \<noteq> p \<and> q \<noteq> prevp s p \<and> is_locked s q)"
  "isRevoking (unlinked p s) q = (q \<noteq> p \<and> q \<noteq> nextp s p \<and> isRevoking s q)"
  "isDeleted (unlinked p s) q = (q \<noteq> p \<and> q \<noteq> nextp s p \<and> isDeleted s q)"
  by (simp_all add: unlinked_def) (simp_all add: nextp_def prevp_def)

lemma ring_neighbours:
  assumes "ring s (p # zs)" "zs \<noteq> []"
  shows "nextp s p = hd zs" "prevp s p = last zs" "hd zs \<in> set zs" "last zs \<in> set zs" "p \<notin> set zs"
    "nextp s p \<noteq> 0" "prevp s p \<noteq> 0" "nextp s p \<noteq> p" "prevp s p \<noteq> p"
proof -
  show h: "nextp s p = hd zs" "prevp s p = last zs" "hd zs \<in> set zs" "last zs \<in> set zs" "p \<notin> set zs"
    using assms ring_next [OF assms(1)] ring_prev [OF assms(1)] by (auto simp: ring_def)
  show "nextp s p \<noteq> 0" "prevp s p \<noteq> 0"
    using h assms(1) ring_ok [OF assms(1), of "hd zs"] ring_ok [OF assms(1), of "last zs"] by auto
  show "nextp s p \<noteq> p" "prevp s p \<noteq> p"
    using h by auto
qed

lemma ring_unlinked:
  assumes "ring s (p # zs)" "zs \<noteq> []"
  shows "ring (unlinked p s) zs"
proof (rule ring_remove [OF assms])
  note n = ring_neighbours [OF assms]
  show "nextp (unlinked p s) (last zs) = hd zs" "prevp (unlinked p s) (hd zs) = last zs"
    using n by (auto simp: unlinked_reads)
  show "nextp (unlinked p s) x = nextp s x" if "x \<in> set zs" "x \<noteq> last zs" for x
    using that n by (auto simp: unlinked_reads)
  show "prevp (unlinked p s) x = prevp s x" if "x \<in> set zs" "x \<noteq> hd zs" for x
    using that n by (auto simp: unlinked_reads)
qed

text \<open>
  C3. Removing an entry. \<^verbatim>\<open>unlink\<close> followed by \<^verbatim>\<open>reset\<close>, as the deletion does with a locked zombie
  whose predecessor is locked, always returns; the rest of the ring keeps its order and its
  capabilities, the removed entry is the empty entry again, and the predecessor's lock is released.
\<close>

theorem unlink_reset_correct:
  assumes "ring s (p # zs)" "zs \<noteq> []" "cap_isZombie (ce_cap (s p))"
  shows "\<exists>s1 s'. CapEntry_unlink p s = Some s1 \<and> CapEntry_reset p s1 = Some s' \<and>
    ring s' zs \<and> s' p = empty_entry \<and> \<not> is_locked s' (prevp s p) \<and>
    (\<forall>q. q \<noteq> p \<longrightarrow> ce_cap (s' q) = ce_cap (s q) \<and> (q \<noteq> prevp s p \<longrightarrow> is_locked s' q = is_locked s q))"
proof -
  note n = ring_neighbours [OF assms(1,2)]
  let ?s1 = "unlinked p s" and ?s' = "(unlinked p s)(p := empty_entry)"
  have "CapEntry_unlink p s = Some ?s1"
    using n by (simp add: unlink_step)
  moreover have "CapEntry_reset p ?s1 = Some ?s'"
    using assms(3)
    by (auto simp: CapEntry_reset_def isUnlinked_def unlinked_reads put_cap_def put_prev_def put_next_def
        empty_entry_def)
  moreover have "ring ?s' zs"
    using ring_unlinked [OF assms(1,2)] n(5) by (subst ring_cong [of _ _ "unlinked p s"]) (auto simp: nextp_def prevp_def)
  moreover have "is_locked ?s' q = is_locked ?s1 q" if "q \<noteq> p" for q
    using that by (simp add: is_locked_def)
  ultimately show ?thesis
    using n by (intro exI [of _ ?s1] exI [of _ ?s']) (auto simp: unlinked_reads)
qed

text \<open>
  The successor's revocation flag does not survive, unlike in \<^verbatim>\<open>insertAfter\<close> and \<^verbatim>\<open>moveTo\<close>, which go
  through \<^verbatim>\<open>setPrevPreserveFlags\<close>: a revocation that pinned the successor with
  \<^verbatim>\<open>setRevoking\<close> and has not locked it yet loses its pin.
\<close>

theorem unlink_drops_revoking:
  assumes "ring s (p # zs)" "zs \<noteq> []"
  shows "\<exists>s1. CapEntry_unlink p s = Some s1 \<and> \<not> isRevoking s1 (nextp s p)"
  using ring_neighbours [OF assms] by (simp add: unlink_step unlinked_reads)

section \<open>Moving an entry\<close>

definition moved :: "u64 \<Rightarrow> u64 \<Rightarrow> store \<Rightarrow> store" where
  "moved p t s =
     put_cap p cap_null (put_next p 0 (put_prev p 0 (put_cap t (ce_cap (s p)) (put_next (prevp s p) (lnk t 0)
       (put_prev t (link_offset (ce_prev (s p))) (put_next t (link_offset (ce_next (s p)))
         (put_prev (nextp s p) (lnk t (link_flags (ce_prev (s (nextp s p))))) s)))))))"

lemma moveTo_step:
  assumes "ring s (p # zs)" "zs \<noteq> []" "obj_ptr_ok t" "t \<notin> set (p # zs)"
    and "cap_isAllocated (ce_cap (s t))" "\<not> isLinked s t"
    and "\<not> is_locked s p" "\<not> is_locked s (prevp s p)" "\<not> isRevoking s p" "cap_isUsable (ce_cap (s p))"
  shows "CapEntry_moveTo p t s = Some (Inr (), moved p t (lockp p (lockp (prevp s p) s)))"
proof -
  note n = ring_neighbours [OF assms(1,2)]
  have t: "t \<noteq> nextp s p" "t \<noteq> prevp s p" "t \<noteq> p"
    using n assms(4) by auto
  have "link_ptr (ce_next (s p)) = nextp s p" "link_ptr (ce_prev (s p)) = prevp s p"
    by (simp_all add: nextp_def prevp_def)
  then show ?thesis
    using assms n(6-9) t
    by (simp add: CapEntry_moveTo_def step_simps link_simps Let_def CapEntry_commit_def moved_def isLinked_def)
qed

lemma moved_reads:
  assumes "ring s (p # zs)" "zs \<noteq> []" "obj_ptr_ok t" "t \<notin> set (p # zs)"
  shows "ce_cap (moved p t s q) = (if q = p then cap_null else if q = t then ce_cap (s p) else ce_cap (s q))"
    and "nextp (moved p t s) q =
      (if q = p then 0 else if q = prevp s p then t else if q = t then nextp s p else nextp s q)"
    and "prevp (moved p t s) q =
      (if q = p then 0 else if q = t then prevp s p else if q = nextp s p then t else prevp s q)"
    and "is_locked (moved p t s) q = (q \<noteq> p \<and> q \<noteq> t \<and> q \<noteq> prevp s p \<and> is_locked s q)"
    and "isRevoking (moved p t s) q = (q \<noteq> p \<and> q \<noteq> t \<and> isRevoking s q)"
proof -
  note n = ring_neighbours [OF assms(1,2)]
  have t: "t \<noteq> nextp s p" "t \<noteq> prevp s p" "t \<noteq> p"
    using n assms(4) by auto
  show "ce_cap (moved p t s q) = (if q = p then cap_null else if q = t then ce_cap (s p) else ce_cap (s q))"
    by (simp add: moved_def)
  show "nextp (moved p t s) q =
      (if q = p then 0 else if q = prevp s p then t else if q = t then nextp s p else nextp s q)"
    using t n(6-9) assms(3) by (simp add: moved_def link_simps) (simp add: nextp_def)
  show "prevp (moved p t s) q =
      (if q = p then 0 else if q = t then prevp s p else if q = nextp s p then t else prevp s q)"
    using t n(6-9) assms(3) by (simp add: moved_def link_simps) (simp add: prevp_def)
  show "is_locked (moved p t s) q = (q \<noteq> p \<and> q \<noteq> t \<and> q \<noteq> prevp s p \<and> is_locked s q)"
    using t n(6-9) assms(3) by (simp add: moved_def)
  show "isRevoking (moved p t s) q = (q \<noteq> p \<and> q \<noteq> t \<and> isRevoking s q)"
    using t n(6-9) assms(3) by (simp add: moved_def bit_link_flags isRevoking_bit)
qed

lemma ring_moved:
  assumes "ring s (p # zs)" "zs \<noteq> []" "obj_ptr_ok t" "t \<notin> set (p # zs)"
  shows "ring (moved p t s) (t # zs)"
proof (rule ring_replace [OF assms(1,2,3)])
  note n = ring_neighbours [OF assms(1,2)] and r = moved_reads [OF assms]
  show "t \<notin> set zs"
    using assms(4) by simp
  show "nextp (moved p t s) t = hd zs" "prevp (moved p t s) (hd zs) = t"
    "nextp (moved p t s) (last zs) = t" "prevp (moved p t s) t = last zs"
    using n assms(4) by (auto simp: r)
  show "nextp (moved p t s) x = nextp s x" if "x \<in> set zs" "x \<noteq> last zs" for x
    using that n assms(4) by (auto simp: r)
  show "prevp (moved p t s) x = prevp s x" if "x \<in> set zs" "x \<noteq> hd zs" for x
    using that n assms(4) by (auto simp: r)
qed

text \<open>
  C4. Moving an entry. For an entry with a usable capability that nobody is revoking, in a ring with
  at least one other entry and with the entry and its predecessor unlocked, \<^verbatim>\<open>moveTo\<close> succeeds: the
  acquired target takes the entry's place in the ring and its capability, the source is empty, and
  locks and revocation flags of all other entries are unchanged.
\<close>

theorem moveTo_correct:
  assumes "ring s (p # zs)" "zs \<noteq> []" "obj_ptr_ok t" "t \<notin> set (p # zs)"
    and "cap_isAllocated (ce_cap (s t))" "\<not> isLinked s t"
    and "\<not> is_locked s p" "\<not> is_locked s (prevp s p)" "\<not> isRevoking s p" "cap_isUsable (ce_cap (s p))"
  shows "\<exists>s'. CapEntry_moveTo p t s = Some (Inr (), s') \<and> ring s' (t # zs) \<and>
    ce_cap (s' t) = ce_cap (s p) \<and> cap_isEmpty (ce_cap (s' p)) \<and> \<not> is_locked s' p \<and>
    (\<forall>q. q \<noteq> p \<and> q \<noteq> t \<longrightarrow> ce_cap (s' q) = ce_cap (s q) \<and> is_locked s' q = is_locked s q \<and>
       isRevoking s' q = isRevoking s q)"
proof -
  let ?l = "lockp p (lockp (prevp s p) s)"
  have r: "ring ?l (p # zs)"
    using assms(1) by simp
  show ?thesis
    using moveTo_step [OF assms] ring_moved [OF r assms(2-4)] assms(4,7,8) moved_reads [OF r assms(2-4)]
    by auto
qed

text \<open>The root of the tree, alone in its ring, must not be moved: it would wait for its own lock.\<close>

lemma moveTo_lonely_root:
  assumes "ring s [p]" "cap_isAllocated (ce_cap (s t))" "\<not> isLinked s t"
  shows "CapEntry_moveTo p t s = None"
proof -
  have "prevp s p = p" "p \<noteq> 0"
    using assms(1) ring_prev [OF assms(1)] by (auto simp: ring_def)
  then show ?thesis
    using assms(2,3) by (auto simp: CapEntry_moveTo_def step_simps)
qed

lemma moveTo_refused:
  assumes "ring s (p # zs)" "zs \<noteq> []" "t \<notin> set (p # zs)" "cap_isAllocated (ce_cap (s t))" "\<not> isLinked s t"
    and "\<not> is_locked s p" "\<not> is_locked s (prevp s p)" "isRevoking s p \<or> \<not> cap_isUsable (ce_cap (s p))"
  shows "CapEntry_moveTo p t s = Some (Inl INVALID_CAPABILITY, s(t := empty_entry))"
proof -
  note n = ring_neighbours [OF assms(1,2)]
  have t: "t \<noteq> prevp s p" "t \<noteq> p"
    using n assms(3) by auto
  have reset: "CapEntry_reset t s' = Some (s'(t := empty_entry))" if "ce_cap (s' t) = ce_cap (s t)" for s'
    using assms(4) that by (auto simp: CapEntry_reset_def put_cap_def put_prev_def put_next_def empty_entry_def)
  have comm: "(lockp q s')(t := e) = lockp q (s'(t := e))" if "q \<noteq> t" for q s' e
    using that by (auto simp: lockp_def put_next_def)
  have "CapEntry_unlock_prev p (lockp (prevp s p) (s(t := empty_entry))) = Some (s(t := empty_entry))"
    using n t assms(7)
    by (simp add: CapEntry_unlock_prev_def step_simps prevp_def [symmetric] is_locked_bit)
  then show ?thesis
    using assms n(6-9) t by (auto simp: CapEntry_moveTo_def step_simps Let_def reset comm is_locked_bit)
qed

section \<open>Examples\<close>

definition ex_third :: u64 where "ex_third = 0xffff800000003000"

definition ex_pair :: "cap \<Rightarrow> store" where
  "ex_pair c = (\<lambda>_. empty_entry)
     (ex_root := \<lparr>ce_cap = ex_cap, ce_prev = 0x2000, ce_next = 0x2000\<rparr>,
      ex_child := \<lparr>ce_cap = c, ce_prev = 0x1000, ce_next = 0x1000\<rparr>,
      ex_third := \<lparr>ce_cap = cap_asAllocated, ce_prev = 0, ce_next = 0\<rparr>)"

lemma ex_third_ok [simp]: "obj_ptr_ok ex_third" "ex_third \<noteq> ex_root" "ex_third \<noteq> ex_child"
    "ex_root \<noteq> ex_third" "ex_child \<noteq> ex_third"
  by (simp_all add: obj_ptr_ok_def isKernelAddress_def layout_defs ex_root_def ex_child_def ex_third_def)

lemma ex_links [simp]: "link_ptr 0x1000 = ex_root" "link_ptr 0x2000 = ex_child"
  by (simp_all add: link_ptr_def link_offset_def link_flag_defs ex_root_def ex_child_def layout_defs)

lemma ex_pair_simps [simp]:
  "ce_cap (ex_pair c ex_root) = ex_cap" "ce_cap (ex_pair c ex_child) = c"
  "ce_cap (ex_pair c ex_third) = cap_asAllocated"
  "nextp (ex_pair c) ex_root = ex_child" "prevp (ex_pair c) ex_root = ex_child"
  "nextp (ex_pair c) ex_child = ex_root" "prevp (ex_pair c) ex_child = ex_root"
  "nextp (ex_pair c) ex_third = 0" "prevp (ex_pair c) ex_third = 0"
  by (simp_all add: ex_pair_def nextp_def prevp_def)

lemma ex_pair_flags [simp]:
  "\<not> is_locked (ex_pair c) ex_root" "\<not> is_locked (ex_pair c) ex_child"
  "\<not> isRevoking (ex_pair c) ex_root" "\<not> isRevoking (ex_pair c) ex_child"
  by (simp_all add: ex_pair_def is_locked_bit isRevoking_bit bit_numeral_rec)

lemma ex_pair_ring: "ring (ex_pair c) [ex_child, ex_root]"
  by (simp add: ring_def)

theorem unlink_reset_correct_witness:
  "ring (ex_pair (cap_asZombie ex_cap)) [ex_child, ex_root] \<and> cap_isZombie (cap_asZombie ex_cap) \<and>
   (\<exists>s1 s'. CapEntry_unlink ex_child (ex_pair (cap_asZombie ex_cap)) = Some s1 \<and>
      CapEntry_reset ex_child s1 = Some s' \<and> ring s' [ex_root] \<and> s' ex_child = empty_entry)"
  using ex_pair_ring [of "cap_asZombie ex_cap"]
    unlink_reset_correct [of "ex_pair (cap_asZombie ex_cap)" ex_child "[ex_root]"] by auto

theorem moveTo_correct_witness:
  "ring (ex_pair ex_cap) [ex_child, ex_root] \<and>
   (\<exists>s'. CapEntry_moveTo ex_child ex_third (ex_pair ex_cap) = Some (Inr (), s') \<and>
      ring s' [ex_third, ex_root] \<and> ce_cap (s' ex_third) = ex_cap \<and> cap_isEmpty (ce_cap (s' ex_child)))"
  using ex_pair_ring [of ex_cap] moveTo_correct [of "ex_pair ex_cap" ex_child "[ex_root]" ex_third]
  by (auto simp: isLinked_def)

section \<open>Killing and unlocking\<close>

definition unlockp :: "u64 \<Rightarrow> store \<Rightarrow> store" where
  "unlockp p s = put_next p (ce_next (s p) AND NOT LOCKED_FLAG) s"

definition killp :: "u64 \<Rightarrow> store \<Rightarrow> store" where
  "killp p s = put_cap p (cap_asZombie (ce_cap (s p))) s"

lemma unlockp_simps [simp]:
  "ce_cap (unlockp p s q) = ce_cap (s q)" "nextp (unlockp p s) q = nextp s q" "prevp (unlockp p s) q = prevp s q"
  "is_locked (unlockp p s) q = (q \<noteq> p \<and> is_locked s q)"
  "isRevoking (unlockp p s) q = isRevoking s q" "isDeleted (unlockp p s) q = isDeleted s q"
  by (simp_all add: unlockp_def nextp_def bit_and_iff bit_not_iff)

lemma killp_simps [simp]:
  "ce_cap (killp p s q) = (if q = p then cap_asZombie (ce_cap (s q)) else ce_cap (s q))"
  "nextp (killp p s) q = nextp s q" "prevp (killp p s) q = prevp s q" "is_locked (killp p s) q = is_locked s q"
  "isRevoking (killp p s) q = isRevoking s q" "isDeleted (killp p s) q = isDeleted s q"
  by (simp_all add: killp_def)

lemma finishRevoke_simps [simp]:
  "ce_cap (CapEntry_finishRevoke p s q) = ce_cap (s q)" "nextp (CapEntry_finishRevoke p s) q = nextp s q"
  "prevp (CapEntry_finishRevoke p s) q = prevp s q" "is_locked (CapEntry_finishRevoke p s) q = is_locked s q"
  "isRevoking (CapEntry_finishRevoke p s) q = (q \<noteq> p \<and> isRevoking s q)"
  by (simp_all add: CapEntry_finishRevoke_def bit_and_iff bit_not_iff) (simp add: prevp_def)

lemma CapEntry_unlock_eq [step_simps]:
  "CapEntry_unlock p s = (if is_locked s p then Some (unlockp p s) else None)"
  by (simp add: CapEntry_unlock_def unlockp_def)

lemma CapEntry_unlock_prev_eq [step_simps]:
  "CapEntry_unlock_prev p s = (if prevp s p = 0 then None else CapEntry_unlock (prevp s p) s)"
  by (simp add: CapEntry_unlock_prev_def link_arrow_def prevp_def ASSERT_def)

text \<open>An entry is live when its capability is usable or a zombie; killing it gives the zombie.\<close>

definition live :: "store \<Rightarrow> u64 \<Rightarrow> bool" where
  "live s p \<longleftrightarrow> f_ptr (ce_cap (s p)) \<noteq> 0"

lemma live_cases: "live s p \<longleftrightarrow> cap_isUsable (ce_cap (s p)) \<or> cap_isZombie (ce_cap (s p))"
  by (auto simp: live_def cap_state_defs)

lemma live_not_allocated [simp]: "live s p \<Longrightarrow> \<not> cap_isAllocated (ce_cap (s p))"
  by (simp add: live_def cap_state_defs)

lemma CapEntry_kill_live [step_simps]: "live s p \<Longrightarrow> CapEntry_kill p s = (True, killp p s)"
  unfolding live_cases CapEntry_kill_def killp_def
  by (auto simp: Let_def put_cap_def cap_states_exclusive intro!: store_eqI)

section \<open>Taking a zombie out of the ring\<close>

definition removed :: "u64 \<Rightarrow> store \<Rightarrow> store" where
  "removed p s = (unlinked p s)(p := empty_entry)"

lemma removed_reads [simp]:
  "removed p s p = empty_entry"
  "q \<noteq> p \<Longrightarrow> ce_cap (removed p s q) = ce_cap (s q)"
  "q \<noteq> p \<Longrightarrow> is_locked (removed p s) q = (q \<noteq> prevp s p \<and> is_locked s q)"
  "q \<noteq> p \<Longrightarrow> live (removed p s) q = live s q"
  by (simp_all add: removed_def unlinked_reads(1) live_def)
    (metis fun_upd_other is_locked_def removed_def unlinked_reads(4))

lemma remove_leaf:
  assumes "ring s (p # zs)" "zs \<noteq> []" "cap_isZombie (ce_cap (s p))"
  shows "Option.bind (CapEntry_unlink p s) (CapEntry_reset p) = Some (removed p s)" "ring (removed p s) zs"
    "q \<notin> set (p # zs) \<Longrightarrow> removed p s q = s q"
proof -
  note n = ring_neighbours [OF assms(1,2)]
  show "Option.bind (CapEntry_unlink p s) (CapEntry_reset p) = Some (removed p s)"
    using n(6,7) assms(3)
    by (auto simp: unlink_step CapEntry_reset_def isUnlinked_def unlinked_reads put_cap_def put_prev_def
        put_next_def empty_entry_def removed_def)
  show "ring (removed p s) zs"
    using ring_unlinked [OF assms(1,2)] n(5)
    by (subst ring_cong [of _ _ "unlinked p s"]) (auto simp: removed_def nextp_def prevp_def)
  show "removed p s q = s q" if "q \<notin> set (p # zs)"
    using that n(1-4) by (auto simp: removed_def unlinked_def put_next_def put_prev_def)
qed

end
