(* ===== verification/Ranges.thy ===== *)
theory Ranges
  imports Mythos_Prelude "HOL-Library.Multiset"
begin

text \<open>
  Half-open address intervals and bounded vectors, from \<^verbatim>\<open>Range.hh\<close>, \<^verbatim>\<open>VectorMax.hh\<close> and
  \<^verbatim>\<open>RangeSet.hh\<close> in \<^verbatim>\<open>kernel/util/datatypes/util\<close>. The element type of a range is a 64-bit word,
  as in every use of the template; sizes and ends therefore wrap around.

  A \<^verbatim>\<open>VectorMax\<close> is the list of its first \<open>psize\<close> elements. Writing past the capacity \<open>M\<close> is an
  access out of the bounds of a member array and has no meaning in C++; the model returns
  \<^term>\<open>None\<close> there.
\<close>

section \<open>Ranges\<close>

record range =
  rg_start :: u64
  rg_end :: u64

definition mk_range :: "u64 \<Rightarrow> u64 \<Rightarrow> range" where
  "mk_range a b = \<lparr>rg_start = a, rg_end = b\<rparr>"

definition range_bySize :: "u64 \<Rightarrow> u64 \<Rightarrow> range" where
  "range_bySize start sz = mk_range start (start + sz)"

definition range_getSize :: "range \<Rightarrow> u64" where
  "range_getSize r = rg_end r - rg_start r"

definition range_isEmpty :: "range \<Rightarrow> bool" where
  "range_isEmpty r \<longleftrightarrow> range_getSize r = 0"

definition range_cut :: "range \<Rightarrow> range \<Rightarrow> range" where
  "range_cut r rhs =
     (let s = (if rg_start r > rg_start rhs then rg_start r else rg_start rhs);
          e = (if rg_end r < rg_end rhs then rg_end r else rg_end rhs)
      in mk_range s (if e > s then e else s))"

definition range_containsPoint :: "range \<Rightarrow> u64 \<Rightarrow> bool" where
  "range_containsPoint r x \<longleftrightarrow> rg_start r \<le> x \<and> x < rg_end r"

definition range_contains :: "range \<Rightarrow> range \<Rightarrow> bool" where
  "range_contains r other \<longleftrightarrow> rg_start r \<le> rg_start other \<and> rg_end other \<le> rg_end r"

definition range_overlaps :: "range \<Rightarrow> range \<Rightarrow> bool" where
  "range_overlaps r rhs \<longleftrightarrow>
     (rg_start r \<le> rg_start rhs \<and> rg_end r > rg_start rhs) \<or>
     (rg_start rhs \<le> rg_start r \<and> rg_end rhs > rg_start r)"

section \<open>Bounded vectors\<close>

record 'a vector =
  vec_M :: nat
  vec_data :: "'a list"

definition VectorMax_size :: "'a vector \<Rightarrow> nat" where
  "VectorMax_size v = length (vec_data v)"

definition VectorMax_get :: "'a vector \<Rightarrow> nat \<Rightarrow> 'a option" where
  "VectorMax_get v i = (if i < VectorMax_size v then Some (vec_data v ! i) else None)"

definition VectorMax_put :: "'a vector \<Rightarrow> nat \<Rightarrow> 'a \<Rightarrow> 'a vector" where
  "VectorMax_put v i x = v\<lparr>vec_data := (vec_data v)[i := x]\<rparr>"

definition VectorMax_push_back :: "'a vector \<Rightarrow> 'a \<Rightarrow> 'a vector option" where
  "VectorMax_push_back v e =
     (if VectorMax_size v < vec_M v then Some (v\<lparr>vec_data := vec_data v @ [e]\<rparr>) else None)"

definition VectorMax_pop_back :: "'a vector \<Rightarrow> 'a vector option" where
  "VectorMax_pop_back v =
     (if VectorMax_size v = 0 then None else Some (v\<lparr>vec_data := butlast (vec_data v)\<rparr>))"

definition VectorMax_back :: "'a vector \<Rightarrow> 'a option" where
  "VectorMax_back v = (if VectorMax_size v = 0 then None else Some (last (vec_data v)))"

section \<open>Sets of ranges\<close>

type_synonym range_set = "range vector"

definition RangeSet_add :: "range_set \<Rightarrow> range \<Rightarrow> range_set option" where
  "RangeSet_add v rhs = VectorMax_push_back v rhs"

text \<open>
  The loop of \<^verbatim>\<open>substract\<close>, one call per index. Removing the element at \<open>i\<close> overwrites it by the
  last one, shortens the vector and looks at the same index again; when the index is 0 the counter
  wraps below zero and is incremented back, so the recursive call is on \<open>i\<close> in every case.
\<close>

function RangeSet_substract_loop :: "range \<Rightarrow> nat \<Rightarrow> range_set \<Rightarrow> range_set option" where
  "RangeSet_substract_loop rhs i v =
     (if i < VectorMax_size v then
        (let lhs = vec_data v ! i in
         if rg_start rhs \<le> rg_start lhs then
           if rg_end lhs \<le> rg_end rhs then
             RangeSet_substract_loop rhs i
               (VectorMax_put v i (last (vec_data v))\<lparr>vec_data := butlast ((vec_data v)[i := last (vec_data v)])\<rparr>)
           else if rg_start lhs < rg_end rhs then
             RangeSet_substract_loop rhs (Suc i) (VectorMax_put v i (lhs\<lparr>rg_start := rg_end rhs\<rparr>))
           else RangeSet_substract_loop rhs (Suc i) v
         else if rg_start rhs < rg_end lhs then
           if rg_end lhs \<le> rg_end rhs then
             RangeSet_substract_loop rhs (Suc i) (VectorMax_put v i (lhs\<lparr>rg_end := rg_start rhs\<rparr>))
           else (case VectorMax_push_back v (mk_range (rg_end rhs) (rg_end lhs)) of
                   None \<Rightarrow> None
                 | Some v' \<Rightarrow> RangeSet_substract_loop rhs (Suc i) (VectorMax_put v' i (lhs\<lparr>rg_end := rg_start rhs\<rparr>)))
         else RangeSet_substract_loop rhs (Suc i) v)
      else Some v)"
  by pat_completeness auto

termination
  by (relation "measure (\<lambda>(rhs, i, v). (vec_M v - length (vec_data v)) + 2 * (length (vec_data v) - i))")
    (auto simp: VectorMax_size_def VectorMax_put_def VectorMax_push_back_def split: if_splits)

declare RangeSet_substract_loop.simps [simp del]

definition RangeSet_substract :: "range_set \<Rightarrow> range \<Rightarrow> range_set option" where
  "RangeSet_substract v rhs = (if range_isEmpty rhs then Some v else RangeSet_substract_loop rhs 0 v)"

section \<open>Points of ranges\<close>

definition points :: "range \<Rightarrow> u64 set" where
  "points r = {x. range_containsPoint r x}"

definition list_points :: "range list \<Rightarrow> u64 set" where
  "list_points rs = (\<Union>r\<in>set rs. points r)"

lemma mem_points [simp]: "x \<in> points r \<longleftrightarrow> rg_start r \<le> x \<and> x < rg_end r"
  by (simp add: points_def range_containsPoint_def)

lemma mk_range_simps [simp]: "rg_start (mk_range a b) = a" "rg_end (mk_range a b) = b"
  by (simp_all add: mk_range_def)

lemma list_points_simps [simp]:
  "list_points [] = {}" "list_points (r # rs) = points r \<union> list_points rs"
  "list_points (rs @ qs) = list_points rs \<union> list_points qs"
  by (auto simp: list_points_def)

lemma points_cut: "points (range_cut r q) = points r \<inter> points q"
  by (auto simp: range_cut_def Let_def not_less)

lemma range_contains_points: "range_contains r q \<Longrightarrow> points q \<subseteq> points r"
  by (auto simp: range_contains_def)

lemma range_contains_antisym: "range_contains r q \<Longrightarrow> range_contains q r \<Longrightarrow> r = q"
  by (auto simp: range_contains_def)

lemma range_contains_trans: "range_contains r q \<Longrightarrow> range_contains q t \<Longrightarrow> range_contains r t"
  by (auto simp: range_contains_def)

lemma range_contains_refl [simp]: "range_contains r r"
  by (simp add: range_contains_def)

lemma range_overlaps_iff:
  assumes "rg_start r < rg_end r" "rg_start q < rg_end q"
  shows "range_overlaps r q \<longleftrightarrow> points r \<inter> points q \<noteq> {}"
proof
  assume "range_overlaps r q"
  then have "rg_start q \<in> points r \<inter> points q \<or> rg_start r \<in> points r \<inter> points q"
    using assms by (auto simp: range_overlaps_def)
  then show "points r \<inter> points q \<noteq> {}"
    by blast
next
  assume "points r \<inter> points q \<noteq> {}"
  then show "range_overlaps r q"
    by (auto simp: range_overlaps_def)
qed

lemma points_split_at:
  assumes "i < length rs"
  shows "list_points (drop i rs) = points (rs ! i) \<union> list_points (drop (Suc i) rs)"
  using assms by (simp add: Cons_nth_drop_Suc [symmetric])

lemma take_update_drop:
  assumes "i < length rs"
  shows "take (Suc i) (rs[i := r]) = take i rs @ [r]" "drop (Suc i) (rs[i := r]) = drop (Suc i) rs"
  using assms by (simp_all add: take_Suc_conv_app_nth)

lemma remove_by_last:
  assumes "i < length rs"
  shows "take i (butlast (rs[i := last rs])) = take i rs"
    and "list_points (drop i (butlast (rs[i := last rs]))) = list_points (drop (Suc i) rs)"
proof -
  show "take i (butlast (rs[i := last rs])) = take i rs"
    using assms by (simp add: take_butlast)
  show "list_points (drop i (butlast (rs[i := last rs]))) = list_points (drop (Suc i) rs)"
  proof (cases "Suc i = length rs")
    case True
    then show ?thesis
      using assms by (simp add: drop_butlast [symmetric] drop_update_swap)
  next
    case False
    then have "drop (Suc i) rs \<noteq> []" and l: "last (drop (Suc i) rs) = last rs"
      using assms by auto
    then obtain qs q where qs: "drop (Suc i) rs = qs @ [q]"
      by (metis append_butlast_last_id)
    then have "drop i (rs[i := last rs]) = last rs # qs @ [q]" "q = last rs"
      using assms l by (auto simp: upd_conv_take_nth_drop)
    then have "drop i (butlast (rs[i := last rs])) = last rs # qs"
      by (simp add: drop_butlast)
    then show ?thesis
      using qs \<open>q = last rs\<close> by auto
  qed
qed

lemma substract_loop_points:
  assumes "rg_start rhs < rg_end rhs" "RangeSet_substract_loop rhs i v = Some v'"
  shows "list_points (vec_data v') =
    list_points (take i (vec_data v)) \<union> (list_points (drop i (vec_data v)) - points rhs)"
  using assms
proof (induction rhs i v rule: RangeSet_substract_loop.induct)
  case (1 rhs i v)
  let ?lhs = "vec_data v ! i"
  note eq = "1.prems"(2) [unfolded RangeSet_substract_loop.simps [of rhs i v]]
  show ?case
  proof (cases "i < VectorMax_size v")
    case False
    with eq show ?thesis
      by (simp add: VectorMax_size_def)
  next
    case i: True
    then have len: "i < length (vec_data v)"
      by (simp add: VectorMax_size_def)
    note IH = "1.IH" [OF i refl]
    note sp = points_split_at [OF len] and tud = take_update_drop [OF len]
    have take_i: "take (Suc i) (vec_data v) = take i (vec_data v) @ [?lhs]"
      using len by (rule take_Suc_conv_app_nth)
    consider (remove) "rg_start rhs \<le> rg_start ?lhs" "rg_end ?lhs \<le> rg_end rhs"
      | (left) "rg_start rhs \<le> rg_start ?lhs" "\<not> rg_end ?lhs \<le> rg_end rhs" "rg_start ?lhs < rg_end rhs"
      | (before) "rg_start rhs \<le> rg_start ?lhs" "\<not> rg_end ?lhs \<le> rg_end rhs" "\<not> rg_start ?lhs < rg_end rhs"
      | (right) "\<not> rg_start rhs \<le> rg_start ?lhs" "rg_start rhs < rg_end ?lhs" "rg_end ?lhs \<le> rg_end rhs"
      | (hole) "\<not> rg_start rhs \<le> rg_start ?lhs" "rg_start rhs < rg_end ?lhs" "\<not> rg_end ?lhs \<le> rg_end rhs"
      | (after) "\<not> rg_start rhs \<le> rg_start ?lhs" "\<not> rg_start rhs < rg_end ?lhs"
      by blast
    then show ?thesis
    proof cases
      case remove
      then have "points ?lhs \<subseteq> points rhs"
        by auto
      then show ?thesis
        using IH(1) [OF remove "1.prems"(1)] eq i remove sp remove_by_last [OF len]
        by (auto simp: Let_def)
    next
      case left
      have "points (?lhs\<lparr>rg_start := rg_end rhs\<rparr>) = points ?lhs - points rhs"
        using left "1.prems"(1) by auto
      then show ?thesis
        using IH(2) [OF left "1.prems"(1)] eq i left sp tud
        by (simp add: Let_def VectorMax_put_def Un_Diff Un_assoc)
    next
      case before
      have "points ?lhs - points rhs = points ?lhs"
        using before by auto
      then show ?thesis
        using IH(3) [OF before "1.prems"(1)] eq i before sp take_i
        by (simp add: Let_def Un_Diff Un_assoc)
    next
      case right
      have "points (?lhs\<lparr>rg_end := rg_start rhs\<rparr>) = points ?lhs - points rhs"
        using right "1.prems"(1) by auto
      then show ?thesis
        using IH(4) [OF right "1.prems"(1)] eq i right sp tud
        by (simp add: Let_def VectorMax_put_def Un_Diff Un_assoc)
    next
      case hole
      let ?v2 = "v\<lparr>vec_data := vec_data v @ [mk_range (rg_end rhs) (rg_end ?lhs)]\<rparr>"
      have push: "VectorMax_push_back v (mk_range (rg_end rhs) (rg_end ?lhs)) = Some ?v2"
        using eq i hole by (simp add: Let_def VectorMax_push_back_def split: if_splits)
      have "points (?lhs\<lparr>rg_end := rg_start rhs\<rparr>) \<union> points (mk_range (rg_end rhs) (rg_end ?lhs))
          = points ?lhs - points rhs"
        using hole "1.prems"(1) by auto
      moreover have "points (mk_range (rg_end rhs) (rg_end ?lhs)) - points rhs
          = points (mk_range (rg_end rhs) (rg_end ?lhs))"
        by auto
      ultimately show ?thesis
        using IH(5) [OF hole push "1.prems"(1)] eq i hole push sp tud len
        by (simp add: Let_def VectorMax_put_def Un_Diff list_update_append) (simp only: Un_ac)
    next
      case after
      have "points ?lhs - points rhs = points ?lhs"
        using after by auto
      then show ?thesis
        using IH(6) [OF after "1.prems"(1)] eq i after sp take_i
        by (simp add: Let_def Un_Diff Un_assoc)
    qed
  qed
qed

section \<open>Subtraction returns\<close>

definition splits :: "range \<Rightarrow> range \<Rightarrow> bool" where
  "splits rhs lhs \<longleftrightarrow> rg_start lhs < rg_start rhs \<and> rg_end rhs < rg_end lhs"

lemma mset_remove_by_last:
  assumes "i < length rs"
  shows "mset (drop i (butlast (rs[i := last rs]))) = mset (drop (Suc i) rs)"
proof (cases "Suc i = length rs")
  case True
  then show ?thesis
    using assms by (simp add: drop_butlast [symmetric] drop_update_swap)
next
  case False
  then have "drop (Suc i) rs \<noteq> []" and l: "last (drop (Suc i) rs) = last rs"
    using assms by auto
  then obtain qs q where qs: "drop (Suc i) rs = qs @ [q]"
    by (metis append_butlast_last_id)
  then have "drop i (rs[i := last rs]) = last rs # qs @ [q]" "q = last rs"
    using assms l by (auto simp: upd_conv_take_nth_drop)
  then show ?thesis
    using qs by (simp add: drop_butlast)
qed

lemma substract_loop_returns:
  assumes "rg_start rhs < rg_end rhs"
    and "length (vec_data v) + length (filter (splits rhs) (drop i (vec_data v))) \<le> vec_M v"
  shows "\<exists>v'. RangeSet_substract_loop rhs i v = Some v'"
  using assms
proof (induction rhs i v rule: RangeSet_substract_loop.induct)
  case (1 rhs i v)
  let ?lhs = "vec_data v ! i"
  show ?case
  proof (cases "i < VectorMax_size v")
    case False
    then show ?thesis
      by (subst RangeSet_substract_loop.simps) simp
  next
    case i: True
    then have len: "i < length (vec_data v)"
      by (simp add: VectorMax_size_def)
    note cap = "1.prems"(2)
    have d: "drop i (vec_data v) = ?lhs # drop (Suc i) (vec_data v)"
      using len by (simp add: Cons_nth_drop_Suc)
    consider (remove) "rg_start rhs \<le> rg_start ?lhs" "rg_end ?lhs \<le> rg_end rhs"
      | (hole) "\<not> rg_start rhs \<le> rg_start ?lhs" "rg_start rhs < rg_end ?lhs" "\<not> rg_end ?lhs \<le> rg_end rhs"
      | (other) "\<not> (rg_start rhs \<le> rg_start ?lhs \<and> rg_end ?lhs \<le> rg_end rhs)"
          "\<not> (\<not> rg_start rhs \<le> rg_start ?lhs \<and> rg_start rhs < rg_end ?lhs \<and> \<not> rg_end ?lhs \<le> rg_end rhs)"
      by blast
    then show ?thesis
    proof cases
      case remove
      have "length (filter (splits rhs) (drop i (butlast ((vec_data v)[i := last (vec_data v)]))))
          = length (filter (splits rhs) (drop (Suc i) (vec_data v)))"
        using mset_remove_by_last [OF len] by (metis mset_filter size_mset)
      then show ?thesis
        using 1(1) [OF i refl remove "1.prems"(1)] cap d i remove len
        by (subst RangeSet_substract_loop.simps) (auto simp: Let_def VectorMax_put_def split: if_splits)
    next
      case hole
      then have "splits rhs ?lhs"
        by (auto simp: splits_def)
      then have "length (vec_data v) < vec_M v"
        using cap d by simp
      then have push: "VectorMax_push_back v (mk_range (rg_end rhs) (rg_end ?lhs))
          = Some (v\<lparr>vec_data := vec_data v @ [mk_range (rg_end rhs) (rg_end ?lhs)]\<rparr>)"
        by (simp add: VectorMax_push_back_def VectorMax_size_def)
      have "\<not> splits rhs (mk_range (rg_end rhs) (rg_end ?lhs))"
        using "1.prems"(1) by (auto simp: splits_def)
      then show ?thesis
        using 1(5) [OF i refl hole push "1.prems"(1)] cap d i hole push len \<open>splits rhs ?lhs\<close>
        by (subst RangeSet_substract_loop.simps) (simp add: Let_def VectorMax_put_def list_update_append)
    next
      case other
      then show ?thesis
        using 1(2) [OF i refl _ _ _ "1.prems"(1)] 1(3) [OF i refl _ _ _ "1.prems"(1)]
          1(4) [OF i refl _ _ _ "1.prems"(1)] 1(6) [OF i refl _ _ "1.prems"(1)] cap d i len
        by (subst RangeSet_substract_loop.simps)
          (auto simp: Let_def VectorMax_put_def split: if_splits)
    qed
  qed
qed

text \<open>
  C5. Set subtraction of ranges. Subtracting a non-empty range from a vector of ranges returns
  whenever the vector has room for one more element per range that strictly encloses the
  subtrahend, and afterwards the vector covers exactly the points it covered before and the
  subtrahend does not.
\<close>

theorem RangeSet_substract_correct:
  assumes "rg_start rhs < rg_end rhs"
    and "length (vec_data v) + length (filter (splits rhs) (vec_data v)) \<le> vec_M v"
  shows "\<exists>v'. RangeSet_substract v rhs = Some v' \<and>
    list_points (vec_data v') = list_points (vec_data v) - points rhs"
proof -
  have "\<not> range_isEmpty rhs"
    using assms(1) by (auto simp: range_isEmpty_def range_getSize_def)
  moreover obtain v' where "RangeSet_substract_loop rhs 0 v = Some v'"
    using substract_loop_returns [of rhs v 0] assms by auto
  ultimately show ?thesis
    using substract_loop_points [of rhs 0 v v'] assms(1) by (simp add: RangeSet_substract_def)
qed

theorem RangeSet_substract_correct_witness:
  "\<exists>v'. RangeSet_substract \<lparr>vec_M = 4, vec_data = [mk_range 0 10, mk_range 20 30]\<rparr> (mk_range 4 6) = Some v' \<and>
    list_points (vec_data v') = list_points [mk_range 0 10, mk_range 20 30] - points (mk_range 4 6)"
  using RangeSet_substract_correct [of "mk_range 4 6" "\<lparr>vec_M = 4, vec_data = [mk_range 0 10, mk_range 20 30]\<rparr>"]
  by (simp add: splits_def)

end
