(* ===== verification/Cap_Ops.thy ===== *)
theory Cap_Ops
  imports Cap_Entry Ranges
begin

text \<open>
  The operations on capability entries in \<^verbatim>\<open>kernel/objects/capability-utils/objects/ops.hh\<close> and
  \<^verbatim>\<open>ops.cc\<close>: the test for the parent relation in the resource tree and the creation and removal of
  children.

  Kernel objects are reached through virtual methods. The methods this component calls are
  arguments: \<open>ar\<close> stands for \<^verbatim>\<open>addressRange\<close>, where no range means that an assertion of the object fails, and \<open>mint\<close> for \<^verbatim>\<open>mint\<close>; both may read the state \<open>c\<close> of
  the objects. A commit function is a state change of the caller, run while the parent is locked.
\<close>

type_synonym 'c address_range = "'c \<Rightarrow> u64 \<Rightarrow> u64 \<Rightarrow> cap \<Rightarrow> range option"
type_synonym 'c mint_fun = "'c \<Rightarrow> u64 \<Rightarrow> u64 \<Rightarrow> cap \<Rightarrow> u64 \<Rightarrow> bool \<Rightarrow> cap optional"

section \<open>Operations\<close>

definition isParentOf :: "'c address_range \<Rightarrow> 'c \<Rightarrow> u64 \<Rightarrow> cap \<Rightarrow> u64 \<Rightarrow> cap \<Rightarrow> bool option" where
  "isParentOf ar c parentEntry parent otherEntry other = do {
     ASSERT (cap_getPtr parent \<noteq> 0);
     ASSERT (cap_getPtr other \<noteq> 0);
     parentRange \<leftarrow> ar c (cap_getPtr parent) parentEntry parent;
     otherRange \<leftarrow> ar c (cap_getPtr other) otherEntry other;
     if \<not> range_contains parentRange otherRange then Some False
     else if \<not> range_contains otherRange parentRange then Some (\<not> cap_isReference parent)
     else do {
       ASSERT (parentRange = otherRange);
       if cap_isReference parent then Some False
       else if cap_isDerived parent then Some (cap_isDerivedReference other)
       else do {
         ASSERT (cap_isOriginal parent);
         ASSERT (\<not> cap_isDerivedReference other);
         Some True } } }"

text \<open>
  The two assertions at the end of the commit of \<^verbatim>\<open>inherit\<close> evaluate all their operands, since
  \<^verbatim>\<open>implies\<close> is a function; only the conjunction inside stops early.
\<close>

definition inherit_check :: "'c address_range \<Rightarrow> 'c \<Rightarrow> u64 \<Rightarrow> cap \<Rightarrow> u64 \<Rightarrow> cap \<Rightarrow> unit option" where
  "inherit_check ar c parentEntry parentCap targetEntry targetCap = do {
     a \<leftarrow> isParentOf ar c parentEntry parentCap targetEntry targetCap;
     b \<leftarrow> (if \<not> a then isParentOf ar c targetEntry targetCap parentEntry parentCap else Some True);
     ASSERT (implies (cap_isReference parentCap) (\<not> a \<and> \<not> b));
     a' \<leftarrow> isParentOf ar c parentEntry parentCap targetEntry targetCap;
     ASSERT (implies (\<not> cap_isReference parentCap) a') }"

definition inherit :: "'c address_range \<Rightarrow> u64 \<Rightarrow> cap \<Rightarrow> u64 \<Rightarrow> cap \<Rightarrow> ('c \<Rightarrow> 'c option) \<Rightarrow> store \<Rightarrow> 'c
     \<Rightarrow> (unit optional \<times> store \<times> 'c) option" where
  "inherit ar parentEntry parentCap targetEntry targetCap commit s c =
     CapEntry_insertAfter parentEntry parentCap targetEntry targetCap
       (\<lambda>s c. do { c' \<leftarrow> commit c; inherit_check ar c' parentEntry parentCap targetEntry targetCap; Some c' }) s c"

definition derive :: "'c address_range \<Rightarrow> 'c mint_fun \<Rightarrow> u64 \<Rightarrow> u64 \<Rightarrow> cap \<Rightarrow> u64 \<Rightarrow> store \<Rightarrow> 'c
     \<Rightarrow> (unit optional \<times> store \<times> 'c) option" where
  "derive ar mint parentEntry targetEntry parentCap request s c =
     (if \<not> cap_isUsable parentCap \<or> cap_isDerived parentCap then Some (Inl INVALID_CAPABILITY, s, c)
      else case mint c (cap_getPtr parentCap) parentEntry parentCap request True of
        Inl e \<Rightarrow> Some (Inl e, s, c)
      | Inr minted \<Rightarrow>
          (case CapEntry_acquire targetEntry s of
             (Inl e, s') \<Rightarrow> Some (Inl LOST_RACE, s', c)
           | (Inr _, s') \<Rightarrow>
               inherit ar parentEntry parentCap targetEntry (cap_asDerived (cap_stripReference minted)) Some s' c))"

definition reference :: "'c address_range \<Rightarrow> 'c mint_fun \<Rightarrow> u64 \<Rightarrow> u64 \<Rightarrow> cap \<Rightarrow> u64 \<Rightarrow> store \<Rightarrow> 'c
     \<Rightarrow> (unit optional \<times> store \<times> 'c) option" where
  "reference ar mint parentEntry targetEntry parentCap request s c =
     (if \<not> cap_isUsable parentCap then Some (Inl INVALID_CAPABILITY, s, c)
      else case mint c (cap_getPtr parentCap) parentEntry parentCap request False of
        Inl e \<Rightarrow> Some (Inl e, s, c)
      | Inr minted \<Rightarrow>
          (case CapEntry_acquire targetEntry s of
             (Inl e, s') \<Rightarrow> Some (Inl LOST_RACE, s', c)
           | (Inr _, s') \<Rightarrow>
               inherit ar parentEntry parentCap targetEntry (cap_asReference minted) Some s' c))"

definition setReference :: "'c address_range \<Rightarrow> u64 \<Rightarrow> cap \<Rightarrow> u64 \<Rightarrow> cap \<Rightarrow> ('c \<Rightarrow> 'c option) \<Rightarrow> store \<Rightarrow> 'c
     \<Rightarrow> (unit optional \<times> store \<times> 'c) option" where
  "setReference ar dst dstCap src srcCap commit s c = do {
     ASSERT (cap_isReference dstCap);
     (case CapEntry_acquire dst s of
        (Inl e, s') \<Rightarrow> Some (Inl LOST_RACE, s', c)
      | (Inr _, s') \<Rightarrow> inherit ar src srcCap dst dstCap commit s' c) }"

definition resetReference :: "u64 \<Rightarrow> (store \<Rightarrow> 'c \<Rightarrow> 'c option) \<Rightarrow> store \<Rightarrow> 'c \<Rightarrow> (bool \<times> store \<times> 'c) option" where
  "resetReference dst commit s c =
     (case CapEntry_kill dst s of (killed, s) \<Rightarrow>
        if \<not> killed then Some (False, s, c)
        else do {
          (locked, s) \<leftarrow> CapEntry_lock_prev dst s;
          if \<not> locked then Some (True, s, c)
          else do {
            s \<leftarrow> CapEntry_lock dst s;
            s \<leftarrow> CapEntry_unlink dst (snd (CapEntry_kill dst s));
            c \<leftarrow> commit s c;
            s \<leftarrow> CapEntry_reset dst s;
            Some (True, s, c) } })"

section \<open>The parent relation\<close>

text \<open>The range of a capability, whether or not it is already a zombie.\<close>

abbreviation cap_range :: "'c address_range \<Rightarrow> 'c \<Rightarrow> u64 \<Rightarrow> cap \<Rightarrow> range option" where
  "cap_range ar c e k \<equiv> ar c (cap_getPtr k) e k"

definition covers :: "range option \<Rightarrow> range option \<Rightarrow> bool" where
  "covers r r' \<longleftrightarrow> (\<exists>x y. r = Some x \<and> r' = Some y \<and> range_contains x y)"

lemma covers_Some [simp]: "covers (Some x) (Some y) = range_contains x y"
  by (simp add: covers_def)

lemma covers_None [simp]: "\<not> covers None r" "\<not> covers r None"
  by (simp_all add: covers_def)

lemma covers_antisym: "covers r r' \<Longrightarrow> covers r' r \<Longrightarrow> r = r'"
  using range_contains_antisym by (auto simp: covers_def)

lemma covers_trans: "covers r r' \<Longrightarrow> covers r' r'' \<Longrightarrow> covers r r''"
  using range_contains_trans by (auto simp: covers_def)

lemma isParentOf_total:
  assumes "cap_getPtr p \<noteq> 0" "cap_getPtr k \<noteq> 0" "\<not> (cap_isOriginal p \<and> cap_isDerivedReference k)"
    and "cap_range ar c pe p \<noteq> None" "cap_range ar c ke k \<noteq> None"
  shows "isParentOf ar c pe p ke k = Some
    (covers (cap_range ar c pe p) (cap_range ar c ke k) \<and> \<not> cap_isReference p \<and>
     (cap_range ar c pe p = cap_range ar c ke k \<and> cap_isDerived p \<longrightarrow> cap_isDerivedReference k))"
proof -
  obtain x y where "cap_range ar c pe p = Some x" "cap_range ar c ke k = Some y"
    using assms(4,5) by auto
  then show ?thesis
    using assms(1-3) range_contains_antisym [of x y]
    by (auto simp: isParentOf_def Let_def cap_isOriginal_def)
qed

lemma isParentOf_SomeD:
  assumes "isParentOf ar c pe p ke k = Some b"
  shows "b \<longleftrightarrow> covers (cap_range ar c pe p) (cap_range ar c ke k) \<and> \<not> cap_isReference p \<and>
     (cap_range ar c pe p = cap_range ar c ke k \<and> cap_isDerived p \<longrightarrow> cap_isDerivedReference k)"
    and "cap_getPtr p \<noteq> 0" "cap_getPtr k \<noteq> 0" "cap_range ar c pe p \<noteq> None" "cap_range ar c ke k \<noteq> None"
proof -
  obtain x y where r: "cap_range ar c pe p = Some x" "cap_range ar c ke k = Some y"
    using assms by (auto simp: isParentOf_def bind_eq_Some_conv)
  show "b \<longleftrightarrow> covers (cap_range ar c pe p) (cap_range ar c ke k) \<and> \<not> cap_isReference p \<and>
     (cap_range ar c pe p = cap_range ar c ke k \<and> cap_isDerived p \<longrightarrow> cap_isDerivedReference k)"
    "cap_getPtr p \<noteq> 0" "cap_getPtr k \<noteq> 0" "cap_range ar c pe p \<noteq> None" "cap_range ar c ke k \<noteq> None"
    using assms r range_contains_antisym [of x y]
    by (auto simp: isParentOf_def Let_def cap_isOriginal_def split: if_splits)
qed

text \<open>References are never parents, and nothing is its own parent unless it is an original.\<close>

lemma reference_not_parent: "isParentOf ar c pe p ke k = Some b \<Longrightarrow> cap_isReference p \<Longrightarrow> \<not> b"
  using isParentOf_SomeD(1) [of ar c pe p ke k b] by simp

text \<open>
  C6. Soundness of the parent test. Whenever the test answers yes, both capabilities have an address
  range, the child's lies within the parent's and the parent is no reference; and two capabilities can
  be parents of each other only if both are originals of exactly the same range.
\<close>

theorem isParentOf_sound:
  assumes "isParentOf ar c pe p ke k = Some True"
  shows "\<exists>parentRange childRange. cap_range ar c pe p = Some parentRange \<and> cap_range ar c ke k = Some childRange \<and>
    points childRange \<subseteq> points parentRange \<and> \<not> cap_isReference p \<and>
    (isParentOf ar c ke k pe p = Some True \<longrightarrow>
       parentRange = childRange \<and> cap_isOriginal p \<and> cap_isOriginal k)"
proof -
  note pk = isParentOf_SomeD(1) [OF assms]
  obtain x y where r: "cap_range ar c pe p = Some x" "cap_range ar c ke k = Some y" "range_contains x y"
    using pk by (auto simp: covers_def)
  have "x = y \<and> cap_isOriginal p \<and> cap_isOriginal k"
    if kp: "isParentOf ar c ke k pe p = Some True"
    using pk isParentOf_SomeD(1) [OF kp] r range_contains_antisym [of x y]
    by (auto simp: cap_isOriginal_def cap_isDerivedReference_def)
  then show ?thesis
    using pk r range_contains_points by blast
qed

text \<open>For the example, every object has the one-byte range at its own address.\<close>

theorem isParentOf_sound_witness:
  "\<exists>parentRange childRange. isParentOf (\<lambda>c p e k. Some (range_bySize p 1)) () 1 ex_cap 2 (cap_asReference ex_cap) = Some True \<and>
   cap_range (\<lambda>c p e k. Some (range_bySize p 1)) () 2 (cap_asReference ex_cap) = Some childRange \<and>
   cap_range (\<lambda>c p e k. Some (range_bySize p 1)) () 1 ex_cap = Some parentRange \<and> points childRange \<subseteq> points parentRange"
proof -
  have f: "f_ptr ex_cap \<noteq> 0" and o: "cap_isOriginal ex_cap"
    using ex_cap_usable by (simp_all add: cap_state_defs f_ref_bit f_der_bit ex_cap_def bit_numeral_rec)
  have k: "cap_getPtr (cap_asReference ex_cap) = cap_getPtr ex_cap" "\<not> cap_isDerivedReference (cap_asReference ex_cap)"
    using o by (simp_all add: cap_asReference_def cap_state_defs)
  have "cap_getPtr ex_cap \<noteq> 0"
    using cap_getPtr_nonzero [OF f] by (auto simp: isKernelAddress_def KERNELMEM_ADDR_def)
  then have "isParentOf (\<lambda>c p e k. Some (range_bySize p 1)) () 1 ex_cap 2 (cap_asReference ex_cap) = Some True"
    using o k by (simp add: isParentOf_total) (simp add: cap_isOriginal_def)
  from this isParentOf_sound [OF this] show ?thesis
    by auto
qed

section \<open>Linking a new entry below its parent\<close>

lemma inherit_step:
  assumes "ring s (p # zs)" "obj_ptr_ok t" "t \<notin> set (p # zs)" "cap_isAllocated (ce_cap (s t))"
    and "\<not> is_locked s p" "cap_isUsable (ce_cap (s p))" "commit c = Some c'"
    and "inherit_check ar c' p (ce_cap (s p)) t tc = Some ()"
  shows "inherit ar p (ce_cap (s p)) t tc commit s c = Some (Inr (), inserted p t tc (lockp p s), c')"
  unfolding inherit_def using assms(7,8) by (intro insertAfter_step [OF assms(1-6)]) simp

lemma acquire_empty:
  "cap_isEmpty (ce_cap (s t)) \<Longrightarrow> CapEntry_acquire t s = (Inr (), put_cap t cap_asAllocated s)"
  by (simp add: CapEntry_acquire_def CapEntry_tryAcquire_def cap_isEmpty_def cap_asEmpty_def cap_null_def)

lemma acquire_nonempty:
  "\<not> cap_isEmpty (ce_cap (s t)) \<Longrightarrow> CapEntry_acquire t s = (Inl CAP_NONEMPTY, s)"
  by (simp add: CapEntry_acquire_def CapEntry_tryAcquire_def cap_isEmpty_def cap_asEmpty_def cap_null_def)

text \<open>
  The store after an entry was acquired and linked behind its parent, read through its links, locks
  and capabilities.
\<close>

definition child_added :: "u64 \<Rightarrow> u64 \<Rightarrow> cap \<Rightarrow> store \<Rightarrow> store" where
  "child_added p t tc s = inserted p t tc (lockp p (put_cap t cap_asAllocated s))"

lemma child_added_reads:
  assumes "ring s (p # zs)" "obj_ptr_ok t" "t \<notin> set (p # zs)" "\<not> is_locked s p"
  shows "ring (child_added p t tc s) (p # t # zs)" "ce_cap (child_added p t tc s q) = (if q = t then tc else ce_cap (s q))"
    "q \<noteq> t \<Longrightarrow> is_locked (child_added p t tc s) q = is_locked s q" "\<not> is_locked (child_added p t tc s) t"
proof -
  have r: "ring (lockp p (put_cap t cap_asAllocated s)) (p # zs)"
    using assms(1) by simp
  note i = inserted_reads [OF r assms(2,3)]
  show "ring (child_added p t tc s) (p # t # zs)"
    unfolding child_added_def by (rule ring_inserted [OF r assms(2,3)])
  show "ce_cap (child_added p t tc s q) = (if q = t then tc else ce_cap (s q))"
    by (simp add: child_added_def i)
  show "is_locked (child_added p t tc s) q = is_locked s q" if "q \<noteq> t"
    using that assms(4) by (auto simp: child_added_def i)
  show "\<not> is_locked (child_added p t tc s) t"
    by (simp add: child_added_def i)
qed

lemma acquire_inherit_step:
  assumes "ring s (p # zs)" "obj_ptr_ok t" "t \<notin> set (p # zs)" "cap_isEmpty (ce_cap (s t))"
    and "\<not> is_locked s p" "cap_isUsable (ce_cap (s p))" "commit c = Some c'"
    and "inherit_check ar c' p (ce_cap (s p)) t tc = Some ()"
  shows "CapEntry_acquire t s = (Inr (), put_cap t cap_asAllocated s)"
    "inherit ar p (ce_cap (s p)) t tc commit (put_cap t cap_asAllocated s) c = Some (Inr (), child_added p t tc s, c')"
proof -
  have pt: "p \<noteq> t"
    using assms(3) by auto
  show "CapEntry_acquire t s = (Inr (), put_cap t cap_asAllocated s)"
    by (rule acquire_empty [of s t, OF assms(4)])
  show "inherit ar p (ce_cap (s p)) t tc commit (put_cap t cap_asAllocated s) c = Some (Inr (), child_added p t tc s, c')"
    using inherit_step [of "put_cap t cap_asAllocated s" p zs t commit c c' ar tc] assms pt
    by (simp add: child_added_def)
qed

text \<open>The assertions at the end of \<^verbatim>\<open>inherit\<close> hold for the three kinds of children the kernel creates.\<close>

lemma inherit_check_reference:
  assumes "cap_getPtr pc \<noteq> 0" "cap_getPtr tc \<noteq> 0" "covers (cap_range ar c p pc) (cap_range ar c t tc)"
    and "cap_isReference tc" "cap_isDerived tc = cap_isDerived pc"
  shows "inherit_check ar c p pc t tc = Some ()"
proof -
  have n: "cap_range ar c p pc \<noteq> None" "cap_range ar c t tc \<noteq> None"
    using assms(3) by (auto simp: covers_def)
  have "isParentOf ar c p pc t tc = Some (\<not> cap_isReference pc)"
    using assms n by (subst isParentOf_total) (auto simp: cap_isOriginal_def cap_isDerivedReference_def)
  moreover have "isParentOf ar c t tc p pc = Some False"
    using assms n by (subst isParentOf_total) (auto simp: cap_isOriginal_def)
  ultimately show ?thesis
    by (simp add: inherit_check_def implies_def)
qed

lemma inherit_check_derived:
  assumes "cap_getPtr pc \<noteq> 0" "cap_getPtr tc \<noteq> 0" "covers (cap_range ar c p pc) (cap_range ar c t tc)"
    and "cap_isDerived tc" "\<not> cap_isReference tc" "\<not> cap_isDerived pc"
  shows "inherit_check ar c p pc t tc = Some ()"
proof -
  have n: "cap_range ar c p pc \<noteq> None" "cap_range ar c t tc \<noteq> None"
    using assms(3) by (auto simp: covers_def)
  have "isParentOf ar c p pc t tc = Some (\<not> cap_isReference pc)"
    using assms n by (subst isParentOf_total) (auto simp: cap_isDerivedReference_def)
  moreover have "isParentOf ar c t tc p pc = Some False"
    using assms n covers_antisym [of "cap_range ar c p pc" "cap_range ar c t tc"]
    by (subst isParentOf_total) (auto simp: cap_isDerivedReference_def)
  ultimately show ?thesis
    by (simp add: inherit_check_def implies_def)
qed

lemma inherit_check_object:
  assumes "cap_getPtr pc \<noteq> 0" "cap_getPtr tc \<noteq> 0" "covers (cap_range ar c p pc) (cap_range ar c t tc)"
    and "\<not> covers (cap_range ar c t tc) (cap_range ar c p pc)"
  shows "inherit_check ar c p pc t tc = Some ()"
  using assms by (auto simp: inherit_check_def isParentOf_def implies_def Let_def covers_def)

section \<open>Creating references\<close>

text \<open>
  What a \<^verbatim>\<open>mint\<close> for a reference promises: the minted capability points to an object, keeps the
  derivation flag and covers no more than the capability it was made from.
\<close>

definition minted_ok :: "'c address_range \<Rightarrow> 'c \<Rightarrow> u64 \<Rightarrow> cap \<Rightarrow> u64 \<Rightarrow> cap \<Rightarrow> bool" where
  "minted_ok ar c p pc t m \<longleftrightarrow> cap_getPtr m \<noteq> 0 \<and> cap_isDerived m = cap_isDerived pc \<and>
     covers (cap_range ar c p pc) (cap_range ar c t (cap_asReference m))"

lemma usable_getPtr: "cap_isUsable k \<Longrightarrow> cap_getPtr k \<noteq> 0"
  using cap_getPtr_nonzero [of k] by (auto simp: cap_state_defs isKernelAddress_def KERNELMEM_ADDR_def)

lemma asReference_simps [simp]:
  "cap_getPtr (cap_asReference k) = cap_getPtr k" "cap_isReference (cap_asReference k)"
  "cap_isDerived (cap_asReference k) = cap_isDerived k" "f_ptr (cap_asReference k) = f_ptr k"
  by (simp_all add: cap_asReference_def cap_isReference_def cap_isDerived_def)

lemma reference_step:
  assumes "ring s (p # zs)" "obj_ptr_ok t" "t \<notin> set (p # zs)" "cap_isEmpty (ce_cap (s t))"
    and "\<not> is_locked s p" "cap_isUsable (ce_cap (s p))"
    and "mint c (cap_getPtr (ce_cap (s p))) p (ce_cap (s p)) req False = Inr m" "minted_ok ar c p (ce_cap (s p)) t m"
  shows "reference ar mint p t (ce_cap (s p)) req s c = Some (Inr (), child_added p t (cap_asReference m) s, c)"
proof -
  have chk: "inherit_check ar c p (ce_cap (s p)) t (cap_asReference m) = Some ()"
    using assms(8) usable_getPtr [OF assms(6)]
    by (intro inherit_check_reference) (simp_all add: minted_ok_def)
  show ?thesis
    using acquire_inherit_step [where commit = Some and c = c and c' = c, OF assms(1-6) refl chk] assms(6,7)
    by (simp add: reference_def)
qed

lemma reference_refused:
  "\<not> cap_isUsable pc \<Longrightarrow> reference ar mint p t pc req s c = Some (Inl INVALID_CAPABILITY, s, c)"
  "cap_isUsable pc \<Longrightarrow> mint c (cap_getPtr pc) p pc req False = Inl e \<Longrightarrow>
     reference ar mint p t pc req s c = Some (Inl e, s, c)"
  "cap_isUsable pc \<Longrightarrow> mint c (cap_getPtr pc) p pc req False = Inr m \<Longrightarrow> \<not> cap_isEmpty (ce_cap (s t)) \<Longrightarrow>
     reference ar mint p t pc req s c = Some (Inl LOST_RACE, s, c)"
  by (simp_all add: reference_def acquire_nonempty)

section \<open>Binding and unbinding references\<close>

lemma setReference_step:
  assumes "ring s (src # zs)" "obj_ptr_ok dst" "dst \<notin> set (src # zs)" "cap_isEmpty (ce_cap (s dst))"
    and "\<not> is_locked s src" "cap_isUsable (ce_cap (s src))" "commit c = Some c'" "cap_isReference dstCap"
    and "inherit_check ar c' src (ce_cap (s src)) dst dstCap = Some ()"
  shows "setReference ar dst dstCap src (ce_cap (s src)) commit s c = Some (Inr (), child_added src dst dstCap s, c')"
  using acquire_inherit_step [where commit = commit, OF assms(1-7,9)] assms(8) by (simp add: setReference_def)

lemma setReference_eq:
  assumes "ring s (src # zs)" "obj_ptr_ok dst" "dst \<notin> set (src # zs)" "cap_isEmpty (ce_cap (s dst))"
    and "\<not> is_locked s src" "cap_isUsable (ce_cap (s src))" "commit c = Some c'" "cap_isReference dstCap"
  shows "setReference ar dst dstCap src (ce_cap (s src)) commit s c =
    Option.bind (inherit_check ar c' src (ce_cap (s src)) dst dstCap) (\<lambda>_. Some (Inr (), child_added src dst dstCap s, c'))"
proof (cases "inherit_check ar c' src (ce_cap (s src)) dst dstCap")
  case None
  have "isKernelAddress src" "src \<noteq> dst"
    using assms(1,3) by (auto simp: ring_def obj_ptr_ok_def)
  then show ?thesis
    using None assms(4-8) acquire_empty [of s dst, OF assms(4)]
    by (simp add: setReference_def inherit_def CapEntry_insertAfter_def step_simps Let_def)
qed (use setReference_step [where commit = commit, OF assms] in simp)

lemma unlink_keeps_cap: "CapEntry_unlink d s = Some u \<Longrightarrow> ce_cap (u q) = ce_cap (s q)"
  by (auto simp: CapEntry_unlink_def put_prev_def put_next_def Let_def bind_eq_Some_conv)

lemma resetReference_step:
  assumes "ring s (d # zs)" "zs \<noteq> []" "live s d" "\<not> is_locked s d" "\<not> is_locked s (prevp s d)"
    and "\<And>s'. ce_cap (s' d) = cap_asZombie (ce_cap (s d)) \<Longrightarrow> commit s' c = Some c'"
  shows "\<exists>s'. resetReference d commit s c = Some (True, s', c') \<and> ring s' zs \<and> s' d = empty_entry \<and>
    (\<forall>q. q \<noteq> d \<longrightarrow> ce_cap (s' q) = ce_cap (s q) \<and> is_locked s' q = is_locked s q)"
proof -
  note n = ring_neighbours [OF assms(1,2)]
  let ?s1 = "lockp d (lockp (prevp s d) (killp d s))"
  have z: "cap_isZombie (ce_cap (?s1 d))"
    using assms(3) by (simp add: live_def)
  have k: "CapEntry_kill d ?s1 = (True, killp d ?s1)"
    by (rule CapEntry_kill_live) (use z in \<open>simp only: live_cases simp_thms\<close>)
  have kk: "killp d ?s1 = ?s1"
    by (rule store_eqI) (simp_all add: killp_def)
  have r: "ring ?s1 (d # zs)"
    using assms(1) by (simp add: killp_def)
  obtain u where u: "CapEntry_unlink d ?s1 = Some u" "CapEntry_reset d u = Some (removed d ?s1)"
    using remove_leaf(1) [OF r assms(2) z] by (auto simp: bind_eq_Some_conv)
  have c: "commit u c = Some c'"
    using unlink_keeps_cap [OF u(1), of d] by (intro assms(6)) (simp add: killp_def)
  have "resetReference d commit s c = Some (True, removed d ?s1, c')"
    using assms(3-5) n(7,9) k kk u c by (simp add: resetReference_def step_simps)
  moreover have "is_locked (removed d ?s1) q = is_locked s q" if "q \<noteq> d" for q
    using that assms(5) by auto
  ultimately show ?thesis
    using remove_leaf(2) [OF r assms(2) z] by (intro exI [of _ "removed d ?s1"]) simp
qed

text \<open>
  C7. Unbinding a reference. For a linked entry with a capability, unlocked together with its
  predecessor, \<^verbatim>\<open>resetReference\<close> returns true, runs the unbinding function exactly once, takes the
  entry out of the ring and empties it; every other entry keeps its capability and its lock state.
\<close>

theorem resetReference_correct:
  assumes "ring s (d # zs)" "zs \<noteq> []" "live s d" "\<not> is_locked s d" "\<not> is_locked s (prevp s d)"
    and "\<And>s'. ce_cap (s' d) = cap_asZombie (ce_cap (s d)) \<Longrightarrow> commit s' c = Some c'"
  shows "\<exists>s'. resetReference d commit s c = Some (True, s', c') \<and> ring s' zs \<and> s' d = empty_entry \<and>
    (\<forall>q. q \<noteq> d \<longrightarrow> ce_cap (s' q) = ce_cap (s q) \<and> is_locked s' q = is_locked s q)"
  by (rule resetReference_step [OF assms(1-5)]) (rule assms(6))

text \<open>An entry that holds nothing stays as it is, and no unbinding happens.\<close>

lemma resetReference_empty:
  "\<not> live s d \<Longrightarrow> resetReference d commit s c = Some (False, s, c)"
  by (simp add: resetReference_def CapEntry_kill_def live_def cap_state_defs)

theorem resetReference_correct_witness:
  "ring (ex_pair ex_cap) [ex_child, ex_root] \<and>
   (\<exists>s'. resetReference ex_child (\<lambda>s n. Some (Suc n)) (ex_pair ex_cap) 0 = Some (True, s', 1) \<and>
      ring s' [ex_root] \<and> s' ex_child = empty_entry)"
proof -
  have r: "ring (ex_pair ex_cap) [ex_child, ex_root]"
    by (simp add: ring_def)
  have "\<not> is_locked (ex_pair ex_cap) ex_child" "\<not> is_locked (ex_pair ex_cap) ex_root"
    by (simp_all add: ex_pair_def is_locked_bit bit_numeral_rec)
  moreover have "live (ex_pair ex_cap) ex_child"
    by (simp add: live_cases)
  ultimately show ?thesis
    using r resetReference_correct [OF r, where commit = "\<lambda>s n. Some (Suc n)" and c = 0 and c' = 1] by auto
qed

end
