(* ===== verification/Frame_Data.thy ===== *)
theory Frame_Data
  imports Cap_Ops Align
begin

text \<open>
  Frames: the sizes in \<^verbatim>\<open>kernel/mythos/invocation/mythos/protocol/Frame.hh\<close>, the capability data of
  frames in \<^verbatim>\<open>kernel/objects/memory-amd64/objects/FrameDataAmd64.hh\<close>, and the two kinds of objects
  that hand out frames, \<^verbatim>\<open>MemoryRegion.hh\<close> and \<^verbatim>\<open>DeviceMemory.hh\<close> of the same directory. A frame
  capability points to a region and stores the part of the region it gives access to.
\<close>

section \<open>Frame sizes\<close>

definition PAGE_MIN_SIZE :: u64 where "PAGE_MIN_SIZE = 0x1000"
definition FRAME_MIN_SIZE :: u64 where "FRAME_MIN_SIZE = PAGE_MIN_SIZE"
definition FRAME_SIZE_FACTOR :: u64 where "FRAME_SIZE_FACTOR = 2"
definition PAGE_SIZE_FACTOR :: u64 where "PAGE_SIZE_FACTOR = 0x200"
definition REGION_MAX_SIZE :: u64 where "REGION_MAX_SIZE = FRAME_MIN_SIZE * 0x2000000"
definition DEVICE_REGIONS :: u64 where "DEVICE_REGIONS = 0x1000000000000 div REGION_MAX_SIZE"

lemmas frame_consts = PAGE_MIN_SIZE_def FRAME_MIN_SIZE_def FRAME_SIZE_FACTOR_def PAGE_SIZE_FACTOR_def REGION_MAX_SIZE_def

text \<open>The recursion ends only for a base above one.\<close>

partial_function (option) logBase :: "u64 \<Rightarrow> u64 \<Rightarrow> u64 option" where
  "logBase n base =
     (if n < base then Some 0
      else if base = 0 then None
      else Option.bind (logBase (n div base) base) (\<lambda>l. Some (1 + l)))"

definition frameBits2Size :: "u64 \<Rightarrow> u64" where
  "frameBits2Size bits = push_bit (unat bits) FRAME_MIN_SIZE"

definition frameSize2Bits :: "u64 \<Rightarrow> u64 option" where
  "frameSize2Bits sz = logBase (sz div FRAME_MIN_SIZE) FRAME_SIZE_FACTOR"

definition pageLevel2Size :: "u64 \<Rightarrow> u64" where
  "pageLevel2Size level = push_bit (9 * unat level) PAGE_MIN_SIZE"

definition pageSize2Level :: "u64 \<Rightarrow> u64 option" where
  "pageSize2Level sz = logBase (sz div PAGE_MIN_SIZE) PAGE_SIZE_FACTOR"

section \<open>Capability data of frames\<close>

definition fd_writable :: "u32 \<Rightarrow> bool" where "fd_writable d = BoolField_get 0 d"
definition fd_device :: "u32 \<Rightarrow> bool" where "fd_device d = BoolField_get 1 d"
definition fd_sizeBits :: "u32 \<Rightarrow> u32" where "fd_sizeBits d = UIntField_get 2 5 d"
definition fd_offset :: "u32 \<Rightarrow> u32" where "fd_offset d = UIntField_get 7 25 d"

definition FrameData_getSize :: "u32 \<Rightarrow> u64" where
  "FrameData_getSize d = frameBits2Size (ucast (fd_sizeBits d))"

definition FrameData_size :: "u64 \<Rightarrow> u32 \<Rightarrow> u32 option" where
  "FrameData_size sz d = do {
     bits \<leftarrow> frameSize2Bits sz;
     ASSERT (sz = frameBits2Size bits);
     UIntField_call 2 5 d bits }"

definition FrameData_getStart :: "u64 \<Rightarrow> u32 \<Rightarrow> u64" where
  "FrameData_getStart base d = base + ucast (fd_offset d) * FRAME_MIN_SIZE"

definition FrameData_getEnd :: "u64 \<Rightarrow> u32 \<Rightarrow> u64" where
  "FrameData_getEnd base d = FrameData_getStart base d + FrameData_getSize d"

definition FrameData_start :: "u64 \<Rightarrow> u64 \<Rightarrow> u32 \<Rightarrow> u32 option" where
  "FrameData_start base addr d = do {
     ASSERT (base \<le> addr \<and> addr < base + REGION_MAX_SIZE);
     UIntField_call 7 25 d ((addr - base) div FRAME_MIN_SIZE) }"

text \<open>A request of a frame has the layout of the data, in a wider word.\<close>

definition fr_writable :: "u64 \<Rightarrow> bool" where "fr_writable r = BoolField_get 0 r"
definition fr_device :: "u64 \<Rightarrow> bool" where "fr_device r = BoolField_get 1 r"
definition fr_sizeBits :: "u64 \<Rightarrow> u64" where "fr_sizeBits r = UIntField_get 2 5 r"
definition fr_offset :: "u64 \<Rightarrow> u64" where "fr_offset r = UIntField_get 7 25 r"

definition FrameData_subRegion :: "cap \<Rightarrow> u64 \<Rightarrow> u64 \<Rightarrow> u64 \<Rightarrow> bool \<Rightarrow> cap optional option" where
  "FrameData_subRegion self base sz r deriving =
     (let old = cap_data self;
          oldRange = range_bySize (FrameData_getStart base old) (if cap_isOriginal self then sz else FrameData_getSize old);
          newRange = range_bySize (FrameData_getStart base old + FRAME_MIN_SIZE * fr_offset r) (frameBits2Size (fr_sizeBits r))
      in if \<not> range_contains oldRange newRange then Some (Inl INSUFFICIENT_RESOURCES)
         else if fr_writable r \<and> \<not> fd_writable old then Some (Inl INSUFFICIENT_RESOURCES)
         else if \<not> fr_device r \<and> fd_device old then Some (Inl INSUFFICIENT_RESOURCES)
         else do {
           res \<leftarrow> FrameData_start base (rg_start newRange) (BoolField_put 1 (BoolField_put 0 0 (fr_writable r)) (fr_device r));
           res \<leftarrow> FrameData_size (range_getSize newRange) res;
           Some (Inr (if deriving then cap_withData (cap_asDerived self) res else cap_withData (cap_asReference self) res)) })"

section \<open>Regions\<close>

record frame_info =
  fi_start :: u64
  fi_size :: u64
  fi_device :: bool
  fi_writable :: bool

record mem_region =
  mr_base :: u64
  mr_size :: u64
  mr_mem :: u64

definition MemoryRegion_getFrameInfo :: "mem_region \<Rightarrow> cap \<Rightarrow> frame_info" where
  "MemoryRegion_getFrameInfo m self =
     (let c = cap_data self in
      \<lparr>fi_start = FrameData_getStart (mr_base m) c, fi_size = (if cap_isOriginal self then mr_size m else FrameData_getSize c),
       fi_device = fd_device c, fi_writable = fd_writable c\<rparr>)"

definition MemoryRegion_addressRange :: "mem_region \<Rightarrow> cap \<Rightarrow> range" where
  "MemoryRegion_addressRange m self =
     (let c = cap_data self in
      range_bySize (FrameData_getStart (mr_base m) c) (if cap_isOriginal self then mr_size m else FrameData_getSize c))"

definition MemoryRegion_mint :: "mem_region \<Rightarrow> cap \<Rightarrow> u64 \<Rightarrow> bool \<Rightarrow> cap optional option" where
  "MemoryRegion_mint m self request deriving = FrameData_subRegion self (mr_base m) (mr_size m) request deriving"

text \<open>Whether the object is handed to the deleter.\<close>

definition MemoryRegion_deleteCap :: "cap \<Rightarrow> bool \<times> unit optional" where
  "MemoryRegion_deleteCap self = (cap_isOriginal self, Inr ())"

text \<open>The blocks returned to the memory the region came from.\<close>

definition MemoryRegion_deleteObject :: "u64 \<Rightarrow> u64 \<Rightarrow> mem_region \<Rightarrow> (u64 \<times> u64) list option" where
  "MemoryRegion_deleteObject size_of this m = do {
     p \<leftarrow> physPtr_logint (mr_base m);
     Some [(p, mr_size m), (this, size_of)] }"

text \<open>The fixed regions of device memory cover the physical address space; each is described by its base.\<close>

definition DeviceMemory_region_base :: "u64 \<Rightarrow> u64" where
  "DeviceMemory_region_base i = REGION_MAX_SIZE * i"

definition Region_getFrameInfo :: "u64 \<Rightarrow> cap \<Rightarrow> frame_info" where
  "Region_getFrameInfo base self =
     (let c = cap_data self in
      \<lparr>fi_start = FrameData_getStart base c, fi_size = (if cap_isOriginal self then REGION_MAX_SIZE else FrameData_getSize c),
       fi_device = fd_device c, fi_writable = fd_writable c\<rparr>)"

definition Region_addressRange :: "u64 \<Rightarrow> cap \<Rightarrow> range" where
  "Region_addressRange base self =
     (let c = cap_data self in
      range_bySize (FrameData_getStart base c) (if cap_isOriginal self then REGION_MAX_SIZE else FrameData_getSize c))"

definition Region_mint :: "u64 \<Rightarrow> cap \<Rightarrow> u64 \<Rightarrow> bool \<Rightarrow> cap optional option" where
  "Region_mint base self request deriving = FrameData_subRegion self base REGION_MAX_SIZE request deriving"

definition DeviceMemory_addressRange :: range where
  "DeviceMemory_addressRange = mk_range 0 (NOT 0)"

text \<open>The address of the \<open>i\<close>-th region object is the argument \<open>region_ptr i\<close>.\<close>

definition DeviceMemory_deriveFrame :: "(u64 \<Rightarrow> u64) \<Rightarrow> 'c address_range \<Rightarrow> u64 \<Rightarrow> cap \<Rightarrow> u64 \<Rightarrow> u64 \<Rightarrow> u64 \<Rightarrow> bool \<Rightarrow> store \<Rightarrow> 'c
    \<Rightarrow> (unit optional \<times> store \<times> 'c) option" where
  "DeviceMemory_deriveFrame region_ptr ar rootEntry rootCap dstEntry addr sz writable s c =
     (if addr div REGION_MAX_SIZE \<ge> DEVICE_REGIONS then Some (Inl INSUFFICIENT_RESOURCES, s, c)
      else do {
        a \<leftarrow> is_aligned addr align4K;
        b \<leftarrow> (if a then is_aligned sz align4K else Some False);
        if \<not> b then Some (Inl UNALIGNED, s, c)
        else do {
          sizeBits \<leftarrow> frameSize2Bits sz;
          if sz \<noteq> frameBits2Size sizeBits then Some (Inl UNALIGNED, s, c)
          else do {
            let obj = region_ptr (addr div REGION_MAX_SIZE);
            let base = DeviceMemory_region_base (addr div REGION_MAX_SIZE);
            rd \<leftarrow> round_down addr REGION_MAX_SIZE;
            ASSERT (base = rd);
            (case CapEntry_acquire dstEntry s of
               (Inl e, s) \<Rightarrow> Some (Inl LOST_RACE, s, c)
             | (Inr _, s) \<Rightarrow> do {
                 d \<leftarrow> FrameData_start base addr 0;
                 d \<leftarrow> UIntField_call 2 5 d sizeBits;
                 let capData = BoolField_put 0 (BoolField_put 1 d True) writable;
                 cap \<leftarrow> mk_cap obj capData 0;
                 inherit ar rootEntry rootCap dstEntry (cap_asDerived cap) Some s c }) } } })"

section \<open>Sizes and fields\<close>

lemma unat_2_power: "b < 64 \<Longrightarrow> unat ((2 :: u64) ^ b) = 2 ^ b"
proof -
  assume "b < 64"
  then have "(2::nat) ^ b < 2 ^ 64"
    by (intro power_strict_increasing) auto
  then have "unat (word_of_nat (2 ^ b) :: u64) = 2 ^ b"
    by (simp add: unat_of_nat del: of_nat_power)
  then show ?thesis
    by simp
qed

lemma unat_push_bit_1: "b < 64 \<Longrightarrow> unat (push_bit b (1 :: u64)) = 2 ^ b"
  by (simp add: push_bit_eq_mult unat_2_power)

lemma logBase_2: "b < 64 \<Longrightarrow> logBase (push_bit b 1) 2 = Some (word_of_nat b)"
proof (induction b)
  case 0
  show ?case
    by (subst logBase.simps) simp
next
  case (Suc b)
  have "unat (push_bit (Suc b) (1 :: u64) div 2) = unat (push_bit b (1 :: u64))"
    using Suc.prems by (simp only: unat_div unat_push_bit_1) (simp add: unat_push_bit_1)
  then have d: "push_bit (Suc b) (1 :: u64) div 2 = push_bit b 1"
    by (simp only: word_unat_eq_iff)
  have "unat (2 :: u64) \<le> unat (push_bit (Suc b) (1 :: u64))"
    using Suc.prems by (simp only: unat_push_bit_1) simp
  then have "\<not> push_bit (Suc b) (1 :: u64) < 2"
    by (simp only: word_less_nat_alt not_less)
  then show ?case
    using Suc d by (subst logBase.simps) simp
qed

lemma unat_frameBits2Size: "unat bits < 52 \<Longrightarrow> unat (frameBits2Size bits) = 4096 * 2 ^ unat bits"
proof -
  assume b: "unat bits < 52"
  have "(2::nat) ^ unat bits \<le> 2 ^ 51"
    using b by (intro power_increasing) auto
  then have "unat (2 ^ unat bits * 0x1000 :: u64) = unat (2 ^ unat bits :: u64) * 4096"
    using b by (subst unat_mult_lem [THEN iffD1]) (simp_all add: unat_2_power)
  then show ?thesis
    using b by (simp add: frameBits2Size_def push_bit_eq_mult frame_consts unat_2_power mult.commute)
qed

text \<open>The size of every frame determines its number of bits.\<close>

lemma frameSize2Bits_inverse: "unat bits < 52 \<Longrightarrow> frameSize2Bits (frameBits2Size bits) = Some bits"
proof -
  assume b: "unat bits < 52"
  have "unat (frameBits2Size bits div FRAME_MIN_SIZE) = unat (push_bit (unat bits) (1 :: u64))"
    using b by (simp add: unat_div unat_frameBits2Size unat_push_bit_1 frame_consts del: push_bit_of_1)
  then have "frameBits2Size bits div FRAME_MIN_SIZE = push_bit (unat bits) 1"
    by (simp only: word_unat_eq_iff)
  then show ?thesis
    using b logBase_2 [of "unat bits"] by (simp add: frameSize2Bits_def FRAME_SIZE_FACTOR_def)
qed

lemma drop_bit_zero_iff: "drop_bit k (v :: 'a::len word) = 0 \<longleftrightarrow> unat v < 2 ^ k"
proof -
  have "drop_bit k v = 0 \<longleftrightarrow> unat (drop_bit k v) = 0"
    by (simp only: unat_eq_zero)
  then show ?thesis
    by (simp only: unsigned_drop_bit_eq) (simp only: drop_bit_eq_div div_eq_0_iff take_bit_nat_eq_self_iff [THEN iffD2, OF unsigned_less], simp)
qed

lemma unat_UIntField_get:
  fixes val :: "'a::len word"
  assumes "START + BITS \<le> LENGTH('a)" "LENGTH('a) \<le> 64"
  shows "unat (UIntField_get START BITS val) < 2 ^ BITS"
proof -
  have "drop_bit BITS (UIntField_get START BITS val) = 0"
    by (rule bit_word_eqI) (use assms in \<open>auto simp: bit_drop_bit_eq field_bits\<close>)
  then show ?thesis
    by (simp add: drop_bit_zero_iff)
qed

lemma frame_field_bounds:
  "unat (fd_offset d) < 2 ^ 25" "unat (fd_sizeBits d) < 2 ^ 5" "unat (fr_offset r) < 2 ^ 25" "unat (fr_sizeBits r) < 2 ^ 5"
  unfolding fd_offset_def fd_sizeBits_def fr_offset_def fr_sizeBits_def
  by (rule unat_UIntField_get; simp)+

section \<open>Frames never grow\<close>

text \<open>A region below the 48 bit limit and not above the size that the offsets of frames can express.\<close>

definition region_ok :: "mem_region \<Rightarrow> bool" where
  "region_ok m \<longleftrightarrow> unat (mr_base m) + unat (mr_size m) \<le> 2 ^ 48 \<and> mr_size m \<le> REGION_MAX_SIZE"

definition frame_size :: "mem_region \<Rightarrow> cap \<Rightarrow> u64" where
  "frame_size m c = (if cap_isOriginal c then mr_size m else FrameData_getSize (cap_data c))"

definition frame_inside :: "mem_region \<Rightarrow> cap \<Rightarrow> bool" where
  "frame_inside m c \<longleftrightarrow> unat (fd_offset (cap_data c)) * 4096 + unat (frame_size m c) \<le> unat (mr_size m)"

lemma unat_frame_mult: "unat v < 2 ^ 25 \<Longrightarrow> unat (v * FRAME_MIN_SIZE) = unat v * 4096"
  by (subst unat_mult_lem [THEN iffD1]) (simp_all add: frame_consts)

lemma unat_ucast_small: "unat (x :: u64) < 2 ^ 32 \<Longrightarrow> unat (ucast x :: u32) = unat x"
  by (simp add: unsigned_ucast_eq take_bit_nat_eq_self)

lemma unat_getStart:
  assumes "region_ok m" "unat (fd_offset d) * 4096 \<le> unat (mr_size m)"
  shows "unat (FrameData_getStart (mr_base m) d) = unat (mr_base m) + unat (fd_offset d) * 4096"
proof -
  have o: "unat (ucast (fd_offset d) * FRAME_MIN_SIZE) = unat (fd_offset d) * 4096"
    using unat_frame_mult [of "ucast (fd_offset d)"] frame_field_bounds(1) [of d] by simp
  then show ?thesis
    using assms by (simp add: FrameData_getStart_def region_ok_def unat_add_small)
qed

lemma unat_getSize: "unat (FrameData_getSize d) = 4096 * 2 ^ unat (fd_sizeBits d)"
  using frame_field_bounds(2) [of d] by (simp add: FrameData_getSize_def unat_frameBits2Size)

text \<open>The data of a frame, built from its parts.\<close>

definition frame_data :: "u64 \<Rightarrow> u64 \<Rightarrow> bool \<Rightarrow> bool \<Rightarrow> u32" where
  "frame_data off bits dev wr = UIntField_put 2 5 (UIntField_put 7 25 (BoolField_put 1 (BoolField_put 0 0 wr) dev) off) bits"

lemma frame_data_fields:
  assumes "unat off < 2 ^ 25" "unat bits < 2 ^ 5"
  shows "fd_offset (frame_data off bits dev wr) = ucast off" "fd_sizeBits (frame_data off bits dev wr) = ucast bits"
    "fd_device (frame_data off bits dev wr) = dev" "fd_writable (frame_data off bits dev wr) = wr"
  using assms by (simp_all add: frame_data_def fd_offset_def fd_sizeBits_def fd_device_def fd_writable_def field_laws drop_bit_zero_iff)

lemma frame_data_built:
  assumes "unat base + (unat off + 1) * 4096 \<le> 2 ^ 48" "unat off < 2 ^ 25" "unat bits < 2 ^ 5"
  shows "Option.bind (FrameData_start base (base + off * FRAME_MIN_SIZE) (BoolField_put 1 (BoolField_put 0 0 wr) dev))
      (FrameData_size (frameBits2Size bits)) = Some (frame_data off bits dev wr)"
proof -
  have o: "unat (off * FRAME_MIN_SIZE) = unat off * 4096"
    by (rule unat_frame_mult [OF assms(2)])
  have a: "unat (base + off * FRAME_MIN_SIZE) = unat base + unat off * 4096"
    using assms(1) o by (subst unat_add_small) simp_all
  have e: "unat (base + REGION_MAX_SIZE) = unat base + 2 ^ 37"
    using assms(1) by (subst unat_add_small) (simp_all add: frame_consts)
  have "unat ((base + off * FRAME_MIN_SIZE - base) div FRAME_MIN_SIZE) = unat off"
    using o by (simp add: unat_div frame_consts)
  then have q: "(base + off * FRAME_MIN_SIZE - base) div FRAME_MIN_SIZE = off"
    by (simp only: word_unat_eq_iff)
  have "base \<le> base + off * FRAME_MIN_SIZE" "base + off * FRAME_MIN_SIZE < base + REGION_MAX_SIZE"
    using a e assms(2) by (simp_all add: word_le_nat_alt word_less_nat_alt)
  then show ?thesis
    using q assms(2,3) frameSize2Bits_inverse [of bits]
    by (simp add: FrameData_start_def FrameData_size_def UIntField_call_def drop_bit_zero_iff frame_data_def)
qed

lemma subRegion_contained:
  assumes m: "region_ok m" and c: "frame_inside m self"
    and sub: "range_contains (MemoryRegion_addressRange m self)
      (range_bySize (FrameData_getStart (mr_base m) (cap_data self) + FRAME_MIN_SIZE * fr_offset r) (frameBits2Size (fr_sizeBits r)))"
  shows "(unat (fd_offset (cap_data self)) + unat (fr_offset r)) * 4096 + 4096 * 2 ^ unat (fr_sizeBits r) \<le>
      unat (fd_offset (cap_data self)) * 4096 + unat (frame_size m self)"
proof -
  let ?d = "cap_data self"
  have bits: "unat (frameBits2Size (fr_sizeBits r)) = 4096 * 2 ^ unat (fr_sizeBits r)" "(2::nat) ^ unat (fr_sizeBits r) \<le> 2 ^ 31"
    using frame_field_bounds(4) [of r] power_increasing [of "unat (fr_sizeBits r)" 31 "2 :: nat"] by (simp_all add: unat_frameBits2Size)
  have off: "unat (FRAME_MIN_SIZE * fr_offset r) = unat (fr_offset r) * 4096"
    using unat_frame_mult [OF frame_field_bounds(3)] by (simp add: mult.commute)
  have st: "unat (FrameData_getStart (mr_base m) ?d) = unat (mr_base m) + unat (fd_offset ?d) * 4096"
    using c by (intro unat_getStart [OF m]) (simp add: frame_inside_def)
  have "unat (FrameData_getStart (mr_base m) ?d + frame_size m self) = unat (mr_base m) + unat (fd_offset ?d) * 4096 + unat (frame_size m self)"
    using st m c by (subst unat_add_small) (simp_all add: region_ok_def frame_inside_def)
  moreover have "unat (FrameData_getStart (mr_base m) ?d + FRAME_MIN_SIZE * fr_offset r + frameBits2Size (fr_sizeBits r)) =
      unat (mr_base m) + unat (fd_offset ?d) * 4096 + unat (fr_offset r) * 4096 + 4096 * 2 ^ unat (fr_sizeBits r)"
    using st off bits m frame_field_bounds(3,4) [of r] frame_field_bounds(1,2) [of ?d]
    by (simp add: unat_add_small region_ok_def)
  ultimately show ?thesis
    using sub by (simp add: MemoryRegion_addressRange_def range_contains_def range_bySize_def mk_range_def word_le_nat_alt
      frame_size_def Let_def split: if_splits)
qed

lemma sub_bounds:
  fixes a b p :: nat
  assumes "(a + b) * 4096 + 4096 * p \<le> a * 4096 + z" "a * 4096 + z \<le> n" "n \<le> 2 ^ 37" "base + n \<le> 2 ^ 48" "1 \<le> p"
  shows "a + b < 2 ^ 25" "base + (a + b + 1) * 4096 \<le> 2 ^ 48"
  using assms by simp_all

lemma subRegion_granted:
  assumes m: "region_ok m" and c: "frame_inside m self"
    and sub: "range_contains (MemoryRegion_addressRange m self)
      (range_bySize (FrameData_getStart (mr_base m) (cap_data self) + FRAME_MIN_SIZE * fr_offset r) (frameBits2Size (fr_sizeBits r)))"
    and rights: "fr_writable r \<longrightarrow> fd_writable (cap_data self)" "fd_device (cap_data self) \<longrightarrow> fr_device r"
  obtains k where "MemoryRegion_mint m self r deriving = Some (Inr k)" "frame_inside m k"
    "MemoryRegion_addressRange m k =
      range_bySize (FrameData_getStart (mr_base m) (cap_data self) + FRAME_MIN_SIZE * fr_offset r) (frameBits2Size (fr_sizeBits r))"
    "frame_size m k = frameBits2Size (fr_sizeBits r)" "fd_device (cap_data k) = fr_device r" "fd_writable (cap_data k) = fr_writable r"
    "\<not> cap_isOriginal k" "cap_getPtr k = cap_getPtr self" "if deriving then cap_isDerived k else cap_isReference k"
proof -
  let ?d = "cap_data self" and ?off = "ucast (fd_offset (cap_data self)) + fr_offset r" and ?bits = "fr_sizeBits r"
  let ?new = "range_bySize (FrameData_getStart (mr_base m) ?d + FRAME_MIN_SIZE * fr_offset r) (frameBits2Size ?bits)"
  let ?old = "MemoryRegion_addressRange m self"
  have old: "range_bySize (FrameData_getStart (mr_base m) ?d) (if cap_isOriginal self then mr_size m else FrameData_getSize ?d) = ?old"
    by (simp add: MemoryRegion_addressRange_def Let_def)
  note le = subRegion_contained [OF m c sub]
  have sz: "unat (mr_size m) \<le> 2 ^ 37"
    using m by (simp add: region_ok_def frame_consts word_le_nat_alt)
  have ub: "unat ?off = unat (fd_offset ?d) + unat (fr_offset r)"
    using frame_field_bounds(3,4) [of r] frame_field_bounds(1,2) [of ?d] by (subst unat_add_small) simp_all
  have ob: "unat ?off < 2 ^ 25" "unat (mr_base m) + (unat ?off + 1) * 4096 \<le> 2 ^ 48"
  proof -
    have h: "unat (fd_offset ?d) * 4096 + unat (frame_size m self) \<le> unat (mr_size m)" "unat (mr_base m) + unat (mr_size m) \<le> 2 ^ 48"
      "1 \<le> (2 :: nat) ^ unat ?bits"
      using c m by (simp_all add: frame_inside_def region_ok_def)
    show "unat ?off < 2 ^ 25" "unat (mr_base m) + (unat ?off + 1) * 4096 \<le> 2 ^ 48"
      unfolding ub by (rule sub_bounds [OF le h(1) sz h(2,3)])+
  qed
  define k where "k = (if deriving then cap_withData (cap_asDerived self) (frame_data ?off ?bits (fr_device r) (fr_writable r))
    else cap_withData (cap_asReference self) (frame_data ?off ?bits (fr_device r) (fr_writable r)))"
  have st: "FrameData_getStart (mr_base m) ?d + FRAME_MIN_SIZE * fr_offset r = mr_base m + ?off * FRAME_MIN_SIZE"
    by (simp add: FrameData_getStart_def algebra_simps)
  obtain y where y: "FrameData_start (mr_base m) (mr_base m + ?off * FRAME_MIN_SIZE) (BoolField_put 1 (BoolField_put 0 0 (fr_writable r)) (fr_device r)) = Some y"
    "FrameData_size (frameBits2Size ?bits) y = Some (frame_data ?off ?bits (fr_device r) (fr_writable r))"
    using frame_data_built [OF ob(2,1) frame_field_bounds(4) [of r], where wr = "fr_writable r" and dev = "fr_device r"]
    by (auto simp: bind_eq_Some_conv)
  have new: "rg_start ?new = mr_base m + ?off * FRAME_MIN_SIZE" "range_getSize ?new = frameBits2Size ?bits"
    by (simp_all add: range_bySize_def range_getSize_def st)
  have no: "\<not> \<not> range_contains ?old ?new" "\<not> (fr_writable r \<and> \<not> fd_writable ?d)" "\<not> (\<not> fr_device r \<and> fd_device ?d)"
    using sub rights by auto
  have call: "MemoryRegion_mint m self r deriving = Some (Inr k)"
    unfolding MemoryRegion_mint_def FrameData_subRegion_def Let_def old k_def
    by (simp only: no new y if_False bind.bind_lunit)
  note f = frame_data_fields [OF ob(1) frame_field_bounds(4) [of r], where wr = "fr_writable r" and dev = "fr_device r"]
  have d: "cap_data k = frame_data ?off ?bits (fr_device r) (fr_writable r)" "\<not> cap_isOriginal k"
    "cap_getPtr k = cap_getPtr self" "if deriving then cap_isDerived k else cap_isReference k"
    by (auto simp: k_def cap_data_def cap_update_defs cap_state_defs)
  have uo: "unat (ucast ?off :: u32) = unat ?off" "unat (ucast ?bits :: u32) = unat ?bits"
    using ob(1) frame_field_bounds(4) [of r] by (simp_all add: unat_ucast_small)
  then have uo': "ucast (ucast ?off :: u32) = ?off" "ucast (ucast ?bits :: u32) = ?bits"
    by (simp_all add: word_unat_eq_iff)
  have k: "frame_size m k = frameBits2Size ?bits" "MemoryRegion_addressRange m k = ?new"
    using d(1,2) f uo' by (simp_all add: frame_size_def MemoryRegion_addressRange_def Let_def FrameData_getSize_def FrameData_getStart_def st [unfolded FrameData_getStart_def])
  have "frame_inside m k"
    using le c d(1) f k(1) ub uo frame_field_bounds(4) [of r] by (simp add: frame_inside_def unat_frameBits2Size)
  then show thesis
    using that [OF call] d f k by simp
qed

text \<open>
  C24. A frame capability never grants more than the one it was made from. For a capability whose frame
  lies inside its region, every request to derive or to reference is answered: either it is refused
  for insufficient resources, or the new capability points to the same region, is not an original,
  covers exactly the requested part, which lies inside the frame of the old capability and inside the
  region, is writable only if the old one was, and stays marked as device memory if the old one was.
\<close>

theorem subRegion_confined:
  assumes m: "region_ok m" and c: "frame_inside m self"
  shows "\<exists>res. MemoryRegion_mint m self r deriving = Some res \<and>
    (case res of
       Inl e \<Rightarrow> e = INSUFFICIENT_RESOURCES
     | Inr k \<Rightarrow> frame_inside m k \<and> range_contains (MemoryRegion_addressRange m self) (MemoryRegion_addressRange m k) \<and>
         cap_getPtr k = cap_getPtr self \<and> \<not> cap_isOriginal k \<and> (if deriving then cap_isDerived k else cap_isReference k) \<and>
         rg_start (MemoryRegion_addressRange m k) = rg_start (MemoryRegion_addressRange m self) + FRAME_MIN_SIZE * fr_offset r \<and>
         frame_size m k = frameBits2Size (fr_sizeBits r) \<and>
         (fd_writable (cap_data k) \<longrightarrow> fd_writable (cap_data self)) \<and> (fd_device (cap_data self) \<longrightarrow> fd_device (cap_data k)))"
proof -
  let ?d = "cap_data self" and ?old = "MemoryRegion_addressRange m self"
  let ?new = "range_bySize (FrameData_getStart (mr_base m) ?d + FRAME_MIN_SIZE * fr_offset r) (frameBits2Size (fr_sizeBits r))"
  have st: "rg_start ?old = FrameData_getStart (mr_base m) ?d" "rg_start ?new = FrameData_getStart (mr_base m) ?d + FRAME_MIN_SIZE * fr_offset r"
    by (simp_all add: MemoryRegion_addressRange_def range_bySize_def Let_def)
  show ?thesis
  proof (cases "range_contains ?old ?new \<and> (fr_writable r \<longrightarrow> fd_writable ?d) \<and> (fd_device ?d \<longrightarrow> fr_device r)")
    case True
    show ?thesis
    proof (rule subRegion_granted [OF m c, of r deriving])
      fix k assume "MemoryRegion_mint m self r deriving = Some (Inr k)" "frame_inside m k" "MemoryRegion_addressRange m k = ?new"
        "frame_size m k = frameBits2Size (fr_sizeBits r)" "fd_device (cap_data k) = fr_device r" "fd_writable (cap_data k) = fr_writable r"
        "\<not> cap_isOriginal k" "cap_getPtr k = cap_getPtr self" "if deriving then cap_isDerived k else cap_isReference k"
      then show ?thesis
        using True st by (intro exI [of _ "Inr k"]) simp
    qed (use True in simp_all)
  next
    case False
    then have "MemoryRegion_mint m self r deriving = Some (Inl INSUFFICIENT_RESOURCES)"
      by (auto simp: MemoryRegion_mint_def FrameData_subRegion_def MemoryRegion_addressRange_def Let_def)
    then show ?thesis
      by simp
  qed
qed

definition ex_region :: mem_region where
  "ex_region = \<lparr>mr_base = 0x100000, mr_size = 0x4000, mr_mem = 0\<rparr>"

lemma ex_frame_ok: "region_ok ex_region" "frame_inside ex_region ex_cap"
proof -
  have "cap_isOriginal ex_cap" "fd_offset (cap_data ex_cap) = 0"
    by (simp_all add: cap_state_defs cap_data_def f_data_def f_ref_def f_der_def ex_cap_def fd_offset_def
      UIntField_get_def UIntField_MASK_def BoolField_get_def BoolField_MASK_def)
  then show "frame_inside ex_region ex_cap"
    by (simp add: frame_inside_def frame_size_def)
  show "region_ok ex_region"
    by (simp add: region_ok_def ex_region_def frame_consts)
qed

theorem subRegion_confined_witness:
  "region_ok ex_region \<and> frame_inside ex_region ex_cap \<and>
   (\<exists>res. MemoryRegion_mint ex_region ex_cap 0 False = Some res \<and>
      (case res of Inl e \<Rightarrow> e = INSUFFICIENT_RESOURCES | Inr k \<Rightarrow> frame_inside ex_region k \<and> cap_isReference k))"
  using ex_frame_ok subRegion_confined [OF ex_frame_ok, of 0 False] by (fastforce split: sum.splits)

section \<open>Device memory\<close>

text \<open>A device region is a memory region of the largest size, for all that a frame capability can observe.\<close>

lemma Region_as_MemoryRegion:
  fixes base mem :: u64
  defines "m \<equiv> \<lparr>mr_base = base, mr_size = REGION_MAX_SIZE, mr_mem = mem\<rparr>"
  shows "Region_addressRange base = MemoryRegion_addressRange m" "Region_getFrameInfo base = MemoryRegion_getFrameInfo m"
    "Region_mint base = MemoryRegion_mint m"
  by (simp_all add: fun_eq_iff m_def Region_addressRange_def MemoryRegion_addressRange_def Region_getFrameInfo_def
    MemoryRegion_getFrameInfo_def Region_mint_def MemoryRegion_mint_def Let_def)

lemma unat_REGION_MAX_SIZE: "unat REGION_MAX_SIZE = 2 ^ 37" "unat DEVICE_REGIONS = 2 ^ 11"
  by (simp_all add: frame_consts DEVICE_REGIONS_def)

lemma device_base:
  assumes "unat addr < 2 ^ 48"
  shows "round_down addr REGION_MAX_SIZE = Some (DeviceMemory_region_base (addr div REGION_MAX_SIZE))"
    "\<not> DEVICE_REGIONS \<le> addr div REGION_MAX_SIZE"
proof -
  show "round_down addr REGION_MAX_SIZE = Some (DeviceMemory_region_base (addr div REGION_MAX_SIZE))"
    by (simp add: round_down_def DeviceMemory_region_base_def frame_consts mult.commute)
  have "unat addr div 2 ^ 37 < 2 ^ 11"
    using assms by (simp add: div_less_iff_less_mult)
  then show "\<not> DEVICE_REGIONS \<le> addr div REGION_MAX_SIZE"
    by (simp add: word_le_nat_alt unat_div unat_REGION_MAX_SIZE)
qed

text \<open>
  The size of a device frame is limited only by the address arithmetic. A request for a frame of
  \<open>2 ^ 44\<close> bytes or more passes all checks, and then runs into the assertion of the five bit wide
  size field.
\<close>

lemma deriveFrame_oversize:
  assumes "unat addr < 2 ^ 48" "4096 dvd unat addr" "32 \<le> unat bits" "unat bits < 52" "cap_isEmpty (ce_cap (s dst))"
  shows "DeviceMemory_deriveFrame region_ptr ar rootEntry rootCap dst addr (frameBits2Size bits) wr s c = None"
proof -
  have "4096 dvd unat (frameBits2Size bits)"
    using assms(4) by (simp add: unat_frameBits2Size)
  then have al: "is_aligned addr align4K = Some True" "is_aligned (frameBits2Size bits) align4K = Some True"
    using assms(2) by (simp_all add: is_aligned_iff align4K_def)
  have "(2::nat) ^ 5 \<le> unat bits"
    using assms(3) by simp
  then have "UIntField_call 2 5 d bits = None" for d :: u32
    by (simp add: UIntField_call_def drop_bit_zero_iff)
  then show ?thesis
    using device_base [OF assms(1)] al frameSize2Bits_inverse [OF assms(4)] acquire_empty [of s dst, OF assms(5)]
    by (simp add: DeviceMemory_deriveFrame_def Let_def bind_eq_None_conv)
qed

end
