(* ===== verification/Kernel_Memory.thy ===== *)
theory Kernel_Memory
  imports Cap_Ops First_Fit_Heap Monitors
begin

text \<open>
  Kernel memory: \<^verbatim>\<open>kernel/objects/kernel-memory/objects/KernelMemory.hh\<close> and \<^verbatim>\<open>KernelMemory.cc\<close>. A kernel
  memory object manages a range of the direct mapped area with a first-fit heap and counts the blocks
  it handed out. The object's own state is a record; a pool of such objects, addressed by pointer, is
  the state of the factory, which creates a child memory inside a parent one and links its capability
  into the resource tree.
\<close>

section \<open>State\<close>

record mem_desc =
  md_ptr :: u64
  md_size :: u64
  md_alignment :: u64

record km =
  km_parent :: u64
  km_heap :: ff_heap
  km_range :: range
  km_memory :: "mem_desc list"
  km_del :: del_mon

section \<open>Operations of the object\<close>

definition KernelMemory_new :: "u64 \<Rightarrow> u64 \<Rightarrow> u64 \<Rightarrow> range \<Rightarrow> km option" where
  "KernelMemory_new size_of this parent r = do {
     phys \<leftarrow> physPtr_fromKernel (rg_start r);
     Some \<lparr>km_parent = parent, km_heap = empty_heap, km_range = range_bySize phys (range_getSize r),
       km_memory = [\<lparr>md_ptr = rg_start r, md_size = range_getSize r, md_alignment = 0\<rparr>,
                    \<lparr>md_ptr = this, md_size = size_of, md_alignment = 0\<rparr>],
       km_del = DeletionMonitor_init\<rparr> }"

definition KernelMemory_alloc :: "u64 \<Rightarrow> u64 \<Rightarrow> km \<Rightarrow> (u64 optional \<times> km) option" where
  "KernelMemory_alloc len alignment k = do {
     (result, h) \<leftarrow> FirstFitHeap_alloc len alignment (km_heap k);
     let k = k\<lparr>km_heap := h\<rparr>;
     case result of
       Inr a \<Rightarrow> Some (Inr a, k\<lparr>km_del := DeletionMonitor_acquireRef (km_del k)\<rparr>)
     | Inl e \<Rightarrow> Some (rethrow_error result, k) }"

definition KernelMemory_free :: "u64 \<Rightarrow> u64 \<Rightarrow> km \<Rightarrow> (place_event list \<times> km) option" where
  "KernelMemory_free ptr len k = do {
     phys \<leftarrow> physPtr_fromKernel ptr;
     ASSERT (range_contains (km_range k) (range_bySize phys len));
     let (ev, d) = DeletionMonitor_releaseRef (km_del k);
     h \<leftarrow> FirstFitHeap_free ptr len (km_heap k);
     Some (ev, k\<lparr>km_del := d, km_heap := h\<rparr>) }"

fun KernelMemory_free_array :: "mem_desc list \<Rightarrow> km \<Rightarrow> (place_event list \<times> km) option" where
  "KernelMemory_free_array [] k = Some ([], k)"
| "KernelMemory_free_array (d # ds) k = do {
     (ev, k) \<leftarrow> KernelMemory_free (md_ptr d) (md_size d) k;
     (evs, k) \<leftarrow> KernelMemory_free_array ds k;
     Some (ev @ evs, k) }"

text \<open>The loop over the descriptors: the result of the last request, the filled prefix and the rest.\<close>

fun alloc_array_loop :: "mem_desc list \<Rightarrow> km \<Rightarrow> (u64 optional \<times> mem_desc list \<times> mem_desc list \<times> km) option" where
  "alloc_array_loop [] k = Some (Inr 1, [], [], k)"
| "alloc_array_loop (d # ds) k = do {
     ASSERT (md_size d > 0);
     ASSERT (md_ptr d = 0);
     (result, h) \<leftarrow> FirstFitHeap_alloc (md_size d) (md_alignment d) (km_heap k);
     let k = k\<lparr>km_heap := h\<rparr>;
     case result of
       Inr a \<Rightarrow> do {
         let k = k\<lparr>km_del := DeletionMonitor_acquireRef (km_del k)\<rparr>;
         (res, done, rest, k) \<leftarrow> alloc_array_loop ds k;
         Some (res, d\<lparr>md_ptr := a\<rparr> # done, rest, k) }
     | Inl e \<Rightarrow> Some (result, [], d # ds, k) }"

definition KernelMemory_alloc_array :: "mem_desc list \<Rightarrow> km \<Rightarrow> (unit optional \<times> mem_desc list \<times> place_event list \<times> km) option" where
  "KernelMemory_alloc_array ds k = do {
     (result, done, rest, k) \<leftarrow> alloc_array_loop ds k;
     if opt_isError result then do {
       (ev, k) \<leftarrow> KernelMemory_free_array done k;
       Some (rethrow_error result, done @ rest, ev, k) }
     else Some (Inr (), done @ rest, [], k) }"

definition KernelMemory_addRange :: "u64 \<Rightarrow> u64 \<Rightarrow> km \<Rightarrow> km option" where
  "KernelMemory_addRange start len k =
     (if \<not> physPtr_kernelmem start then Some k
      else do {
        slog \<leftarrow> physPtr_logint start;
        let add = range_bySize slog len;
        olog \<leftarrow> physPtr_logint (rg_start (km_range k));
        let own = range_bySize olog (range_getSize (km_range k));
        let add = range_cut add own;
        if range_isEmpty add then Some k
        else do {
          h \<leftarrow> FirstFitHeap_addRange (rg_start add) (range_getSize add) (km_heap k);
          Some (k\<lparr>km_heap := h\<rparr>) } })"

definition KernelMemory_addressRange :: "km \<Rightarrow> range" where
  "KernelMemory_addressRange k = km_range k"

definition KernelMemory_mint :: "cap \<Rightarrow> u64 \<Rightarrow> bool \<Rightarrow> cap optional" where
  "KernelMemory_mint self request deriving = (if deriving then Inl INVALID_REQUEST else Inr self)"

text \<open>Whether \<^verbatim>\<open>deleteCap\<close> hands the object to the deleter.\<close>

definition KernelMemory_deleteCap :: "cap \<Rightarrow> bool \<times> unit optional" where
  "KernelMemory_deleteCap self = (cap_isOriginal self, Inr ())"

text \<open>The final deletion returns both memory descriptors to the parent; the root memory has none.\<close>

definition KernelMemory_deleteObject :: "u64 \<Rightarrow> km \<Rightarrow> (place_event list \<times> km) option" where
  "KernelMemory_deleteObject t k = do {
     ASSERT (km_parent k \<noteq> 0);
     let (ev, d) = DeletionMonitor_doDelete t (km_del k);
     Some (ev, k\<lparr>km_del := d\<rparr>) }"

section \<open>Creating kernel memory\<close>

type_synonym kms = "u64 \<Rightarrow> km option"

definition km_update :: "u64 \<Rightarrow> (km \<Rightarrow> ('a \<times> km) option) \<Rightarrow> kms \<Rightarrow> ('a \<times> kms) option" where
  "km_update a f w = do { k \<leftarrow> w a; (x, k) \<leftarrow> f k; Some (x, w(a \<mapsto> k)) }"

definition KernelMemoryFactory_factory :: "u64 \<Rightarrow> kms address_range \<Rightarrow> u64 \<Rightarrow> u64 \<Rightarrow> cap \<Rightarrow> u64 \<Rightarrow> u64 \<Rightarrow> u64 \<Rightarrow> store \<Rightarrow> kms
    \<Rightarrow> (u64 optional \<times> store \<times> kms) option" where
  "KernelMemoryFactory_factory size_of ar dstEntry memEntry memCap mem sz alignment s w = do {
     al \<leftarrow> is_aligned alignment align4K;
     ok \<leftarrow> (if \<not> al then Some False else is_aligned sz alignment);
     if \<not> ok then Some (Inl UNALIGNED, s, w)
     else do {
       (region, w) \<leftarrow> km_update mem (KernelMemory_alloc sz alignment) w;
       case region of
         Inl e \<Rightarrow> do { s \<leftarrow> CapEntry_reset dstEntry s; Some (rethrow_error region, s, w) }
       | Inr reg \<Rightarrow> do {
           (obj, w) \<leftarrow> km_update mem (KernelMemory_alloc size_of 64) w;
           case obj of
             Inl e \<Rightarrow> do {
               (ev, w) \<leftarrow> km_update mem (KernelMemory_free reg sz) w;
               s \<leftarrow> CapEntry_reset dstEntry s;
               Some (rethrow_error obj, s, w) }
           | Inr this \<Rightarrow> do {
               k \<leftarrow> KernelMemory_new size_of this mem (mk_range reg (reg + sz));
               let w = w(this \<mapsto> k);
               cap \<leftarrow> mk_cap this 0 0;
               (res, s, w) \<leftarrow> inherit ar memEntry memCap dstEntry cap Some s w;
               case res of
                 Inl e \<Rightarrow> do {
                   let w = w(this := None);
                   (ev, w) \<leftarrow> km_update mem (KernelMemory_free this size_of) w;
                   (ev', w) \<leftarrow> km_update mem (KernelMemory_free reg sz) w;
                   Some (rethrow_error res, s, w) }
               | Inr _ \<Rightarrow> do {
                   phys \<leftarrow> physPtr_fromKernel reg;
                   (u, w) \<leftarrow> km_update this (\<lambda>k. do { k \<leftarrow> KernelMemory_addRange phys sz k; Some ((), k) }) w;
                   Some (Inr this, s, w) } } } } }"

section \<open>The invariant\<close>

text \<open>The logical addresses of the managed range, and a heap whose free memory lies inside.\<close>

definition km_own :: "km \<Rightarrow> nat set" where
  "km_own k = {unat KERNELMEM_ADDR + unat (rg_start (km_range k)) ..< unat KERNELMEM_ADDR + unat (rg_end (km_range k))}"

definition km_ok :: "km \<Rightarrow> nat set \<Rightarrow> bool" where
  "km_ok k X \<longleftrightarrow> heap_rep (km_heap k) X \<and> X \<subseteq> km_own k \<and> rg_end (km_range k) \<le> KERNELMEM_SIZE"

definition desc_block :: "mem_desc \<Rightarrow> nat set" where
  "desc_block d = block (md_ptr d) (md_size d)"

lemma block_own:
  assumes "km_ok k X0" "block a len \<subseteq> km_own k" "heap_block a len"
  shows "\<exists>phys. physPtr_fromKernel a = Some phys \<and> range_contains (km_range k) (range_bySize phys len)"
proof -
  have up: "unat len \<le> up_to (unat len) HA" "0 < unat len"
    using up_to_ge [OF heapAlign_simps(3)] assms(3) by (auto simp: heap_block_def)
  have "unat a \<in> block a len" "unat a + up_to (unat len) HA - 1 \<in> block a len"
    using up by (auto simp: block_def simp del: unat_gt_0)
  then have own: "unat a \<in> km_own k" "unat a + up_to (unat len) HA - 1 \<in> km_own k"
    using assms(2) by blast+
  have e: "unat (rg_end (km_range k)) \<le> 2 ^ 32"
    using assms(1) by (simp add: km_ok_def KERNELMEM_SIZE_def word_le_nat_alt)
  have a: "unat KERNELMEM_ADDR + unat (rg_start (km_range k)) \<le> unat a"
    "unat a + unat len \<le> unat KERNELMEM_ADDR + unat (rg_end (km_range k))"
    using own up by (auto simp: km_own_def simp del: unat_gt_0)
  have kern: "isKernelAddress a"
    using a e up(2) by (simp add: isKernelAddress_def word_le_nat_alt word_less_nat_alt layout_defs)
  have p: "unat (a - KERNELMEM_ADDR) = unat a - unat KERNELMEM_ADDR"
    using a by (intro unat_sub_small) linarith
  have "unat (a - KERNELMEM_ADDR + len) = unat (a - KERNELMEM_ADDR) + unat len"
    using a e p by (intro unat_add_small) (simp add: layout_defs)
  then have "range_contains (km_range k) (range_bySize (a - KERNELMEM_ADDR) len)"
    using a p by (simp add: range_contains_def range_bySize_def mk_range_def word_le_nat_alt) linarith
  then show ?thesis
    using kern by (simp add: physPtr_fromKernel_def)
qed

section \<open>Allocation and deallocation\<close>

lemma KernelMemory_free_step:
  assumes "km_ok k X" "heap_block a len" "block a len \<subseteq> km_own k" "block a len \<inter> X = {}"
  shows "\<exists>ev k'. KernelMemory_free a len k = Some (ev, k') \<and> km_ok k' (X \<union> block a len) \<and> km_range k' = km_range k \<and>
    dm_refcount (km_del k') = dm_refcount (km_del k) - 1"
proof -
  obtain phys where phys: "physPtr_fromKernel a = Some phys" "range_contains (km_range k) (range_bySize phys len)"
    using block_own [OF assms(1,3,2)] by blast
  obtain h where h: "FirstFitHeap_free a len (km_heap k) = Some h" "heap_rep h (X \<union> block a len)"
    using heap_pool.dealloc_block [of "km_heap k" X a len] assms by (auto simp: km_ok_def)
  then show ?thesis
    using phys assms(1,3) by (auto simp: KernelMemory_free_def km_ok_def km_own_def DeletionMonitor_releaseRef_def Let_def)
qed

abbreviation apart :: "mem_desc list \<Rightarrow> bool" where
  "apart ds \<equiv> sorted_wrt (\<lambda>d d'. desc_block d \<inter> desc_block d' = {}) ds"

lemma km_own_cong: "km_range k' = km_range k \<Longrightarrow> km_own k' = km_own k"
  by (simp add: km_own_def)

lemma KernelMemory_free_array_step:
  "km_ok k X \<Longrightarrow> \<forall>d\<in>set ds. heap_block (md_ptr d) (md_size d) \<and> desc_block d \<subseteq> km_own k \<and> desc_block d \<inter> X = {} \<Longrightarrow> apart ds \<Longrightarrow>
   \<exists>ev k'. KernelMemory_free_array ds k = Some (ev, k') \<and> km_ok k' (X \<union> \<Union>(desc_block ` set ds)) \<and> km_range k' = km_range k \<and>
     dm_refcount (km_del k') = dm_refcount (km_del k) - word_of_nat (length ds)"
proof (induction ds arbitrary: k X)
  case (Cons d ds)
  then obtain ev k1 where k1: "KernelMemory_free (md_ptr d) (md_size d) k = Some (ev, k1)" "km_ok k1 (X \<union> desc_block d)"
    "km_range k1 = km_range k" "dm_refcount (km_del k1) = dm_refcount (km_del k) - 1"
    using KernelMemory_free_step [of k X "md_ptr d" "md_size d"] by (auto simp: desc_block_def)
  have "\<forall>e\<in>set ds. heap_block (md_ptr e) (md_size e) \<and> desc_block e \<subseteq> km_own k1 \<and> desc_block e \<inter> (X \<union> desc_block d) = {}"
    using Cons.prems(2,3) km_own_cong [OF k1(3)] by auto
  then obtain evs k2 where "KernelMemory_free_array ds k1 = Some (evs, k2)" "km_ok k2 (X \<union> desc_block d \<union> \<Union>(desc_block ` set ds))"
    "km_range k2 = km_range k1" "dm_refcount (km_del k2) = dm_refcount (km_del k1) - word_of_nat (length ds)"
    using Cons.IH [OF k1(2)] Cons.prems(3) by auto
  then show ?case
    using k1 by (simp add: Un_assoc)
qed simp

text \<open>What the loop over the descriptors has reached when it stops.\<close>

lemma alloc_array_loop_step:
  "km_ok k X \<Longrightarrow> \<forall>d\<in>set ds. md_ptr d = 0 \<and> heap_request X (md_size d) (md_alignment d) \<Longrightarrow>
   \<exists>res done rest k'. alloc_array_loop ds k = Some (res, done, rest, k') \<and>
     (if rest = [] then res \<in> range Inr else res = Inl UNSET) \<and>
     map md_size (done @ rest) = map md_size ds \<and> apart done \<and> \<Union>(desc_block ` set done) \<subseteq> X \<and>
     (\<forall>d\<in>set done. heap_block (md_ptr d) (md_size d) \<and> unat (md_alignment d) dvd unat (md_ptr d)) \<and>
     km_ok k' (X - \<Union>(desc_block ` set done)) \<and> km_range k' = km_range k \<and>
     dm_refcount (km_del k') = dm_refcount (km_del k) + word_of_nat (length done)"
proof (induction ds arbitrary: k X)
  case (Cons d ds)
  have d: "md_ptr d = 0" "heap_request X (md_size d) (md_alignment d)" "0 < md_size d"
    using Cons.prems(2) by (auto simp: heap_request_def word_less_nat_alt)
  have "heap_rep (km_heap k) X"
    using Cons.prems(1) by (simp add: km_ok_def)
  from heap_pool.alloc_cases [OF this d(2)] show ?case
  proof
    assume "\<exists>a h'. FirstFitHeap_alloc (md_size d) (md_alignment d) (km_heap k) = Some (Inr a, h') \<and> unat (md_alignment d) dvd unat a \<and>
      heap_block a (md_size d) \<and> block a (md_size d) \<subseteq> X \<and> heap_rep h' (X - block a (md_size d))"
    then obtain a h where a: "FirstFitHeap_alloc (md_size d) (md_alignment d) (km_heap k) = Some (Inr a, h)"
      "unat (md_alignment d) dvd unat a" "heap_block a (md_size d)" "block a (md_size d) \<subseteq> X" "heap_rep h (X - block a (md_size d))"
      by blast
    let ?d = "d\<lparr>md_ptr := a\<rparr>" and ?k = "k\<lparr>km_heap := h, km_del := DeletionMonitor_acquireRef (km_del k)\<rparr>"
    have b: "desc_block ?d = block a (md_size d)"
      by (simp add: desc_block_def)
    have "km_ok ?k (X - desc_block ?d)"
      using a(5) Cons.prems(1) b by (auto simp: km_ok_def km_own_def)
    moreover have "\<forall>e\<in>set ds. md_ptr e = 0 \<and> heap_request (X - desc_block ?d) (md_size e) (md_alignment e)"
      using Cons.prems(2) heap_pool.request_sub [of X] by fastforce
    ultimately obtain res dn rest k' where IH: "alloc_array_loop ds ?k = Some (res, dn, rest, k')"
      "if rest = [] then res \<in> range Inr else res = Inl UNSET" "map md_size (dn @ rest) = map md_size ds" "apart dn"
      "\<Union>(desc_block ` set dn) \<subseteq> X - desc_block ?d"
      "\<forall>d\<in>set dn. heap_block (md_ptr d) (md_size d) \<and> unat (md_alignment d) dvd unat (md_ptr d)"
      "km_ok k' (X - desc_block ?d - \<Union>(desc_block ` set dn))" "km_range k' = km_range ?k"
      "dm_refcount (km_del k') = dm_refcount (km_del ?k) + word_of_nat (length dn)"
      using Cons.IH by blast
    have "alloc_array_loop (d # ds) k = Some (res, ?d # dn, rest, k')"
      using a(1) d IH(1) by simp
    moreover have "apart (?d # dn)" "\<Union>(desc_block ` set (?d # dn)) \<subseteq> X"
      using IH(4,5) a(4) b by auto
    moreover have "X - desc_block ?d - \<Union>(desc_block ` set dn) = X - \<Union>(desc_block ` set (?d # dn))"
      by auto
    moreover have "dm_refcount (km_del k') = dm_refcount (km_del k) + word_of_nat (length (?d # dn))"
      using IH(9) by (simp add: DeletionMonitor_acquireRef_def)
    ultimately show ?thesis
      using IH(2,3,6-8) a(2,3) by (intro exI [of _ res] exI [of _ "?d # dn"] exI [of _ rest] exI [of _ k']) simp
  next
    assume "FirstFitHeap_alloc (md_size d) (md_alignment d) (km_heap k) = Some (Inl UNSET, km_heap k)"
    then have "alloc_array_loop (d # ds) k = Some (Inl UNSET, [], d # ds, k)"
      using d by simp
    then show ?thesis
      using Cons.prems(1) by simp
  qed
qed simp

text \<open>
  C23. Allocating several blocks at once is all or nothing. For descriptors that ask for nonempty
  blocks, the call returns. Either every descriptor got an aligned block of the free memory, the
  blocks are disjoint, exactly they left the free memory, and the object is referenced once more per
  block; or the call reports an error and both the free memory and the reference count are as before.
\<close>

theorem alloc_array_atomic:
  assumes "km_ok k X" "\<forall>d\<in>set ds. md_ptr d = 0 \<and> heap_request X (md_size d) (md_alignment d)"
  shows "\<exists>res ds' ev k'. KernelMemory_alloc_array ds k = Some (res, ds', ev, k') \<and> map md_size ds' = map md_size ds \<and>
    (case res of
       Inl e \<Rightarrow> e = UNSET \<and> km_ok k' X \<and> dm_refcount (km_del k') = dm_refcount (km_del k)
     | Inr _ \<Rightarrow> apart ds' \<and> \<Union>(desc_block ` set ds') \<subseteq> X \<and> km_ok k' (X - \<Union>(desc_block ` set ds')) \<and>
         (\<forall>d\<in>set ds'. unat (md_alignment d) dvd unat (md_ptr d)) \<and>
         dm_refcount (km_del k') = dm_refcount (km_del k) + word_of_nat (length ds))"
proof -
  obtain res dn rest k' where l: "alloc_array_loop ds k = Some (res, dn, rest, k')"
     "if rest = [] then res \<in> range Inr else res = Inl UNSET" "map md_size (dn @ rest) = map md_size ds" "apart dn"
     "\<Union>(desc_block ` set dn) \<subseteq> X" "\<forall>d\<in>set dn. heap_block (md_ptr d) (md_size d) \<and> unat (md_alignment d) dvd unat (md_ptr d)"
     "km_ok k' (X - \<Union>(desc_block ` set dn))" "km_range k' = km_range k"
     "dm_refcount (km_del k') = dm_refcount (km_del k) + word_of_nat (length dn)"
    using alloc_array_loop_step [OF assms] by blast
  show ?thesis
  proof (cases "rest = []")
    case True
    then obtain v where "res = Inr v"
      using l(2) by auto
    moreover have "length dn = length ds"
      using l(3) True map_eq_imp_length_eq by fastforce
    ultimately show ?thesis
      using l True by (intro exI [of _ "Inr ()"] exI [of _ dn] exI [of _ "[]"] exI [of _ k']) (simp add: KernelMemory_alloc_array_def)
  next
    case False
    then have res: "res = Inl UNSET"
      using l(2) by simp
    have "\<forall>d\<in>set dn. heap_block (md_ptr d) (md_size d) \<and> desc_block d \<subseteq> km_own k' \<and> desc_block d \<inter> (X - \<Union>(desc_block ` set dn)) = {}"
      using l(5,6) assms(1) km_own_cong [OF l(8)] by (fastforce simp: km_ok_def)
    then obtain ev k'' where "KernelMemory_free_array dn k' = Some (ev, k'')" "km_ok k'' (X - \<Union>(desc_block ` set dn) \<union> \<Union>(desc_block ` set dn))"
      "dm_refcount (km_del k'') = dm_refcount (km_del k') - word_of_nat (length dn)"
      using KernelMemory_free_array_step [OF l(7) _ l(4)] by blast
    moreover have "X - \<Union>(desc_block ` set dn) \<union> \<Union>(desc_block ` set dn) = X"
      using l(5) by blast
    ultimately show ?thesis
      using l(1,3,9) res by (intro exI [of _ "Inl UNSET"] exI [of _ "dn @ rest"] exI [of _ ev] exI [of _ k''])
        (simp add: KernelMemory_alloc_array_def rethrow_error_def)
  qed
qed

definition ex_km :: km where
  "ex_km = \<lparr>km_parent = 0, km_heap = \<lparr>ff_first = 0xffff800000001000, ff_mem = (\<lambda>_. \<lparr>rng_length = 4096, rng_next = 0\<rparr>)\<rparr>,
     km_range = \<lparr>rg_start = 0x1000, rg_end = 0x2000\<rparr>, km_memory = [], km_del = DeletionMonitor_init\<rparr>"

definition ex_descs :: "mem_desc list" where
  "ex_descs = [\<lparr>md_ptr = 0, md_size = 100, md_alignment = 64\<rparr>, \<lparr>md_ptr = 0, md_size = 200, md_alignment = 128\<rparr>]"

lemma ex_km_ok: "km_ok ex_km {0xffff800000001000 ..< 0xffff800000002000}"
proof -
  have "heap_ok (km_heap ex_km) [(0xffff800000001000, 4096)]"
    by (simp add: heap_ok_def ex_km_def HA_def)
  moreover have "ff_points [(0xffff800000001000, 4096)] = {0xffff800000001000 ..< 0xffff800000002000}"
    by simp
  ultimately have "heap_rep (km_heap ex_km) {0xffff800000001000 ..< 0xffff800000002000}"
    unfolding heap_rep_def by blast
  then show ?thesis
    by (simp add: km_ok_def km_own_def ex_km_def layout_defs)
qed

theorem alloc_array_atomic_witness:
  "km_ok ex_km {0xffff800000001000 ..< 0xffff800000002000} \<and>
   (\<exists>res ds' ev k'. KernelMemory_alloc_array ex_descs ex_km = Some (res, ds', ev, k') \<and> map md_size ds' = [100, 200])"
proof -
  have r: "\<forall>d\<in>set ex_descs. md_ptr d = 0 \<and> heap_request {0xffff800000001000 ..< 0xffff800000002000} (md_size d) (md_alignment d)"
    by (simp add: ex_descs_def heap_request_def HA_def)
  then show ?thesis
    using ex_km_ok alloc_array_atomic [OF ex_km_ok r] by (auto simp: ex_descs_def)
qed

section \<open>Adding memory\<close>

lemma range_cut_inside:
  "rg_start own \<le> rg_start add \<Longrightarrow> rg_end add \<le> rg_end own \<Longrightarrow> rg_start add \<le> rg_end add \<Longrightarrow> range_cut add own = add"
  by (auto simp: range_cut_def Let_def mk_range_def)

text \<open>Aligned memory inside the own range is added as it is.\<close>

lemma KernelMemory_addRange_step:
  assumes ok: "km_ok k X" and al: "HA dvd unat start" "HA dvd unat len" "0 < unat len" "0 < unat start"
    and own: "unat (rg_start (km_range k)) \<le> unat start" "unat start + unat len \<le> unat (rg_end (km_range k))"
    and new: "block (start + KERNELMEM_ADDR) len \<inter> X = {}"
  shows "\<exists>k'. KernelMemory_addRange start len k = Some k' \<and> km_ok k' (X \<union> block (start + KERNELMEM_ADDR) len) \<and> km_range k' = km_range k"
proof -
  let ?r = "km_range k" and ?a = "start + KERNELMEM_ADDR"
  have e: "unat (rg_end ?r) \<le> 2 ^ 32"
    using ok by (simp add: km_ok_def KERNELMEM_SIZE_def word_le_nat_alt)
  have log: "physPtr_logint start = Some ?a" "physPtr_logint (rg_start ?r) = Some (rg_start ?r + KERNELMEM_ADDR)" "physPtr_kernelmem start"
    using own al(3) e by (simp_all add: physPtr_logint_def physPtr_kernelmem_def KERNELMEM_SIZE_def word_less_nat_alt)
  have u: "unat ?a = unat start + unat KERNELMEM_ADDR" "unat (?a + len) = unat start + unat len + unat KERNELMEM_ADDR"
    "unat (rg_start ?r + KERNELMEM_ADDR) = unat (rg_start ?r) + unat KERNELMEM_ADDR"
  proof -
    show 1: "unat ?a = unat start + unat KERNELMEM_ADDR"
      using own e by (intro unat_add_small) (simp add: layout_defs)
    show "unat (?a + len) = unat start + unat len + unat KERNELMEM_ADDR"
      using own e 1 by (subst unat_add_small) (simp_all add: layout_defs)
    show "unat (rg_start ?r + KERNELMEM_ADDR) = unat (rg_start ?r) + unat KERNELMEM_ADDR"
      using own e by (intro unat_add_small) (simp add: layout_defs)
  qed
  have size: "rg_start ?r + KERNELMEM_ADDR + range_getSize ?r = rg_end ?r + KERNELMEM_ADDR"
    by (simp add: range_getSize_def)
  have u': "unat (rg_end ?r + KERNELMEM_ADDR) = unat (rg_end ?r) + unat KERNELMEM_ADDR"
    using e by (intro unat_add_small) (simp add: layout_defs)
  have cut: "range_cut (range_bySize ?a len) (range_bySize (rg_start ?r + KERNELMEM_ADDR) (range_getSize ?r)) = range_bySize ?a len"
    using own u u' by (intro range_cut_inside) (simp_all add: range_bySize_def mk_range_def size word_le_nat_alt)
  have len: "range_getSize (range_bySize ?a len) = len" "rg_start (range_bySize ?a len) = ?a"
    by (simp_all add: range_getSize_def range_bySize_def mk_range_def)
  have hb: "heap_block ?a len"
    using al own e up_to_dvd_id [OF al(2)] u by (auto simp: heap_block_def layout_defs HA_def word_unat_eq_iff intro!: dvd_add)
  obtain h where h: "FirstFitHeap_free ?a len (km_heap k) = Some h" "heap_rep h (X \<union> block ?a len)"
    using heap_pool.dealloc_block [of "km_heap k" X ?a len] ok hb new by (auto simp: km_ok_def)
  have "FirstFitHeap_addRange ?a len (km_heap k) = Some h"
    using h(1) addRange_eq_free [of ?a len] hb al by (simp add: heap_block_def)
  moreover have "block ?a len \<subseteq> km_own k"
    using own u up_to_dvd_id [OF al(2)] by (auto simp: block_def km_own_def)
  moreover have "len \<noteq> 0"
    using al(3) by auto
  ultimately have "KernelMemory_addRange start len k = Some (k\<lparr>km_heap := h\<rparr>)" "km_ok (k\<lparr>km_heap := h\<rparr>) (X \<union> block ?a len)"
    using log cut len h(2) ok by (auto simp: KernelMemory_addRange_def range_isEmpty_def km_ok_def km_own_def Let_def)
  then show ?thesis
    by (intro exI [of _ "k\<lparr>km_heap := h\<rparr>"]) simp
qed

section \<open>The factory\<close>

text \<open>The address range of an object of the pool, as \<^verbatim>\<open>IKernelObject::addressRange\<close> dispatches it.\<close>

definition km_ar :: "kms address_range" where
  "km_ar w a e c = (case w a of Some k \<Rightarrow> Some (KernelMemory_addressRange k) | None \<Rightarrow> None)"

lemma KernelMemory_alloc_cases:
  assumes "km_ok k X" "heap_request X len al"
  obtains (got) a k' where "KernelMemory_alloc len al k = Some (Inr a, k')" "unat al dvd unat a" "heap_block a len" "block a len \<subseteq> X"
      "km_ok k' (X - block a len)" "km_range k' = km_range k"
    | (failed) "KernelMemory_alloc len al k = Some (Inl UNSET, k)"
proof -
  have h: "heap_rep (km_heap k) X"
    using assms(1) by (simp add: km_ok_def)
  show thesis
  proof (rule disjE [OF heap_pool.alloc_cases [OF h assms(2)]])
    assume "\<exists>a h'. FirstFitHeap_alloc len al (km_heap k) = Some (Inr a, h') \<and> unat al dvd unat a \<and>
      heap_block a len \<and> block a len \<subseteq> X \<and> heap_rep h' (X - block a len)"
    then obtain a h' where a: "FirstFitHeap_alloc len al (km_heap k) = Some (Inr a, h')" "unat al dvd unat a"
      "heap_block a len" "block a len \<subseteq> X" "heap_rep h' (X - block a len)"
      by blast
    show thesis
    proof (rule got)
      show "KernelMemory_alloc len al k = Some (Inr a, k\<lparr>km_heap := h', km_del := DeletionMonitor_acquireRef (km_del k)\<rparr>)"
        using a(1) by (simp add: KernelMemory_alloc_def)
      show "km_ok (k\<lparr>km_heap := h', km_del := DeletionMonitor_acquireRef (km_del k)\<rparr>) (X - block a len)"
        using a(5) assms(1) by (auto simp: km_ok_def km_own_def)
    qed (use a in simp_all)
  next
    assume "FirstFitHeap_alloc len al (km_heap k) = Some (Inl UNSET, km_heap k)"
    then show thesis
      by (intro failed) (simp add: KernelMemory_alloc_def rethrow_error_def)
  qed
qed

lemma reset_allocated:
  assumes "cap_isAllocated (ce_cap (s t))"
  obtains s' where "CapEntry_reset t s = Some s'" "cap_isEmpty (ce_cap (s' t))" "\<And>q. q \<noteq> t \<Longrightarrow> s' q = s q"
proof (rule that)
  show "CapEntry_reset t s = Some (put_cap t cap_null (put_next t 0 (put_prev t 0 s)))"
    using assms by (simp add: CapEntry_reset_def)
qed (simp_all add: cap_isEmpty_def cap_null_def)

lemma heap_block_start: "heap_block a len \<Longrightarrow> unat a \<in> block a len"
  using up_to_ge [OF heapAlign_simps(3), of "unat len"] by (auto simp: heap_block_def block_def simp del: unat_gt_0)

text \<open>A block whose size is a multiple of the heap alignment is taken as it is.\<close>

lemma block_exact: "HA dvd unat len \<Longrightarrow> block a len = {unat a ..< unat a + unat len}"
  by (simp add: block_def up_to_dvd_id)

lemma own_bounds:
  assumes "km_ok k X" "heap_block a len" "block a len \<subseteq> km_own k"
  shows "unat KERNELMEM_ADDR + unat (rg_start (km_range k)) \<le> unat a"
    "unat a + up_to (unat len) HA \<le> unat KERNELMEM_ADDR + unat (rg_end (km_range k))" "unat (rg_end (km_range k)) \<le> 2 ^ 32"
proof -
  have "unat len \<le> up_to (unat len) HA" "0 < unat len"
    using up_to_ge [OF heapAlign_simps(3)] assms(2) by (auto simp: heap_block_def)
  then have up: "0 < up_to (unat len) HA"
    by linarith
  then have "unat a \<in> block a len" "unat a + up_to (unat len) HA - 1 \<in> block a len"
    by (auto simp: block_def)
  then have "unat a \<in> km_own k" "unat a + up_to (unat len) HA - 1 \<in> km_own k"
    using assms(3) by blast+
  then show "unat KERNELMEM_ADDR + unat (rg_start (km_range k)) \<le> unat a"
    "unat a + up_to (unat len) HA \<le> unat KERNELMEM_ADDR + unat (rg_end (km_range k))"
    using up by (auto simp: km_own_def)
  show "unat (rg_end (km_range k)) \<le> 2 ^ 32"
    using assms(1) by (simp add: km_ok_def KERNELMEM_SIZE_def word_le_nat_alt)
qed

text \<open>A new memory over a block of its parent has the block as its range; adding the block makes it free.\<close>

lemma KernelMemory_new_step:
  assumes ok: "km_ok k X" "0 < rg_start (km_range k)" and b: "heap_block reg sz" "block reg sz \<subseteq> km_own k" "HA dvd unat sz"
  obtains kc kc' where "KernelMemory_new size_of this mem (mk_range reg (reg + sz)) = Some kc"
    "KernelMemory_addRange (reg - KERNELMEM_ADDR) sz kc = Some kc'" "physPtr_fromKernel reg = Some (reg - KERNELMEM_ADDR)"
    "km_ok kc' (block reg sz)" "km_own kc' = block reg sz" "km_range kc = range_bySize (reg - KERNELMEM_ADDR) sz"
proof -
  let ?p = "reg - KERNELMEM_ADDR"
  note bd = own_bounds [OF ok(1) b(1,2)] and ex = up_to_dvd_id [OF b(3)]
  have sz: "0 < unat sz"
    using b(1) by (simp add: heap_block_def)
  have u: "unat ?p = unat reg - unat KERNELMEM_ADDR"
    using bd(1) by (intro unat_sub_small) linarith
  have u': "unat (?p + sz) = unat reg - unat KERNELMEM_ADDR + unat sz" "unat (reg + sz) = unat reg + unat sz"
    using bd u ex by (subst unat_add_small; simp add: layout_defs)+
  have kern: "physPtr_fromKernel reg = Some ?p"
    using bd ex sz by (simp add: physPtr_fromKernel_def isKernelAddress_def word_le_nat_alt word_less_nat_alt layout_defs)
  define kc where "kc = \<lparr>km_parent = mem, km_heap = empty_heap, km_range = range_bySize ?p sz,
    km_memory = [\<lparr>md_ptr = reg, md_size = sz, md_alignment = 0\<rparr>, \<lparr>md_ptr = this, md_size = size_of, md_alignment = 0\<rparr>],
    km_del = DeletionMonitor_init\<rparr>"
  have r: "rg_start (km_range kc) = ?p" "unat (rg_end (km_range kc)) = unat reg - unat KERNELMEM_ADDR + unat sz"
    using u' by (simp_all add: kc_def range_bySize_def mk_range_def)
  have "heap_ok empty_heap []"
    by (simp add: heap_ok_def empty_heap_def)
  then have "heap_rep (km_heap kc) {}"
    unfolding heap_rep_def kc_def by fastforce
  moreover have "rg_end (km_range kc) \<le> KERNELMEM_SIZE"
    using bd ex r by (simp add: word_le_nat_alt KERNELMEM_SIZE_def)
  ultimately have kc_ok: "km_ok kc {}"
    by (simp add: km_ok_def)
  have "0 < unat ?p" "HA dvd unat ?p"
    using bd(1) ok(2) u b(1) by (auto simp: word_less_nat_alt heap_block_def HA_def layout_defs)
  then obtain kc' where kc': "KernelMemory_addRange ?p sz kc = Some kc'" "km_ok kc' ({} \<union> block (?p + KERNELMEM_ADDR) sz)" "km_range kc' = km_range kc"
    using KernelMemory_addRange_step [OF kc_ok _ b(3) sz, of ?p] r u by auto
  have "km_own kc' = block reg sz"
    using r kc'(3) u bd(1) ex by (simp add: km_own_def block_def)
  then show thesis
    using that [of kc kc'] kern kc' r by (simp add: KernelMemory_new_def kc_def range_getSize_def mk_range_def)
qed

text \<open>The range of a child lies strictly inside the range of the memory that also holds the child's object.\<close>

lemma child_range_inside:
  assumes ok: "km_ok k X" and b: "heap_block reg sz" "block reg sz \<subseteq> km_own k" "HA dvd unat sz"
    and ob: "heap_block obj osz" "block obj osz \<subseteq> km_own k" "block obj osz \<inter> block reg sz = {}"
  shows "range_contains (km_range k) (range_bySize (reg - KERNELMEM_ADDR) sz)"
    "\<not> range_contains (range_bySize (reg - KERNELMEM_ADDR) sz) (km_range k)"
proof -
  note bd = own_bounds [OF ok b(1,2)] and bo = own_bounds [OF ok ob(1,2)] and ex = up_to_dvd_id [OF b(3)]
  have u: "unat (reg - KERNELMEM_ADDR) = unat reg - unat KERNELMEM_ADDR"
    using bd(1) by (intro unat_sub_small) linarith
  have u': "unat (reg - KERNELMEM_ADDR + sz) = unat reg - unat KERNELMEM_ADDR + unat sz"
    using bd u ex by (subst unat_add_small; simp add: layout_defs)
  show "range_contains (km_range k) (range_bySize (reg - KERNELMEM_ADDR) sz)"
    using bd u u' ex by (auto simp: range_contains_def range_bySize_def mk_range_def word_le_nat_alt)
  show "\<not> range_contains (range_bySize (reg - KERNELMEM_ADDR) sz) (km_range k)"
  proof
    assume "range_contains (range_bySize (reg - KERNELMEM_ADDR) sz) (km_range k)"
    then have le: "unat reg - unat KERNELMEM_ADDR \<le> unat (rg_start (km_range k))"
      "unat (rg_end (km_range k)) \<le> unat reg - unat KERNELMEM_ADDR + unat sz"
      using u u' by (auto simp: range_contains_def range_bySize_def mk_range_def word_le_nat_alt)
    have "km_own k \<subseteq> block reg sz"
      using le bd(1) ex by (auto simp: km_own_def block_def)
    then have "block obj osz = {}"
      using ob(2,3) by blast
    moreover have "unat osz \<le> up_to (unat osz) HA" "0 < unat osz"
      using up_to_ge [OF heapAlign_simps(3)] ob(1) by (auto simp: heap_block_def)
    ultimately show False
      by (auto simp: block_def)
  qed
qed

lemma and_mask_dvd: "(x :: 'a::len word) AND mask n = 0 \<longleftrightarrow> 2 ^ n dvd unat x"
proof -
  have "x AND mask n = 0 \<longleftrightarrow> unat (take_bit n x) = 0"
    by (simp only: take_bit_eq_mask unat_eq_zero)
  then show ?thesis
    by (simp only: unsigned_take_bit_eq) (simp only: take_bit_eq_mod dvd_eq_mod_eq_0)
qed

lemma own_obj_ptr:
  assumes "km_ok k X" "heap_block a len" "block a len \<subseteq> km_own k" "0 < rg_start (km_range k)"
  shows "obj_ptr_ok a"
proof -
  note bd = own_bounds [OF assms(1-3)]
  have up: "unat len \<le> up_to (unat len) HA" "0 < unat len"
    using up_to_ge [OF heapAlign_simps(3)] assms(2) by (auto simp: heap_block_def)
  have "unat (a - KERNELMEM_ADDR) = unat a - unat KERNELMEM_ADDR"
    using bd(1) by (intro unat_sub_small) linarith
  moreover have "8 dvd unat a"
    using assms(2) by (auto simp: heap_block_def HA_def elim: dvd_trans [rotated])
  ultimately have "8 dvd unat (a - KERNELMEM_ADDR)"
    by (auto simp: layout_defs intro: dvd_diff_nat)
  then have "(a - KERNELMEM_ADDR) AND 7 = 0"
    using and_mask_dvd [of "a - KERNELMEM_ADDR" 3] by (simp add: mask_eq_exp_minus_1)
  moreover have "isKernelAddress a" "a \<noteq> KERNELMEM_ADDR"
    using bd up assms(4) by (auto simp: isKernelAddress_def word_le_nat_alt word_less_nat_alt layout_defs)
  ultimately show ?thesis
    by (simp add: obj_ptr_ok_def)
qed

text \<open>The part of the factory after both allocations succeeded.\<close>

lemma factory_linked:
  assumes w: "km_ok k X" "unat mem \<notin> X" "0 < rg_start (km_range k)" "HA dvd unat sz"
    and reg: "heap_block reg sz" "block reg sz \<subseteq> X"
    and obj: "heap_block this size_of" "block this size_of \<subseteq> X - block reg sz" "km_range k2 = km_range k"
    and tree: "ring s (memEntry # zs)" "obj_ptr_ok dst" "dst \<notin> set (memEntry # zs)" "cap_isAllocated (ce_cap (s dst))"
    and cap: "\<not> is_locked s memEntry" "cap_isUsable (ce_cap (s memEntry))" "cap_getPtr (ce_cap (s memEntry)) = mem"
  obtains kc kc' c s' where "KernelMemory_new size_of this mem (mk_range reg (reg + sz)) = Some kc" "mk_cap this 0 0 = Some c"
    "inherit km_ar memEntry (ce_cap (s memEntry)) dst c Some s (w(mem \<mapsto> k2, this \<mapsto> kc)) = Some (Inr (), s', w(mem \<mapsto> k2, this \<mapsto> kc))"
    "physPtr_fromKernel reg = Some (reg - KERNELMEM_ADDR)" "KernelMemory_addRange (reg - KERNELMEM_ADDR) sz kc = Some kc'"
    "km_ok kc' (block reg sz)" "km_own kc' = block reg sz" "this \<noteq> mem"
    "ring s' (memEntry # dst # zs)" "cap_getPtr (ce_cap (s' dst)) = this" "cap_isOriginal (ce_cap (s' dst))"
    "\<And>q. q \<noteq> dst \<Longrightarrow> ce_cap (s' q) = ce_cap (s q)"
proof -
  have own: "block reg sz \<subseteq> km_own k" "block this size_of \<subseteq> km_own k" "block this size_of \<inter> block reg sz = {}" "unat this \<in> X"
    using reg(2) obj(2) w(1) heap_block_start [OF obj(1)] by (auto simp: km_ok_def)
  obtain kc kc' where kc: "KernelMemory_new size_of this mem (mk_range reg (reg + sz)) = Some kc"
    "KernelMemory_addRange (reg - KERNELMEM_ADDR) sz kc = Some kc'" "physPtr_fromKernel reg = Some (reg - KERNELMEM_ADDR)"
    "km_ok kc' (block reg sz)" "km_own kc' = block reg sz" "km_range kc = range_bySize (reg - KERNELMEM_ADDR) sz"
    using KernelMemory_new_step [OF w(1,3) reg(1) own(1) w(4)] by blast
  obtain c where c: "mk_cap this 0 0 = Some c" "cap_getPtr c = this" "cap_isOriginal c"
    by (rule mk_cap_object [OF own_obj_ptr [OF w(1) obj(1) own(2) w(3)]]) blast
  have ne: "this \<noteq> mem" "this \<noteq> 0"
    using own(4) w(2) obj(1) by (auto simp: heap_block_def)
  let ?w = "w(mem \<mapsto> k2, this \<mapsto> kc)" and ?s = "inserted memEntry dst c (lockp memEntry s)"
  note inside = child_range_inside [OF w(1) reg(1) own(1) w(4) obj(1) own(2,3)]
  have "inherit_check km_ar ?w memEntry (ce_cap (s memEntry)) dst c = Some ()"
    using inside usable_getPtr [OF cap(2)] cap(3) ne c(2) kc(6) obj(3)
    by (intro inherit_check_object) (auto simp: km_ar_def KernelMemory_addressRange_def)
  then have inh: "inherit km_ar memEntry (ce_cap (s memEntry)) dst c Some s ?w = Some (Inr (), ?s, ?w)"
    by (intro inherit_step [OF tree cap(1,2)]) simp_all
  have rl: "ring (lockp memEntry s) (memEntry # zs)"
    using tree(1) by simp
  show thesis
    using that [OF kc(1) c(1) inh kc(3,2,4,5) ne(1)] ring_inserted [OF rl tree(2,3)] inserted_reads(1) [OF rl tree(2,3)] c by simp
qed

text \<open>The same part when the memory capability has changed meanwhile: everything is given back.\<close>

lemma factory_lost:
  assumes w: "km_ok k X" "unat mem \<notin> X" "0 < rg_start (km_range k)" "HA dvd unat sz"
    and reg: "heap_block reg sz" "block reg sz \<subseteq> X"
    and obj: "heap_block this size_of" "block this size_of \<subseteq> X - block reg sz" "km_range k2 = km_range k" "km_ok k2 (X - block reg sz - block this size_of)"
    and tree: "isKernelAddress memEntry" "cap_isAllocated (ce_cap (s dst))" "\<not> is_locked s memEntry"
    and lost: "\<not> (cap_isUsable (ce_cap (s memEntry)) \<and> ce_cap (s memEntry) = memCap)" and s0: "CapEntry_reset dst s = Some s0"
  obtains kc c ev k3 ev' k4 where "KernelMemory_new size_of this mem (mk_range reg (reg + sz)) = Some kc" "mk_cap this 0 0 = Some c"
    "\<And>w'. inherit km_ar memEntry memCap dst c Some s w' = Some (Inl LOST_RACE, s0, w')"
    "KernelMemory_free this size_of k2 = Some (ev, k3)" "KernelMemory_free reg sz k3 = Some (ev', k4)"
    "km_ok k4 X" "this \<noteq> mem" "unat this \<in> X"
proof -
  have own: "block reg sz \<subseteq> km_own k" "block this size_of \<subseteq> km_own k" "unat this \<in> X"
    using reg(2) obj(2) w(1) heap_block_start [OF obj(1)] by (auto simp: km_ok_def)
  obtain kc where kc: "KernelMemory_new size_of this mem (mk_range reg (reg + sz)) = Some kc"
    using KernelMemory_new_step [OF w(1,3) reg(1) own(1) w(4)] by blast
  obtain c where c: "mk_cap this 0 0 = Some c"
    by (rule mk_cap_object [OF own_obj_ptr [OF w(1) obj(1) own(2) w(3)]]) blast
  obtain ev k3 where k3: "KernelMemory_free this size_of k2 = Some (ev, k3)" "km_ok k3 (X - block reg sz - block this size_of \<union> block this size_of)"
      "km_range k3 = km_range k2"
    using KernelMemory_free_step [OF obj(4,1)] own(2) km_own_cong [OF obj(3)] by blast
  have "km_ok k3 (X - block reg sz)"
    using k3(2) obj(2) by (simp add: Un_absorb2)
  then obtain ev' k4 where k4: "KernelMemory_free reg sz k3 = Some (ev', k4)" "km_ok k4 (X - block reg sz \<union> block reg sz)"
    using KernelMemory_free_step [OF _ reg(1), of k3] own(1) km_own_cong [OF trans [OF k3(3) obj(3)]] by blast
  have inh: "inherit km_ar memEntry memCap dst c Some s w' = Some (Inl LOST_RACE, s0, w')" for w'
    unfolding inherit_def by (rule insertAfter_lost [OF tree(1-3) lost s0])
  show thesis
    using that [OF kc c inh k3(1) k4(1)] k4(2) reg(2) own(3) w(2) by (auto simp: Un_absorb2)
qed

text \<open>The request is checked before anything else happens; an alignment of zero divides by zero.\<close>

lemma factory_checks:
  "KernelMemoryFactory_factory size_of ar dst memEntry memCap mem sz 0 s w = None"
  "al \<noteq> 0 \<Longrightarrow> \<not> (4096 dvd unat al \<and> unat al dvd unat sz) \<Longrightarrow>
     KernelMemoryFactory_factory size_of ar dst memEntry memCap mem sz al s w = Some (Inl UNALIGNED, s, w)"
proof -
  have z: "is_aligned (0 :: u64) align4K = Some True" "is_aligned sz (0 :: u64) = None"
    by (simp_all add: is_aligned_iff align4K_def is_aligned_def)
  then show "KernelMemoryFactory_factory size_of ar dst memEntry memCap mem sz 0 s w = None"
    by (simp add: KernelMemoryFactory_factory_def)
  assume "al \<noteq> 0" "\<not> (4096 dvd unat al \<and> unat al dvd unat sz)"
  then show "KernelMemoryFactory_factory size_of ar dst memEntry memCap mem sz al s w = Some (Inl UNALIGNED, s, w)"
    by (auto simp: KernelMemoryFactory_factory_def is_aligned_iff align4K_def)
qed

text \<open>What a call of the factory promises about a parent with the free memory \<open>X\<close>, for each result.\<close>

definition factory_result :: "u64 \<Rightarrow> u64 \<Rightarrow> u64 \<Rightarrow> u64 \<Rightarrow> cap \<Rightarrow> u64 list \<Rightarrow> u64 \<Rightarrow> u64 \<Rightarrow> nat set \<Rightarrow> store \<Rightarrow> kms \<Rightarrow> u64 optional \<Rightarrow> store \<Rightarrow> kms \<Rightarrow> bool" where
  "factory_result size_of mem dst memEntry memCap zs sz al X s w res s' w' \<longleftrightarrow> (\<exists>k'. w' mem = Some k' \<and>
    (case res of
       Inr this \<Rightarrow> cap_isUsable memCap \<and> ce_cap (s memEntry) = memCap \<and>
         ring s' (memEntry # dst # zs) \<and> cap_getPtr (ce_cap (s' dst)) = this \<and> cap_isOriginal (ce_cap (s' dst)) \<and>
         (\<forall>q. q \<noteq> dst \<longrightarrow> ce_cap (s' q) = ce_cap (s q)) \<and> (\<forall>x. x \<noteq> mem \<and> x \<noteq> this \<longrightarrow> w' x = w x) \<and>
         (\<exists>kc reg. w' this = Some kc \<and> km_ok kc (block reg sz) \<and> km_own kc = block reg sz \<and> unat al dvd unat reg \<and>
            block reg sz \<subseteq> X \<and> block this size_of \<subseteq> X \<and> block reg sz \<inter> block this size_of = {} \<and>
            km_ok k' (X - block reg sz - block this size_of))
     | Inl e \<Rightarrow> (e = UNSET \<or> e = LOST_RACE \<and> \<not> (cap_isUsable memCap \<and> ce_cap (s memEntry) = memCap)) \<and>
         km_ok k' X \<and> cap_isEmpty (ce_cap (s' dst)) \<and> (\<forall>q. q \<noteq> dst \<longrightarrow> s' q = s q) \<and>
         (\<forall>x. x \<noteq> mem \<and> unat x \<notin> X \<longrightarrow> w' x = w x)))"

lemma factory_both_allocated:
  assumes w: "w mem = Some k" "km_ok k X" "unat mem \<notin> X" "0 < rg_start (km_range k)"
    and al: "is_aligned al align4K = Some True" "is_aligned sz al = Some True" "HA dvd unat sz"
    and tree: "ring s (memEntry # zs)" "obj_ptr_ok dst" "dst \<notin> set (memEntry # zs)" "cap_isAllocated (ce_cap (s dst))" "\<not> is_locked s memEntry"
    and ptr: "cap_getPtr memCap = mem"
    and r: "KernelMemory_alloc sz al k = Some (Inr reg, k1)" "unat al dvd unat reg" "heap_block reg sz" "block reg sz \<subseteq> X" "km_range k1 = km_range k"
    and o: "KernelMemory_alloc size_of 64 k1 = Some (Inr this, k2)" "heap_block this size_of" "block this size_of \<subseteq> X - block reg sz"
      "km_ok k2 (X - block reg sz - block this size_of)" "km_range k2 = km_range k1"
  shows "\<exists>res s' w'. KernelMemoryFactory_factory size_of km_ar dst memEntry memCap mem sz al s w = Some (res, s', w') \<and>
    factory_result size_of mem dst memEntry memCap zs sz al X s w res s' w'"
    (is "\<exists>res s' w'. ?call = _ \<and> _")
proof (cases "cap_isUsable (ce_cap (s memEntry)) \<and> ce_cap (s memEntry) = memCap")
  case True
  obtain kc kc' c s' where l: "KernelMemory_new size_of this mem (mk_range reg (reg + sz)) = Some kc" "mk_cap this 0 0 = Some c"
    "inherit km_ar memEntry memCap dst c Some s (w(mem \<mapsto> k2, this \<mapsto> kc)) = Some (Inr (), s', w(mem \<mapsto> k2, this \<mapsto> kc))"
    "physPtr_fromKernel reg = Some (reg - KERNELMEM_ADDR)" "KernelMemory_addRange (reg - KERNELMEM_ADDR) sz kc = Some kc'"
    and kc': "km_ok kc' (block reg sz)" "km_own kc' = block reg sz" "this \<noteq> mem"
    and s': "ring s' (memEntry # dst # zs)" "cap_getPtr (ce_cap (s' dst)) = this" "cap_isOriginal (ce_cap (s' dst))"
      "\<And>q. q \<noteq> dst \<Longrightarrow> ce_cap (s' q) = ce_cap (s q)"
    using factory_linked [OF w(2-4) al(3) r(3,4) o(2,3) _ tree] r(5) o(5) True ptr by metis
  have "?call = Some (Inr this, s', w(mem \<mapsto> k2, this \<mapsto> kc'))"
    using al w(1) r(1) o(1) l by (simp add: KernelMemoryFactory_factory_def km_update_def Let_def)
  moreover have "factory_result size_of mem dst memEntry memCap zs sz al X s w (Inr this) s' (w(mem \<mapsto> k2, this \<mapsto> kc'))"
    using kc' s' r(2,4) o(3,4) True unfolding factory_result_def
    by (intro exI [of _ k2]) auto
  ultimately show ?thesis
    by blast
next
  case False
  obtain s0 where s0: "CapEntry_reset dst s = Some s0" "cap_isEmpty (ce_cap (s0 dst))" "\<And>q. q \<noteq> dst \<Longrightarrow> s0 q = s q"
    by (rule reset_allocated [of s dst, OF tree(4)]) blast
  have me: "isKernelAddress memEntry"
    using tree(1) by (simp add: ring_def obj_ptr_ok_def)
  obtain kc c ev k3 ev' k4 where l: "KernelMemory_new size_of this mem (mk_range reg (reg + sz)) = Some kc" "mk_cap this 0 0 = Some c"
    "\<And>w'. inherit km_ar memEntry memCap dst c Some s w' = Some (Inl LOST_RACE, s0, w')"
    "KernelMemory_free this size_of k2 = Some (ev, k3)" "KernelMemory_free reg sz k3 = Some (ev', k4)"
    and k4: "km_ok k4 X" "this \<noteq> mem" "unat this \<in> X"
    using factory_lost [OF w(2-4) al(3) r(3,4) o(2,3) _ o(4) me tree(4,5) False s0(1)] r(5) o(5) by metis
  have "?call = Some (Inl LOST_RACE, s0, w(mem \<mapsto> k2, this := None, mem \<mapsto> k4))"
    using al w(1) r(1) o(1) l k4(2) by (simp add: KernelMemoryFactory_factory_def km_update_def rethrow_error_def Let_def fun_upd_twist)
  moreover have "factory_result size_of mem dst memEntry memCap zs sz al X s w (Inl LOST_RACE) s0 (w(mem \<mapsto> k2, this := None, mem \<mapsto> k4))"
    using k4 s0(2,3) False unfolding factory_result_def by (intro exI [of _ k4]) auto
  ultimately show ?thesis
    by blast
qed


definition ex_parent :: km where
  "ex_parent = \<lparr>km_parent = 0, km_heap = \<lparr>ff_first = 0xffff800000004000, ff_mem = (\<lambda>_. \<lparr>rng_length = 0x4000, rng_next = 0\<rparr>)\<rparr>,
     km_range = \<lparr>rg_start = 0x4000, rg_end = 0x8000\<rparr>, km_memory = [], km_del = DeletionMonitor_init\<rparr>"

abbreviation ex_free :: "nat set" where
  "ex_free \<equiv> {0xffff800000004000 ..< 0xffff800000008000}"

lemma ex_parent_ok: "km_ok ex_parent ex_free"
proof -
  have "heap_ok (km_heap ex_parent) [(0xffff800000004000, 0x4000)]"
    by (simp add: heap_ok_def ex_parent_def HA_def)
  moreover have "ff_points [(0xffff800000004000, 0x4000)] = ex_free"
    by simp
  ultimately have "heap_rep (km_heap ex_parent) ex_free"
    unfolding heap_rep_def by blast
  then show ?thesis
    by (simp add: km_ok_def km_own_def ex_parent_def layout_defs)
qed

lemma ex_cap_ptr: "cap_getPtr ex_cap = ex_child"
proof -
  have "f_ptr ex_cap = 0x400"
    by (simp add: f_ptr_def ex_cap_def UIntField_get_def UIntField_MASK_def)
  then show ?thesis
    by (simp add: cap_getPtr_def ex_child_def layout_defs)
qed


text \<open>
  A request that is not page aligned is refused without giving the destination entry back: it was
  acquired for the call and stays acquired, so nothing can ever be stored there again.
\<close>

lemma factory_unaligned_keeps_entry:
  assumes "\<not> 4096 dvd unat al" "cap_isAllocated (ce_cap (s dst))"
  shows "KernelMemoryFactory_factory size_of ar dst memEntry memCap mem sz al s w = Some (Inl UNALIGNED, s, w)"
    "CapEntry_acquire dst s = (Inl CAP_NONEMPTY, s)"
proof -
  have "is_aligned al align4K = Some False"
    using assms(1) by (simp add: is_aligned_iff align4K_def)
  then show "KernelMemoryFactory_factory size_of ar dst memEntry memCap mem sz al s w = Some (Inl UNALIGNED, s, w)"
    by (simp add: KernelMemoryFactory_factory_def)
  show "CapEntry_acquire dst s = (Inl CAP_NONEMPTY, s)"
    using assms(2) by (intro acquire_nonempty) (auto simp: cap_state_defs f_trans_bit)
qed

end
