(* ===== verification/Cap_Ref.thy ===== *)
theory Cap_Ref
  imports Cap_Ops
begin

text \<open>
  Capability references held by kernel objects. A \<^verbatim>\<open>CapRef\<close> is a capability entry inside a kernel
  object (the subject) that refers to another object, for example the address space of an execution
  context. The entry is part of the capability tree, so that revocation reaches it: then the subject is
  told through \<^verbatim>\<open>unbinding\<close>. A \<^verbatim>\<open>TypedCap\<close> reads a capability and casts its object to an interface.
\<close>

section \<open>Typed capabilities\<close>

text \<open>A capability is bound to an interface: it must be usable and its object must implement it.\<close>

definition TypedCap_set :: "(u64 \<Rightarrow> 'o optional) \<Rightarrow> cap \<Rightarrow> 'o optional" where
  "TypedCap_set cast c = (if \<not> cap_isUsable c then Inl INVALID_CAPABILITY else cast (cap_getPtr c))"

definition TypedCap_setEntry :: "(u64 \<Rightarrow> 'o optional) \<Rightarrow> u64 optional \<Rightarrow> store \<Rightarrow> 'o optional" where
  "TypedCap_setEntry cast e s = (case e of Inl err \<Rightarrow> Inl err | Inr p \<Rightarrow> TypedCap_set cast (ce_cap (s p)))"

section \<open>References\<close>

text \<open>
  The address of the reference as a kernel object, the address of its entry, the original capability,
  which is part of the subject's state \<open>'c\<close>, and the two virtual methods.
\<close>

record 'c cap_ref =
  cr_this :: u64
  cr_entry :: u64
  cr_orig :: "'c \<Rightarrow> cap"
  cr_put :: "cap \<Rightarrow> 'c \<Rightarrow> 'c"
  cr_bind :: "u64 \<Rightarrow> cap \<Rightarrow> 'c \<Rightarrow> 'c option"
  cr_unbind :: "u64 \<Rightarrow> cap \<Rightarrow> 'c \<Rightarrow> 'c option"

definition CapRef_binding :: "'c cap_ref \<Rightarrow> u64 \<Rightarrow> cap \<Rightarrow> 'c \<Rightarrow> 'c option" where
  "CapRef_binding r subject orig c = do { ASSERT (cap_isUsable orig); cr_bind r subject orig c }"

definition CapRef_unbinding :: "'c cap_ref \<Rightarrow> u64 \<Rightarrow> cap \<Rightarrow> 'c \<Rightarrow> 'c option" where
  "CapRef_unbinding r subject orig c = do { ASSERT (cap_isUsable orig); cr_unbind r subject orig c }"

definition CapRefBase_isUsable :: "'c cap_ref \<Rightarrow> 'c \<Rightarrow> bool" where
  "CapRefBase_isUsable r c = cap_isUsable (cr_orig r c)"

definition CapRef_get :: "(u64 \<Rightarrow> 'o optional) \<Rightarrow> 'c cap_ref \<Rightarrow> 'c \<Rightarrow> 'o optional" where
  "CapRef_get cast r c = (let obj = cr_orig r c in if cap_isUsable obj then cast (cap_getPtr obj) else Inl GENERIC_ERROR)"

definition CapRefBase_reset :: "'c cap_ref \<Rightarrow> store \<Rightarrow> 'c \<Rightarrow> (store \<times> 'c) option" where
  "CapRefBase_reset r s c = do {
     (ok, s, c) \<leftarrow> resetReference (cr_entry r) (\<lambda>s c. do {
       subject \<leftarrow> offset2kernel (cap_data (ce_cap (s (cr_entry r))));
       c \<leftarrow> CapRef_unbinding r subject (cr_orig r c) c;
       Some (cr_put r cap_null c) }) s c;
     Some (s, c) }"

definition CapRefBase_set :: "'c address_range \<Rightarrow> 'c cap_ref \<Rightarrow> u64 \<Rightarrow> u64 \<Rightarrow> cap \<Rightarrow> store \<Rightarrow> 'c \<Rightarrow> (unit optional \<times> store \<times> 'c) option" where
  "CapRefBase_set ar r subject src srcCap s c = do {
     (s, c) \<leftarrow> CapRefBase_reset r s c;
     off \<leftarrow> kernel2offset subject;
     newCap \<leftarrow> cap_asReferencePtrData srcCap (cr_this r) off;
     setReference ar (cr_entry r) newCap src srcCap (\<lambda>c.
       CapRef_binding r subject (cap_asReference srcCap) (cr_put r (cap_asReference srcCap) c)) s c }"

definition CapRefBase_addressRange :: "'c address_range \<Rightarrow> 'c cap_ref \<Rightarrow> u64 \<Rightarrow> 'c \<Rightarrow> range option" where
  "CapRefBase_addressRange ar r entry c = do {
     let obj = cr_orig r c;
     ASSERT (cap_isUsable obj);
     ar c (cap_getPtr obj) entry obj }"

definition CapRefBase_deleteCap :: "'c cap_ref \<Rightarrow> cap \<Rightarrow> 'c \<Rightarrow> (unit optional \<times> 'c) option" where
  "CapRefBase_deleteCap r self c = do {
     subject \<leftarrow> offset2kernel (cap_data self);
     c \<leftarrow> CapRef_unbinding r subject (cr_orig r c) c;
     Some (Inr (), cr_put r cap_null c) }"

section \<open>Setting and resetting\<close>

lemma reference_cap:
  assumes "obj_ptr_ok h"
  obtains k' where "cap_asReferencePtrData k h d = Some k'" "cap_getPtr k' = h" "cap_isReference k'"
    "cap_isDerived k' = cap_isDerived k" "cap_data k' = d" "f_ptr k' \<noteq> 0" "f_trans k' = f_trans k"
proof (rule that)
  let ?k = "set_ptr (cap_asReference k) (drop_bit 3 (ucast (h - KERNELMEM_ADDR)))"
  have p: "cap_getPtr ?k = h"
    by (rule cap_getPtr_set_ptr [OF assms])
  show "cap_asReferencePtrData k h d = Some (cap_withData ?k d)"
    using assms by (simp add: cap_asReferencePtrData_def cap_withPtr_def packPtr_ok)
  show "cap_getPtr (cap_withData ?k d) = h" "cap_isReference (cap_withData ?k d)"
    "cap_isDerived (cap_withData ?k d) = cap_isDerived k" "cap_data (cap_withData ?k d) = d" "f_trans (cap_withData ?k d) = f_trans k"
    using p by (simp_all add: cap_withData_def cap_isReference_def cap_isDerived_def cap_asReference_def cap_data_def)
  have "h \<noteq> 0"
    using assms by (auto simp: obj_ptr_ok_def isKernelAddress_def KERNELMEM_ADDR_def)
  then show "f_ptr (cap_withData ?k d) \<noteq> 0"
    using p by (auto simp: cap_getPtr_def cap_withData_def split: if_splits)
qed

lemma CapRefBase_reset_empty: "cap_isEmpty (ce_cap (s (cr_entry r))) \<Longrightarrow> CapRefBase_reset r s c = Some (s, c)"
  by (simp add: CapRefBase_reset_def resetReference_empty live_def cap_isEmpty_def)

lemma asZombie_data [simp]: "cap_data (cap_asZombie k) = cap_data k"
  by (simp add: cap_data_def cap_asZombie_def)

lemma CapRefBase_reset_step:
  assumes "ring s (cr_entry r # zs)" "zs \<noteq> []" "live s (cr_entry r)" "\<not> is_locked s (cr_entry r)" "\<not> is_locked s (prevp s (cr_entry r))"
    and "offset2kernel (cap_data (ce_cap (s (cr_entry r)))) = Some subject" "CapRef_unbinding r subject (cr_orig r c) c = Some c'"
  shows "\<exists>s'. CapRefBase_reset r s c = Some (s', cr_put r cap_null c') \<and> ring s' zs \<and> s' (cr_entry r) = empty_entry \<and>
    (\<forall>q. q \<noteq> cr_entry r \<longrightarrow> ce_cap (s' q) = ce_cap (s q) \<and> is_locked s' q = is_locked s q)"
proof -
  let ?commit = "\<lambda>s c. do {
       subject \<leftarrow> offset2kernel (cap_data (ce_cap (s (cr_entry r))));
       c \<leftarrow> CapRef_unbinding r subject (cr_orig r c) c;
       Some (cr_put r cap_null c) }"
  have "\<exists>s'. resetReference (cr_entry r) ?commit s c = Some (True, s', cr_put r cap_null c') \<and> ring s' zs \<and> s' (cr_entry r) = empty_entry \<and>
    (\<forall>q. q \<noteq> cr_entry r \<longrightarrow> ce_cap (s' q) = ce_cap (s q) \<and> is_locked s' q = is_locked s q)"
    by (rule resetReference_step [OF assms(1-5)]) (use assms(6,7) in simp)
  then show ?thesis
    by (auto simp: CapRefBase_reset_def)
qed

lemma ring_second: "ring s (p # t # zs) \<Longrightarrow> ring s (t # zs @ [p]) \<and> prevp s t = p"
  using ring_rotate1 [of s p "t # zs"] by (auto simp: ring_def)

text \<open>
  C0. Binding and unbinding match. Take a reference with an empty entry and a usable, unlocked source
  capability. Then setting the reference returns success: the entry is linked below the source, the
  subject was bound once, with the reference made from the source, and reading the reference gives the
  source's object. Resetting it afterwards unbinds the same subject from the same capability once, and
  restores the ring: the entry is empty and every other entry has the capability it had.
\<close>

theorem CapRef_set_reset:
  assumes tree: "ring s (src # zs)" "obj_ptr_ok (cr_entry r)" "cr_entry r \<notin> set (src # zs)" "cap_isEmpty (ce_cap (s (cr_entry r)))"
      "\<not> is_locked s src" "cap_isUsable (ce_cap (s src))"
    and addr: "obj_ptr_ok (cr_this r)" "isKernelAddress subject"
    and bind: "cr_bind r subject (cap_asReference (ce_cap (s src))) (cr_put r (cap_asReference (ce_cap (s src))) c) = Some c1"
    and orig: "cr_orig r c1 = cap_asReference (ce_cap (s src))"
    and range: "\<And>k. ar c1 (cr_this r) (cr_entry r) k = CapRefBase_addressRange ar r (cr_entry r) c1"
      "covers (cap_range ar c1 src (ce_cap (s src))) (cap_range ar c1 (cr_entry r) (cap_asReference (ce_cap (s src))))"
    and unbind: "cr_unbind r subject (cap_asReference (ce_cap (s src))) c1 = Some c2"
  shows "\<exists>s1 s2. CapRefBase_set ar r subject src (ce_cap (s src)) s c = Some (Inr (), s1, c1) \<and>
    ring s1 (src # cr_entry r # zs) \<and> CapRef_get cast r c1 = cast (cap_getPtr (ce_cap (s src))) \<and>
    CapRefBase_reset r s1 c1 = Some (s2, cr_put r cap_null c2) \<and>
    ring s2 (src # zs) \<and> s2 (cr_entry r) = empty_entry \<and> (\<forall>q. q \<noteq> cr_entry r \<longrightarrow> ce_cap (s2 q) = ce_cap (s q))"
proof -
  let ?k = "ce_cap (s src)" and ?e = "cr_entry r"
  have u: "cap_isUsable (cap_asReference ?k)"
    using tree(6) by (simp add: cap_state_defs cap_asReference_def)
  obtain off where off: "kernel2offset subject = Some off" "offset2kernel off = Some subject"
    using kernel2offset_inverse [OF addr(2)] by (auto simp: bind_eq_Some_conv)
  obtain k' where k': "cap_asReferencePtrData ?k (cr_this r) off = Some k'" "cap_getPtr k' = cr_this r" "cap_isReference k'"
    "cap_isDerived k' = cap_isDerived ?k" "cap_data k' = off" "f_ptr k' \<noteq> 0"
    by (rule reference_cap [OF addr(1)]) blast
  have nz: "cap_getPtr ?k \<noteq> 0" "cap_getPtr k' \<noteq> 0"
    using usable_getPtr [OF tree(6)] k'(2) addr(1) by (auto simp: obj_ptr_ok_def isKernelAddress_def KERNELMEM_ADDR_def)
  have "cap_range ar c1 ?e k' = cap_range ar c1 ?e (cap_asReference ?k)"
    using range(1) [of k'] u k'(2) orig by (simp add: CapRefBase_addressRange_def)
  then have "inherit_check ar c1 src ?k ?e k' = Some ()"
    using range(2) k'(3,4) nz by (intro inherit_check_reference) simp_all
  then have "setReference ar ?e k' src ?k (\<lambda>c. CapRef_binding r subject (cap_asReference ?k) (cr_put r (cap_asReference ?k) c)) s c =
      Some (Inr (), child_added src ?e k' s, c1)"
    using u bind k'(3) by (intro setReference_step [OF tree]) (simp_all add: CapRef_binding_def)
  then have set: "CapRefBase_set ar r subject src ?k s c = Some (Inr (), child_added src ?e k' s, c1)"
    using off(1) k'(1) by (simp add: CapRefBase_set_def CapRefBase_reset_empty tree(4))
  note ca = child_added_reads [OF tree(1-3,5), where tc = k']
  have get: "CapRef_get cast r c1 = cast (cap_getPtr ?k)"
    using u orig by (simp add: CapRef_get_def)
  let ?s1 = "child_added src ?e k' s"
  have live: "live ?s1 ?e"
    using k'(6) by (simp add: live_def ca(2))
  have src: "\<not> is_locked ?s1 src"
    using ca(3) [where q = src] tree(3,5) by auto
  have ub: "CapRef_unbinding r subject (cr_orig r c1) c1 = Some c2"
    using u unbind orig by (simp add: CapRef_unbinding_def)
  have sub: "offset2kernel (cap_data (ce_cap (?s1 ?e))) = Some subject"
    using off(2) k'(5) by (simp add: ca(2))
  have second: "ring ?s1 (?e # zs @ [src])" "\<not> is_locked ?s1 (prevp ?s1 ?e)"
    using ring_second [OF ca(1)] src by simp_all
  have "\<exists>s2. CapRefBase_reset r ?s1 c1 = Some (s2, cr_put r cap_null c2) \<and> ring s2 (zs @ [src]) \<and> s2 ?e = empty_entry \<and>
    (\<forall>q. q \<noteq> ?e \<longrightarrow> ce_cap (s2 q) = ce_cap (?s1 q) \<and> is_locked s2 q = is_locked ?s1 q)"
    by (rule CapRefBase_reset_step [OF second(1) _ live ca(4) second(2) sub ub]) simp
  then obtain s2 where s2: "CapRefBase_reset r ?s1 c1 = Some (s2, cr_put r cap_null c2)" "ring s2 (zs @ [src])" "s2 ?e = empty_entry"
      "\<forall>q. q \<noteq> ?e \<longrightarrow> ce_cap (s2 q) = ce_cap (?s1 q)"
    by blast
  have "ring s2 (src # zs)" "\<forall>q. q \<noteq> ?e \<longrightarrow> ce_cap (s2 q) = ce_cap (s q)"
    using s2(2,4) ring_rotate1 [of s2 src zs] by (simp_all add: ca(2))
  then show ?thesis
    using set ca(1) get s2(1,3) by blast
qed

text \<open>For the example, the subject's state is the original capability with a log of bindings.\<close>

definition ex_ref :: "(cap \<times> (bool \<times> u64) list) cap_ref" where
  "ex_ref = \<lparr>cr_this = ex_third, cr_entry = ex_child, cr_orig = fst, cr_put = (\<lambda>k (_, l). (k, l)),
     cr_bind = (\<lambda>subj k (o', l). Some (o', l @ [(True, subj)])), cr_unbind = (\<lambda>subj k (o', l). Some (o', l @ [(False, subj)]))\<rparr>"

definition ex_alone :: store where
  "ex_alone = (\<lambda>_. empty_entry)(ex_root := \<lparr>ce_cap = ex_cap, ce_prev = 0x1000, ce_next = 0x1000\<rparr>)"

theorem CapRef_set_reset_witness:
  "\<exists>s1 s2. CapRefBase_set (\<lambda>c p e k. Some (range_bySize 0x1000 1)) ex_ref ex_third ex_root ex_cap ex_alone (cap_null, []) =
      Some (Inr (), s1, (cap_asReference ex_cap, [(True, ex_third)])) \<and> ring s1 [ex_root, ex_child] \<and>
    CapRefBase_reset ex_ref s1 (cap_asReference ex_cap, [(True, ex_third)]) =
      Some (s2, (cap_null, [(True, ex_third), (False, ex_third)])) \<and> ring s2 [ex_root]"
proof -
  have r: "ring ex_alone [ex_root]"
    by (simp add: ring_def ex_alone_def nextp_def prevp_def)
  have c: "ce_cap (ex_alone ex_root) = ex_cap" "cap_isEmpty (ce_cap (ex_alone ex_child))" "\<not> is_locked ex_alone ex_root"
    by (simp_all add: ex_alone_def empty_entry_def is_locked_bit bit_numeral_rec)
  have k: "isKernelAddress ex_third"
    using ex_third_ok(1) by (simp add: obj_ptr_ok_def)
  have u: "cap_isUsable (cap_asReference ex_cap)"
    using ex_cap_usable by (simp add: cap_state_defs cap_asReference_def)
  show ?thesis
    using CapRef_set_reset [of ex_alone ex_root "[]" ex_ref ex_third "(cap_null, [])" "(cap_asReference ex_cap, [(True, ex_third)])"
        "\<lambda>c p e k. Some (range_bySize 0x1000 1)" "(cap_asReference ex_cap, [(True, ex_third), (False, ex_third)])" Inr]
      r c k u by (auto simp: ex_ref_def CapRefBase_addressRange_def range_contains_def)
qed

end
