(* ===== verification/Page_Map.thy ===== *)
theory Page_Map
  imports Frame_Data Kernel_Memory Cap_Ref
begin

text \<open>
  Page maps: \<^verbatim>\<open>kernel/objects/memory-amd64/objects/PageMapAmd64.hh\<close> and \<^verbatim>\<open>PageMapAmd64.cc\<close>, with the
  page table entries of \<^verbatim>\<open>FrameDataAmd64.hh\<close>. A page map owns a hardware page table and, beside it,
  a table of capability entries: every mapped frame or lower page map is a reference in the resource
  tree, so that revoking the frame removes the mapping.

  The state is a world of objects addressed by pointer, the words of the page tables, and the
  capability entries. Pointers to the several base classes of one object are not distinguished. The
  compare-and-exchange on an entry cannot fail here, since one operation runs at a time.
\<close>

section \<open>Page table entries\<close>

definition pte_present :: "u64 \<Rightarrow> bool" where "pte_present e = BoolField_get 0 e"
definition pte_writeable :: "u64 \<Rightarrow> bool" where "pte_writeable e = BoolField_get 1 e"
definition pte_userMode :: "u64 \<Rightarrow> bool" where "pte_userMode e = BoolField_get 2 e"
definition pte_page :: "u64 \<Rightarrow> bool" where "pte_page e = BoolField_get 7 e"
definition pte_configurable :: "u64 \<Rightarrow> bool" where "pte_configurable e = BoolField_get 9 e"
definition pte_pmPtr :: "u64 \<Rightarrow> u64" where "pte_pmPtr e = UIntField_get 52 10 e"
definition pte_getAddr :: "u64 \<Rightarrow> u64" where "pte_getAddr e = push_bit 12 (UIntField_get 12 28 e)"

definition pte_withAddr :: "u64 \<Rightarrow> u64 \<Rightarrow> u64 option" where
  "pte_withAddr a e = UIntField_call 12 28 e (drop_bit 12 a)"

definition mf_writable :: "u8 \<Rightarrow> bool" where "mf_writable f = BoolField_get 0 f"
definition mf_cache_disabled :: "u8 \<Rightarrow> bool" where "mf_cache_disabled f = BoolField_get 2 f"
definition mf_write_through :: "u8 \<Rightarrow> bool" where "mf_write_through f = BoolField_get 3 f"
definition mf_configurable :: "u8 \<Rightarrow> bool" where "mf_configurable f = BoolField_get 4 f"

definition pd_writable :: "u32 \<Rightarrow> bool" where "pd_writable d = BoolField_get 1 d"
definition PageMapData_init :: u32 where "PageMapData_init = BoolField_put 1 0 True"

definition PageMapData_mint :: "u32 \<Rightarrow> cap \<Rightarrow> u64 \<Rightarrow> cap" where
  "PageMapData_mint d self r = cap_withData (cap_asReference self) (BoolField_put 1 d (pd_writable d \<and> BoolField_get 0 r))"

section \<open>State\<close>

record page_map =
  pm_level :: nat
  pm_mem :: u64
  pm_memDesc :: "mem_desc list"
  pm_mappedFrameHelper :: u64
  pm_mappedPageMapHelper :: u64

record kworld =
  kw_mem :: kms
  kw_regions :: "u64 \<Rightarrow> mem_region option"
  kw_devices :: "u64 \<Rightarrow> u64 option"
  kw_maps :: "u64 \<Rightarrow> page_map option"
  kw_frameHelpers :: "u64 \<Rightarrow> u64 option"
  kw_mapHelpers :: "u64 \<Rightarrow> u64 option"
  kw_capRefs :: "u64 \<Rightarrow> cap option"
  kw_deviceMemory :: "u64 \<Rightarrow> bool"
  kw_pte :: "u64 \<Rightarrow> u64"

type_synonym pst = "store \<times> kworld"

definition TABLE_SIZE :: u64 where "TABLE_SIZE = 512"

definition PageMap_num_caps :: "nat \<Rightarrow> u64" where
  "PageMap_num_caps l = (if l < 4 then TABLE_SIZE else TABLE_SIZE div 2)"

definition PageMap_pageSize :: "nat \<Rightarrow> u64" where
  "PageMap_pageSize level = push_bit (9 * (level - 1)) 4096"

definition pm_table :: "page_map \<Rightarrow> u64" where "pm_table m = md_ptr (pm_memDesc m ! 0)"
definition pm_caps :: "page_map \<Rightarrow> u64" where "pm_caps m = md_ptr (pm_memDesc m ! 1)"

text \<open>The addresses of a word of the page table and of a capability entry, 8 and 16 bytes large.\<close>

definition PageMap_pm_table :: "page_map \<Rightarrow> u64 \<Rightarrow> u64 option" where
  "PageMap_pm_table m index = do { ASSERT (index < TABLE_SIZE); Some (pm_table m + 8 * index) }"

definition PageMap_cap_table :: "page_map \<Rightarrow> u64 \<Rightarrow> u64 option" where
  "PageMap_cap_table m index = do { ASSERT (index < PageMap_num_caps (pm_level m)); Some (pm_caps m + 16 * index) }"

definition pte_put :: "u64 \<Rightarrow> u64 \<Rightarrow> kworld \<Rightarrow> kworld" where
  "pte_put a v w = w\<lparr>kw_pte := (kw_pte w)(a := v)\<rparr>"

definition PageTableEntry_reset :: "u64 \<Rightarrow> kworld \<Rightarrow> kworld option" where
  "PageTableEntry_reset a w = do {
     e \<leftarrow> UIntField_call 52 10 0 (pte_pmPtr (kw_pte w a));
     Some (pte_put a e w) }"

definition PageTableEntry_set :: "u64 \<Rightarrow> u64 \<Rightarrow> kworld \<Rightarrow> kworld" where
  "PageTableEntry_set a v w = pte_put a v w"

section \<open>The table knows its page map\<close>

definition memset_table :: "u64 \<Rightarrow> kworld \<Rightarrow> kworld" where
  "memset_table table w = w\<lparr>kw_pte := (\<lambda>a. if \<exists>i<512. a = table + 8 * word_of_nat i then 0 else kw_pte w a)\<rparr>"

definition memset_caps :: "u64 \<Rightarrow> nat \<Rightarrow> store \<Rightarrow> store" where
  "memset_caps caps n s = (\<lambda>a. if \<exists>i<n. a = caps + 16 * word_of_nat i then empty_entry else s a)"

text \<open>The kernel half of the root table comes from the boot page tables, an argument here.\<close>

definition copy_kernel_half :: "(u64 \<Rightarrow> u64) \<Rightarrow> u64 \<Rightarrow> kworld \<Rightarrow> kworld" where
  "copy_kernel_half pml4 table w = w\<lparr>kw_pte := (\<lambda>a. if \<exists>i<256. a = table + 8 * (256 + word_of_nat i)
     then pml4 ((a - table) div 8) else kw_pte w a)\<rparr>"

definition pte_put_pmPtr :: "u64 \<Rightarrow> u64 \<Rightarrow> kworld \<Rightarrow> kworld option" where
  "pte_put_pmPtr a v w = do { e \<leftarrow> UIntField_call 52 10 (kw_pte w a) v; Some (pte_put a e w) }"

definition PageMap_new :: "(u64 \<Rightarrow> u64) \<Rightarrow> u64 \<Rightarrow> u64 \<Rightarrow> u64 \<Rightarrow> u64 \<Rightarrow> u64 \<Rightarrow> nat \<Rightarrow> u64 \<Rightarrow> u64 \<Rightarrow> pst \<Rightarrow> pst option" where
  "PageMap_new pml4 size_of fh mh this mem level tableMem capMem st =
     (case st of (s, w) \<Rightarrow> do {
        a \<leftarrow> is_aligned tableMem PAGE_MIN_SIZE;
        ASSERT a;
        let m = \<lparr>pm_level = level, pm_mem = mem,
                 pm_memDesc = [\<lparr>md_ptr = tableMem, md_size = PAGE_MIN_SIZE, md_alignment = 0\<rparr>,
                               \<lparr>md_ptr = capMem, md_size = 16 * PageMap_num_caps level, md_alignment = 0\<rparr>,
                               \<lparr>md_ptr = this, md_size = size_of, md_alignment = 0\<rparr>],
                 pm_mappedFrameHelper = fh, pm_mappedPageMapHelper = mh\<rparr>;
        let w = memset_table tableMem w;
        let s = memset_caps capMem (unat (PageMap_num_caps level)) s;
        let w = (if level = 4 then copy_kernel_half pml4 tableMem w else w);
        pmPtr \<leftarrow> kernel2offset this;
        w \<leftarrow> pte_put_pmPtr tableMem (ucast (drop_bit 3 pmPtr AND 0x3FF)) w;
        w \<leftarrow> pte_put_pmPtr (tableMem + 8) (ucast (drop_bit 13 pmPtr AND 0x3FF)) w;
        w \<leftarrow> pte_put_pmPtr (tableMem + 16) (ucast (drop_bit 23 pmPtr AND 0x3FF)) w;
        Some (s, w\<lparr>kw_maps := (kw_maps w)(this \<mapsto> m), kw_frameHelpers := (kw_frameHelpers w)(fh \<mapsto> this),
                   kw_mapHelpers := (kw_mapHelpers w)(mh \<mapsto> this)\<rparr>) })"

definition table2PageMap :: "u64 \<Rightarrow> kworld \<Rightarrow> u64 option" where
  "table2PageMap table w =
     offset2kernel (ucast (push_bit 3 (pte_pmPtr (kw_pte w table)) OR push_bit 13 (pte_pmPtr (kw_pte w (table + 8)))
       OR push_bit 23 (pte_pmPtr (kw_pte w (table + 16)))))"

section \<open>Address ranges and deletion\<close>

definition PageMap_addressRange :: "page_map \<Rightarrow> range option" where
  "PageMap_addressRange m = do { p \<leftarrow> physPtr_fromKernel (pm_table m); Some (range_bySize p 4096) }"

definition cap_index :: "page_map \<Rightarrow> u64 \<Rightarrow> u64" where
  "cap_index m e = (e - pm_caps m) div 16"

definition MappedFrame_addressRange :: "page_map \<Rightarrow> kworld \<Rightarrow> u64 \<Rightarrow> range option" where
  "MappedFrame_addressRange m w e = do {
     a \<leftarrow> PageMap_pm_table m (cap_index m e);
     Some (range_bySize (pte_getAddr (kw_pte w a)) (PageMap_pageSize (pm_level m))) }"

definition MappedPageMap_addressRange :: "page_map \<Rightarrow> kworld \<Rightarrow> u64 \<Rightarrow> range option" where
  "MappedPageMap_addressRange m w e = do {
     a \<leftarrow> PageMap_pm_table m (cap_index m e);
     Some (range_bySize (pte_getAddr (kw_pte w a)) 4096) }"

text \<open>\<^verbatim>\<open>IKernelObject::addressRange\<close>: the default, and the dispatch over the objects of the world.\<close>

definition IKernelObject_addressRange :: "u64 \<Rightarrow> range option" where
  "IKernelObject_addressRange this = do { p \<leftarrow> physPtr_fromKernel this; Some (range_bySize p 1) }"

definition DeviceMemory_addressRange :: range where
  "DeviceMemory_addressRange = mk_range 0 (NOT 0)"

definition kw_range :: "kworld \<Rightarrow> u64 \<Rightarrow> u64 \<Rightarrow> cap \<Rightarrow> range option" where
  "kw_range w p e k =
     (case kw_mem w p of Some m \<Rightarrow> Some (KernelMemory_addressRange m) | None \<Rightarrow>
      case kw_regions w p of Some m \<Rightarrow> Some (MemoryRegion_addressRange m k) | None \<Rightarrow>
      case kw_devices w p of Some b \<Rightarrow> Some (Region_addressRange b k) | None \<Rightarrow>
      case kw_maps w p of Some m \<Rightarrow> PageMap_addressRange m | None \<Rightarrow>
      case kw_frameHelpers w p of Some q \<Rightarrow> Option.bind (kw_maps w q) (\<lambda>m. MappedFrame_addressRange m w e) | None \<Rightarrow>
      case kw_mapHelpers w p of Some q \<Rightarrow> Option.bind (kw_maps w q) (\<lambda>m. MappedPageMap_addressRange m w e) | None \<Rightarrow>
      if kw_deviceMemory w p then Some DeviceMemory_addressRange else IKernelObject_addressRange p)"

text \<open>
  A \<^verbatim>\<open>CapRef\<close> asks the object of its original capability. That object is never itself a \<^verbatim>\<open>CapRef\<close>, because
  the capability was cast to the type of the reference, and a \<^verbatim>\<open>CapRef\<close> cannot be cast to anything.
\<close>

definition kw_ar :: "kworld address_range" where
  "kw_ar w p e k =
     (case kw_capRefs w p of
        Some obj \<Rightarrow> do { ASSERT (cap_isUsable obj); kw_range w (cap_getPtr obj) e obj }
      | None \<Rightarrow> kw_range w p e k)"

definition MappedFrame_deleteCap :: "page_map \<Rightarrow> u64 \<Rightarrow> kworld \<Rightarrow> (unit optional \<times> kworld) option" where
  "MappedFrame_deleteCap m e w = do {
     a \<leftarrow> PageMap_pm_table m (cap_index m e);
     w \<leftarrow> PageTableEntry_reset a w;
     Some (Inr (), w) }"

definition MappedPageMap_deleteCap :: "page_map \<Rightarrow> u64 \<Rightarrow> kworld \<Rightarrow> (unit optional \<times> kworld) option" where
  "MappedPageMap_deleteCap m e w = do {
     a \<leftarrow> PageMap_pm_table m (cap_index m e);
     w \<leftarrow> PageTableEntry_reset a w;
     Some (Inr (), w) }"

definition PageMap_mint :: "cap \<Rightarrow> u64 \<Rightarrow> cap optional" where
  "PageMap_mint self request = Inr (PageMapData_mint (cap_data self) self request)"

section \<open>Mapping one entry\<close>

definition cast_IFrame :: "kworld \<Rightarrow> u64 \<Rightarrow> (cap \<Rightarrow> frame_info) optional" where
  "cast_IFrame w p =
     (case kw_regions w p of Some m \<Rightarrow> Inr (MemoryRegion_getFrameInfo m) | None \<Rightarrow>
      case kw_devices w p of Some b \<Rightarrow> Inr (Region_getFrameInfo b) | None \<Rightarrow> Inl TYPE_MISMATCH)"

definition cast_IPageMap :: "kworld \<Rightarrow> u64 \<Rightarrow> page_map optional" where
  "cast_IPageMap w p = (case kw_maps w p of Some m \<Rightarrow> Inr m | None \<Rightarrow> Inl TYPE_MISMATCH)"

definition frame_pte :: "nat \<Rightarrow> u8 \<Rightarrow> bool \<Rightarrow> u64 \<Rightarrow> u64 \<Rightarrow> u64 option" where
  "frame_pte level flags fwritable frameaddr pmPtr = do {
     let e = BoolField_put 0 0 True;
     let e = BoolField_put 2 e True;
     let e = BoolField_put 7 e (level > 1);
     let e = BoolField_put 1 e (mf_writable flags \<and> fwritable);
     let e = BoolField_put 3 e (mf_write_through flags);
     let e = BoolField_put 4 e (mf_cache_disabled flags);
     e \<leftarrow> pte_withAddr frameaddr e;
     let e = BoolField_put 9 e fwritable;
     UIntField_call 52 10 e pmPtr }"

definition PageMap_mapFrame :: "u64 \<Rightarrow> u64 \<Rightarrow> u64 \<Rightarrow> u8 \<Rightarrow> u64 \<Rightarrow> pst \<Rightarrow> (unit optional \<times> pst) option" where
  "PageMap_mapFrame this index frameEntry flags offset st =
     (case st of (s, w) \<Rightarrow> do {
        m \<leftarrow> kw_maps w this;
        let frameCap = ce_cap (s frameEntry);
        (case TypedCap_set (cast_IFrame w) frameCap of
           Inl e \<Rightarrow> Some (Inl e, s, w)
         | Inr getFrameInfo \<Rightarrow> do {
             let info = getFrameInfo frameCap;
             let pageSize = PageMap_pageSize (pm_level m);
             ASSERT (index < PageMap_num_caps (pm_level m));
             let frameaddr = fi_start info + offset;
             if frameaddr mod pageSize \<noteq> 0 then Some (Inl PAGEMAP_MISSING, s, w)
             else if offset + pageSize > fi_size info then Some (Inl INSUFFICIENT_RESOURCES, s, w)
             else do {
               pme \<leftarrow> PageMap_pm_table m index;
               entry \<leftarrow> frame_pte (pm_level m) flags (fi_writable info) frameaddr (pte_pmPtr (kw_pte w pme));
               newCap \<leftarrow> cap_withPtr (cap_asReference frameCap) (pm_mappedFrameHelper m);
               dst \<leftarrow> PageMap_cap_table m index;
               (u, s, w) \<leftarrow> resetReference dst (\<lambda>s. PageTableEntry_reset pme) s w;
               (r, s, w) \<leftarrow> setReference kw_ar dst newCap frameEntry frameCap (\<lambda>w. Some (PageTableEntry_set pme entry w)) s w;
               Some (r, s, w) } }) })"

definition table_pte :: "u8 \<Rightarrow> bool \<Rightarrow> u64 \<Rightarrow> u64 \<Rightarrow> u64 option" where
  "table_pte req configurable addr pmPtr = do {
     let e = BoolField_put 0 0 True;
     let e = BoolField_put 2 e True;
     let e = BoolField_put 1 e (mf_writable req);
     let e = BoolField_put 3 e (mf_write_through req);
     let e = BoolField_put 4 e (mf_cache_disabled req);
     e \<leftarrow> pte_withAddr addr e;
     e \<leftarrow> UIntField_call 52 10 e pmPtr;
     Some (BoolField_put 9 e (configurable \<and> mf_configurable req)) }"

definition PageMap_mapTable :: "u64 \<Rightarrow> u64 \<Rightarrow> u8 \<Rightarrow> u64 \<Rightarrow> pst \<Rightarrow> (unit optional \<times> pst) option" where
  "PageMap_mapTable this tableEntry req index st =
     (case st of (s, w) \<Rightarrow> do {
        m \<leftarrow> kw_maps w this;
        ASSERT (index < PageMap_num_caps (pm_level m));
        let tableCap = ce_cap (s tableEntry);
        (case TypedCap_set (cast_IPageMap w) tableCap of
           Inl e \<Rightarrow> Some (Inl e, s, w)
         | Inr t \<Rightarrow>
             if pm_level m \<noteq> pm_level t + 1 then Some (Inl INVALID_CAPABILITY, s, w)
             else do {
               tp \<leftarrow> physPtr_fromKernel (pm_table t);
               pme \<leftarrow> PageMap_pm_table m index;
               entry \<leftarrow> table_pte req (pd_writable (cap_data tableCap)) tp (pte_pmPtr (kw_pte w pme));
               let capData = BoolField_put 1 PageMapData_init (pte_configurable entry);
               newCap \<leftarrow> cap_withPtr (cap_asReference tableCap) (pm_mappedPageMapHelper m);
               let newCap = cap_withData newCap capData;
               dst \<leftarrow> PageMap_cap_table m index;
               (u, s, w) \<leftarrow> resetReference dst (\<lambda>s. PageTableEntry_reset pme) s w;
               (r, s, w) \<leftarrow> setReference kw_ar dst newCap tableEntry tableCap (\<lambda>w. Some (PageTableEntry_set pme entry w)) s w;
               Some (r, s, w) }) })"

definition PageMap_unmapEntry :: "u64 \<Rightarrow> u64 \<Rightarrow> pst \<Rightarrow> (unit optional \<times> pst) option" where
  "PageMap_unmapEntry this index st =
     (case st of (s, w) \<Rightarrow> do {
        m \<leftarrow> kw_maps w this;
        ASSERT (index < PageMap_num_caps (pm_level m));
        pme \<leftarrow> PageMap_pm_table m index;
        dst \<leftarrow> PageMap_cap_table m index;
        (u, s, w) \<leftarrow> resetReference dst (\<lambda>s. PageTableEntry_reset pme) s w;
        Some (Inr (), s, w) })"

definition ProtectPage_applyPage :: "u8 \<Rightarrow> u64 \<Rightarrow> u64 \<Rightarrow> pst \<Rightarrow> (unit optional \<times> pst) option" where
  "ProtectPage_applyPage flags table index st =
     (case st of (s, w) \<Rightarrow>
        let a = table + 8 * index; pme = kw_pte w a in
        if \<not> pte_present pme \<or> \<not> pte_page pme then Some (Inl LOST_RACE, s, w)
        else
          let e = BoolField_put 1 pme (mf_writable flags \<and> pte_configurable pme);
              e = BoolField_put 3 e (mf_write_through flags);
              e = BoolField_put 4 e (mf_cache_disabled flags)
          in Some (Inr (), s, PageTableEntry_set a e w))"

section \<open>Walking over a range of pages\<close>

datatype page_visitor =
    MapFrameVisitor u64 u8
  | UnmapFrameVisitor
  | ProtectPageVisitor u8

record page_op =
  po_visitor :: page_visitor
  po_start_vaddr :: u64
  po_start_size :: u64
  po_frame_offset :: u64
  po_skip_nonmapped :: bool
  po_table_vaddr :: u64
  po_page_offset :: u64
  po_current_level :: nat

definition PageOp :: "page_visitor \<Rightarrow> u64 \<Rightarrow> u64 \<Rightarrow> u64 \<Rightarrow> bool \<Rightarrow> page_op" where
  "PageOp v vaddr sz frame_offset skip = \<lparr>po_visitor = v, po_start_vaddr = vaddr, po_start_size = sz, po_frame_offset = frame_offset,
     po_skip_nonmapped = skip, po_table_vaddr = 0, po_page_offset = 0, po_current_level = 0\<rparr>"

definition PageOp_vaddr :: "page_op \<Rightarrow> u64" where "PageOp_vaddr op = po_start_vaddr op + po_page_offset op"
definition PageOp_sizeRemaining :: "page_op \<Rightarrow> u64" where "PageOp_sizeRemaining op = po_start_size op - po_page_offset op"
definition PageOp_offset :: "page_op \<Rightarrow> u64" where "PageOp_offset op = po_frame_offset op + po_page_offset op"

definition PageOp_moveForward :: "u64 \<Rightarrow> page_op \<Rightarrow> page_op" where
  "PageOp_moveForward pagesize op = op\<lparr>po_page_offset := po_page_offset op + pagesize\<rparr>"

definition PageOp_applyPage :: "page_op \<Rightarrow> u64 \<Rightarrow> u64 \<Rightarrow> pst \<Rightarrow> (unit optional \<times> pst) option" where
  "PageOp_applyPage op table index st =
     (case po_visitor op of
        MapFrameVisitor frameEntry flags \<Rightarrow> do {
          this \<leftarrow> table2PageMap table (snd st);
          PageMap_mapFrame this index frameEntry flags (PageOp_offset op) st }
      | UnmapFrameVisitor \<Rightarrow> do {
          this \<leftarrow> table2PageMap table (snd st);
          PageMap_unmapEntry this index st }
      | ProtectPageVisitor flags \<Rightarrow> ProtectPage_applyPage flags table index st)"

text \<open>The first index and the number of entries of a table that a walk visits.\<close>

definition visit_entries :: "nat \<Rightarrow> page_op \<Rightarrow> (u64 \<times> u64) optional" where
  "visit_entries LEVEL op =
     (let ps = PageMap_pageSize LEVEL;
          startIndex = (PageOp_vaddr op - po_table_vaddr op) div ps in
      if startIndex \<ge> PageMap_num_caps LEVEL then Inl REQUEST_DENIED
      else
        let numEntries = (PageOp_vaddr op + PageOp_sizeRemaining op + ps - 1) div ps - PageOp_vaddr op div ps in
        Inr (startIndex, if numEntries > PageMap_num_caps LEVEL - startIndex then PageMap_num_caps LEVEL - startIndex else numEntries))"

text \<open>A page must be covered as a whole.\<close>

definition page_checks :: "nat \<Rightarrow> page_op \<Rightarrow> unit optional" where
  "page_checks LEVEL op =
     (if PageOp_vaddr op mod PageMap_pageSize LEVEL \<noteq> 0 \<or> PageOp_sizeRemaining op < PageMap_pageSize LEVEL
      then Inl (if LEVEL \<ge> 2 then PAGEMAP_MISSING else UNALIGNED) else Inr ())"

definition visit_apply :: "nat \<Rightarrow> u64 \<Rightarrow> u64 \<Rightarrow> page_op \<Rightarrow> pst \<Rightarrow> (unit optional \<times> page_op \<times> pst) option" where
  "visit_apply LEVEL table index op st =
     (case page_checks LEVEL op of
        Inl e \<Rightarrow> Some (Inl e, op, st)
      | Inr _ \<Rightarrow> do {
          (res, st) \<leftarrow> PageOp_applyPage op table index st;
          case res of
            Inl e \<Rightarrow> Some (Inl e, op, st)
          | Inr _ \<Rightarrow> Some (Inr (), PageOp_moveForward (PageMap_pageSize LEVEL) op, st) })"

text \<open>The loop over the entries; it enters a lower table with the same computation as \<^verbatim>\<open>visitPages\<close> itself.\<close>

fun visitPages_loop :: "nat \<Rightarrow> nat \<Rightarrow> u64 \<Rightarrow> u64 \<Rightarrow> u64 \<Rightarrow> page_op \<Rightarrow> pst \<Rightarrow> (unit optional \<times> page_op \<times> pst) option" where
  "visitPages_loop LEVEL 0 table tableStart index op st = Some (Inr (), op, st)"
| "visitPages_loop LEVEL (Suc n) table tableStart index op st =
     (let op = op\<lparr>po_current_level := LEVEL\<rparr>;
          pme = kw_pte (snd st) (table + 8 * index) in
      Option.bind
        (if LEVEL > 1 \<and> pte_present pme \<and> \<not> pte_page pme then
           if \<not> pte_configurable pme then Some (Inl PAGEMAP_NOCONF, op, st)
           else
             let op = op\<lparr>po_table_vaddr := tableStart + index * PageMap_pageSize LEVEL\<rparr> in
             case visit_entries (LEVEL - 1) op of
               Inl e \<Rightarrow> Some (Inl e, op, st)
             | Inr (startIndex, numEntries) \<Rightarrow>
                 visitPages_loop (LEVEL - 1) (unat numEntries) (phys2kernel (pte_getAddr pme)) (po_table_vaddr op) startIndex op st
         else if pte_present pme \<and> pte_page pme then visit_apply LEVEL table index op st
         else if \<not> po_skip_nonmapped op then
           if LEVEL > 2 then Some (Inl PAGEMAP_MISSING, op, st)
           else visit_apply LEVEL table index op st
         else Some (Inr (), PageOp_moveForward (PageMap_pageSize LEVEL - PageOp_vaddr op mod PageMap_pageSize LEVEL) op, st))
        (\<lambda>(res, op, st).
           case res of
             Inl e \<Rightarrow> Some (Inl e, op, st)
           | Inr _ \<Rightarrow> visitPages_loop LEVEL n table tableStart (index + 1) op st))"

definition visitPages :: "u64 \<Rightarrow> nat \<Rightarrow> page_op \<Rightarrow> pst \<Rightarrow> (unit optional \<times> page_op \<times> pst) option" where
  "visitPages table LEVEL op st =
     (case visit_entries LEVEL op of
        Inl e \<Rightarrow> Some (Inl e, op, st)
      | Inr (startIndex, numEntries) \<Rightarrow>
          visitPages_loop LEVEL (unat numEntries) table (po_table_vaddr op) startIndex op st)"

section \<open>Walking to a table\<close>

datatype table_visitor =
    MapTableVisitor u64 u8
  | UnmapTableVisitor

record table_op =
  to_visitor :: table_visitor
  to_vaddr :: u64
  to_target_level :: nat
  to_table_vaddr :: u64
  to_failaddr :: u64
  to_current_level :: nat

definition TableOp :: "table_visitor \<Rightarrow> u64 \<Rightarrow> nat \<Rightarrow> table_op" where
  "TableOp v vaddr target_level = \<lparr>to_visitor = v, to_vaddr = vaddr, to_target_level = target_level, to_table_vaddr = 0,
     to_failaddr = 0, to_current_level = 0\<rparr>"

definition TableOp_applyTable :: "table_op \<Rightarrow> u64 \<Rightarrow> u64 \<Rightarrow> pst \<Rightarrow> (unit optional \<times> pst) option" where
  "TableOp_applyTable op this index st =
     (case to_visitor op of
        MapTableVisitor mapEntry flags \<Rightarrow> PageMap_mapTable this mapEntry flags index st
      | UnmapTableVisitor \<Rightarrow> PageMap_unmapEntry this index st)"

fun visitTables :: "u64 \<Rightarrow> nat \<Rightarrow> table_op \<Rightarrow> pst \<Rightarrow> (unit optional \<times> table_op \<times> pst) option" where
  "visitTables table LEVEL op st =
     (let ps = PageMap_pageSize LEVEL;
          tableStart = to_table_vaddr op;
          index = (to_vaddr op - to_table_vaddr op) div ps;
          op = op\<lparr>to_current_level := LEVEL, to_failaddr := (to_vaddr op div ps) * ps\<rparr> in
      if index \<ge> PageMap_num_caps LEVEL then Some (Inl REQUEST_DENIED, op, st)
      else
        let pme = kw_pte (snd st) (table + 8 * index) in
        if to_target_level op = LEVEL then do {
          this \<leftarrow> table2PageMap table (snd st);
          (res, st) \<leftarrow> TableOp_applyTable op this index st;
          Some (res, op, st) }
        else if LEVEL > 1 \<and> pte_present pme \<and> \<not> pte_page pme then
          if \<not> pte_configurable pme then Some (Inl PAGEMAP_NOCONF, op, st)
          else visitTables (phys2kernel (pte_getAddr pme)) (LEVEL - 1) (op\<lparr>to_table_vaddr := tableStart + index * ps\<rparr>) st
        else Some (Inl PAGEMAP_MISSING, op, st))"

declare visitTables.simps [simp del]

section \<open>Invocations\<close>

text \<open>The result message carries the address and the level at which the operation stopped.\<close>

definition PageMap_mapFrame_range :: "u64 \<Rightarrow> u64 \<Rightarrow> u64 \<Rightarrow> u64 \<Rightarrow> u8 \<Rightarrow> u64 \<Rightarrow> pst \<Rightarrow> (unit optional \<times> u64 \<times> nat \<times> pst) option" where
  "PageMap_mapFrame_range this vaddr sz frameEntry flags offset st =
     (case TypedCap_set (cast_IFrame (snd st)) (ce_cap (fst st frameEntry)) of
        Inl e \<Rightarrow> Some (Inl e, 0, 0, st)
      | Inr _ \<Rightarrow> do {
          m \<leftarrow> kw_maps (snd st) this;
          (res, op, st) \<leftarrow> visitPages (pm_table m) (pm_level m) (PageOp (MapFrameVisitor frameEntry flags) vaddr sz offset False) st;
          Some (res, PageOp_vaddr op, po_current_level op, st) })"

definition PageMap_invokeMmap :: "u64 \<Rightarrow> cap \<Rightarrow> u64 \<Rightarrow> u64 \<Rightarrow> u64 optional \<Rightarrow> u8 \<Rightarrow> u64 \<Rightarrow> pst \<Rightarrow> (Error \<times> (u64 \<times> nat) option \<times> pst) option" where
  "PageMap_invokeMmap this self vaddr sz frameEntry flags offset st =
     (if \<not> pd_writable (cap_data self) then Some (REQUEST_DENIED, None, st)
      else case frameEntry of
        Inl e \<Rightarrow> Some (INVALID_CAPABILITY, None, st)
      | Inr fe \<Rightarrow> do {
          (res, failaddr, faillevel, st) \<leftarrow> PageMap_mapFrame_range this vaddr sz fe flags offset st;
          Some (opt_state res, Some (failaddr, faillevel), st) })"

definition PageMap_invokeRemap :: "cap \<Rightarrow> Error" where
  "PageMap_invokeRemap self = (if \<not> pd_writable (cap_data self) then REQUEST_DENIED else NOT_IMPLEMENTED)"

definition PageMap_invokeMunmap :: "u64 \<Rightarrow> cap \<Rightarrow> u64 \<Rightarrow> u64 \<Rightarrow> pst \<Rightarrow> (Error \<times> (u64 \<times> nat) option \<times> pst) option" where
  "PageMap_invokeMunmap this self vaddr sz st =
     (if \<not> pd_writable (cap_data self) then Some (REQUEST_DENIED, None, st)
      else do {
        m \<leftarrow> kw_maps (snd st) this;
        (res, op, st) \<leftarrow> visitPages (pm_table m) (pm_level m) (PageOp UnmapFrameVisitor vaddr sz 0 True) st;
        Some (opt_state res, Some (PageOp_vaddr op, po_current_level op), st) })"

definition PageMap_invokeMprotect :: "u64 \<Rightarrow> cap \<Rightarrow> u64 \<Rightarrow> u64 \<Rightarrow> u8 \<Rightarrow> pst \<Rightarrow> (Error \<times> (u64 \<times> nat) option \<times> pst) option" where
  "PageMap_invokeMprotect this self vaddr sz flags st =
     (if \<not> pd_writable (cap_data self) then Some (REQUEST_DENIED, None, st)
      else do {
        m \<leftarrow> kw_maps (snd st) this;
        (res, op, st) \<leftarrow> visitPages (pm_table m) (pm_level m) (PageOp (ProtectPageVisitor flags) vaddr sz 0 True) st;
        Some (opt_state res, Some (PageOp_vaddr op, po_current_level op), st) })"

definition TableOp_bad :: "table_op \<Rightarrow> bool" where
  "TableOp_bad op \<longleftrightarrow> to_target_level op < 1 \<or> to_target_level op > 4 \<or> to_vaddr op mod PageMap_pageSize (to_target_level op) \<noteq> 0"

definition PageMap_mapTable_range :: "u64 \<Rightarrow> u64 \<Rightarrow> nat \<Rightarrow> u64 \<Rightarrow> u8 \<Rightarrow> pst \<Rightarrow> (unit optional \<times> u64 \<times> nat \<times> pst) option" where
  "PageMap_mapTable_range this vaddr target_level tableEntry flags st =
     (let op = TableOp (MapTableVisitor tableEntry flags) vaddr target_level in
      if TableOp_bad op then Some (Inl UNALIGNED, 0, 0, st)
      else do {
        m \<leftarrow> kw_maps (snd st) this;
        (res, op, st) \<leftarrow> visitTables (pm_table m) (pm_level m) op st;
        Some (res, to_failaddr op, to_current_level op, st) })"

definition PageMap_invokeInstallMap :: "u64 \<Rightarrow> cap \<Rightarrow> u64 \<Rightarrow> nat \<Rightarrow> u64 optional \<Rightarrow> u8 \<Rightarrow> pst \<Rightarrow> (Error \<times> (u64 \<times> nat) option \<times> pst) option" where
  "PageMap_invokeInstallMap this self vaddr level tableEntry flags st =
     (if \<not> pd_writable (cap_data self) then Some (REQUEST_DENIED, None, st)
      else case tableEntry of
        Inl e \<Rightarrow> Some (INVALID_CAPABILITY, None, st)
      | Inr te \<Rightarrow> do {
          (res, failaddr, faillevel, st) \<leftarrow> PageMap_mapTable_range this vaddr level te flags st;
          Some (opt_state res, Some (failaddr, faillevel), st) })"

definition PageMap_invokeRemoveMap :: "u64 \<Rightarrow> cap \<Rightarrow> u64 \<Rightarrow> nat \<Rightarrow> pst \<Rightarrow> (Error \<times> (u64 \<times> nat) option \<times> pst) option" where
  "PageMap_invokeRemoveMap this self vaddr level st =
     (let op = TableOp UnmapTableVisitor vaddr level in
      if \<not> pd_writable (cap_data self) then Some (REQUEST_DENIED, None, st)
      else if TableOp_bad op then Some (UNALIGNED, Some (to_failaddr op, to_current_level op), st)
      else do {
        m \<leftarrow> kw_maps (snd st) this;
        (res, op, st) \<leftarrow> visitTables (pm_table m) (pm_level m) op st;
        Some (opt_state res, Some (to_failaddr op, to_current_level op), st) })"

section \<open>What an entry says\<close>

lemmas pte_defs = pte_present_def pte_writeable_def pte_userMode_def pte_page_def pte_configurable_def pte_pmPtr_def

lemma pmPtr_bound: "unat (pte_pmPtr e) < 2 ^ 10"
  unfolding pte_pmPtr_def by (rule unat_UIntField_get) simp_all

lemma push_drop_aligned: "2 ^ n dvd unat (x :: u64) \<Longrightarrow> push_bit n (drop_bit n x) = x"
proof (rule bit_word_eqI)
  fix i assume d: "2 ^ n dvd unat x" and "i < LENGTH(64)"
  have "x AND mask n = 0"
    using d by (simp only: and_mask_dvd)
  then have "\<not> bit (x AND mask n) i"
    by simp
  then show "bit (push_bit n (drop_bit n x)) i = bit x i"
    using \<open>i < LENGTH(64)\<close> by (auto simp: bit_simps)
qed

lemma drop_12_small: "unat (x :: u64) < 2 ^ 40 \<Longrightarrow> unat (drop_bit 12 x) < 2 ^ 28"
proof -
  assume "unat x < 2 ^ 40"
  then have "unat x div 2 ^ 12 < 2 ^ 28"
    by (simp add: div_less_iff_less_mult)
  then show ?thesis
    by (simp add: drop_bit_eq_div unat_div)
qed

lemma frame_pte_fields:
  assumes "unat a < 2 ^ 40" "4096 dvd unat a" "unat pp < 2 ^ 10"
  obtains e where "frame_pte level flags fw a pp = Some e" "pte_present e" "pte_userMode e" "pte_page e = (level > 1)"
    "pte_writeable e = (mf_writable flags \<and> fw)" "pte_getAddr e = a" "pte_configurable e = fw" "pte_pmPtr e = pp"
proof -
  have a: "drop_bit 28 (drop_bit 12 a) = 0" "drop_bit 10 pp = 0"
    using drop_12_small [OF assms(1)] assms(3) by (simp_all only: drop_bit_zero_iff)
  have "push_bit 12 (drop_bit 12 a) = a"
    using assms(2) by (intro push_drop_aligned) simp
  then show thesis
    using a by (intro that; simp only: frame_pte_def pte_withAddr_def UIntField_call_def ASSERT_simps Let_def bind.bind_lunit simp_thms)
      (simp_all add: pte_defs pte_getAddr_def field_laws)
qed

section \<open>Mapping a frame\<close>

text \<open>A page map as the factory leaves it: its helper object is known and is no other object.\<close>

definition map_object :: "kworld \<Rightarrow> u64 \<Rightarrow> page_map \<Rightarrow> bool" where
  "map_object w this m \<longleftrightarrow> kw_maps w this = Some m \<and> 1 \<le> pm_level m \<and> pm_level m \<le> 4 \<and>
     (let h = pm_mappedFrameHelper m in
      obj_ptr_ok h \<and> kw_frameHelpers w h = Some this \<and> kw_mem w h = None \<and> kw_regions w h = None \<and> kw_devices w h = None \<and> kw_maps w h = None \<and> kw_capRefs w h = None)"

text \<open>A capability to a frame of a memory region inside the physical memory that page tables can address.\<close>

definition frame_object :: "kworld \<Rightarrow> cap \<Rightarrow> mem_region \<Rightarrow> bool" where
  "frame_object w k r \<longleftrightarrow> kw_capRefs w (cap_getPtr k) = None \<and> kw_mem w (cap_getPtr k) = None \<and> kw_regions w (cap_getPtr k) = Some r \<and>
     region_ok r \<and> frame_inside r k \<and> unat (mr_base r) + unat (mr_size r) \<le> 2 ^ 40"

lemma kw_ar_frame:
  "frame_object w k r \<Longrightarrow> kw_ar (pte_put a v w) (cap_getPtr k) e k = Some (MemoryRegion_addressRange r k)"
  by (simp add: kw_ar_def kw_range_def frame_object_def pte_put_def)

lemma unat_pageSize: "1 \<le> l \<Longrightarrow> l \<le> 4 \<Longrightarrow> unat (PageMap_pageSize l) = 4096 * 512 ^ (l - 1)"
proof -
  assume "1 \<le> l" "l \<le> 4"
  then consider "l = 1" | "l = 2" | "l = 3" | "l = 4"
    by linarith
  then show ?thesis
    by cases (simp_all add: PageMap_pageSize_def)
qed

lemma num_caps_bound: "index < PageMap_num_caps l \<Longrightarrow> index < TABLE_SIZE" "unat (PageMap_num_caps l) \<le> 512"
  by (auto simp: PageMap_num_caps_def TABLE_SIZE_def word_less_nat_alt split: if_splits)

lemma cap_index_slot: "index < TABLE_SIZE \<Longrightarrow> cap_index m (pm_caps m + 16 * index) = index"
proof -
  assume "index < TABLE_SIZE"
  then have "unat (16 * index) = 16 * unat index"
    by (subst unat_mult_lem [THEN iffD1]) (simp_all add: TABLE_SIZE_def word_less_nat_alt)
  then have "unat (16 * index div 16) = unat index"
    by (simp add: unat_div)
  then show ?thesis
    by (simp add: cap_index_def word_unat_eq_iff)
qed

lemma kw_ar_mapped:
  assumes "map_object w this m" "index < PageMap_num_caps (pm_level m)" "cap_getPtr k = pm_mappedFrameHelper m"
  shows "kw_ar (pte_put a v w) (cap_getPtr k) (pm_caps m + 16 * index) k =
    Some (range_bySize (pte_getAddr (kw_pte (pte_put a v w) (pm_table m + 8 * index))) (PageMap_pageSize (pm_level m)))"
  using assms num_caps_bound(1) [OF assms(2)] cap_index_slot [of index m]
  by (simp add: map_object_def Let_def kw_ar_def kw_range_def pte_put_def MappedFrame_addressRange_def PageMap_pm_table_def)

lemma withPtr_helper:
  assumes "obj_ptr_ok h"
  obtains k' where "cap_withPtr (cap_asReference k) h = Some k'" "cap_getPtr k' = h" "cap_isReference k'" "cap_isDerived k' = cap_isDerived k"
  using that [of "set_ptr (cap_asReference k) (drop_bit 3 (ucast (h - KERNELMEM_ADDR)))"] assms
    cap_getPtr_set_ptr [OF assms, of "cap_asReference k"]
  by (simp add: cap_withPtr_def packPtr_ok cap_isReference_def cap_isDerived_def cap_asReference_def)

text \<open>The bytes \<open>off\<close> to \<open>off + ps\<close> of a frame lie inside it, if the sum does not wrap around.\<close>

lemma frame_part:
  assumes f: "region_ok r" "frame_inside r k" and p: "unat off + unat ps < 2 ^ 64" "\<not> off + ps > frame_size r k" "0 < unat ps"
  defines "st \<equiv> FrameData_getStart (mr_base r) (cap_data k)"
  shows "range_contains (MemoryRegion_addressRange r k) (range_bySize (st + off) ps)"
    "unat (st + off) = unat (mr_base r) + unat (fd_offset (cap_data k)) * 4096 + unat off"
    "unat (st + off) + unat ps \<le> unat (mr_base r) + unat (mr_size r)"
proof -
  have st: "unat st = unat (mr_base r) + unat (fd_offset (cap_data k)) * 4096"
    unfolding st_def using f(2) by (intro unat_getStart [OF f(1)]) (simp add: frame_inside_def)
  have op: "unat off + unat ps \<le> unat (frame_size r k)"
    using p(1,2) unat_add_small [OF p(1)] by (simp add: not_less word_le_nat_alt)
  have b: "unat (fd_offset (cap_data k)) * 4096 + unat (frame_size r k) \<le> unat (mr_size r)" "unat (mr_base r) + unat (mr_size r) \<le> 2 ^ 48"
    using f by (simp_all add: frame_inside_def region_ok_def)
  show a: "unat (st + off) = unat (mr_base r) + unat (fd_offset (cap_data k)) * 4096 + unat off"
    using st op b by (subst unat_add_small) simp_all
  show "unat (st + off) + unat ps \<le> unat (mr_base r) + unat (mr_size r)"
    using a op b by simp
  have "unat (st + off + ps) = unat (st + off) + unat ps" "unat (st + frame_size r k) = unat st + unat (frame_size r k)"
    using a st op b by (simp_all add: unat_add_small)
  then show "range_contains (MemoryRegion_addressRange r k) (range_bySize (st + off) ps)"
    using a st op by (simp add: range_contains_def MemoryRegion_addressRange_def range_bySize_def frame_size_def st_def Let_def word_le_nat_alt
      split: if_splits)
qed

lemma frame_part_wraps:
  assumes f: "region_ok r" "frame_inside r k" and p: "2 ^ 64 \<le> unat off + unat ps" "unat ps \<le> 2 ^ 40"
    and a: "unat (FrameData_getStart (mr_base r) (cap_data k) + off) < 2 ^ 40"
  shows "\<not> range_contains (MemoryRegion_addressRange r k) (range_bySize (FrameData_getStart (mr_base r) (cap_data k) + off) ps)"
proof -
  let ?st = "FrameData_getStart (mr_base r) (cap_data k)"
  have "\<not> unat ?st + unat off < 2 ^ 64"
    using unat_add_small [of ?st off] a p by fastforce
  then have "unat (?st + off) = unat ?st + unat off - 2 ^ 64"
    using unat_plus_if' [of ?st off] by simp
  moreover have "unat off < 2 ^ LENGTH(64)"
    by (rule unsigned_less)
  ultimately have "unat (?st + off) < unat ?st"
    using \<open>\<not> unat ?st + unat off < 2 ^ 64\<close> by simp
  then have "\<not> ?st \<le> ?st + off"
    by (simp only: word_le_nat_alt not_le)
  moreover have "rg_start (MemoryRegion_addressRange r k) = ?st" "rg_start (range_bySize (?st + off) ps) = ?st + off"
    by (simp_all add: MemoryRegion_addressRange_def range_bySize_def Let_def)
  ultimately show ?thesis
    by (simp only: range_contains_def simp_thms)
qed

text \<open>
  The slot for a mapping, in the ring of the frame's entry: it is empty and outside, or holds an earlier
  mapping that is linked somewhere in the ring and not locked. Without the slot the ring is \<open>fe # zs\<close>.
\<close>

definition slot_tree :: "store \<Rightarrow> u64 \<Rightarrow> u64 \<Rightarrow> u64 list \<Rightarrow> bool" where
  "slot_tree s fe dst zs \<longleftrightarrow> obj_ptr_ok dst \<and> \<not> is_locked s fe \<and>
     (ring s (fe # zs) \<and> dst \<notin> set (fe # zs) \<and> cap_isEmpty (ce_cap (s dst)) \<or>
      (\<exists>xs ys. zs = xs @ ys \<and> ring s (fe # xs @ dst # ys) \<and> live s dst \<and> \<not> is_locked s dst \<and> \<not> is_locked s (prevp s dst)))"

lemma PageTableEntry_reset_step: "\<exists>v. PageTableEntry_reset a w = Some (pte_put a v w)"
  using pmPtr_bound [of "kw_pte w a"] by (auto simp: PageTableEntry_reset_def UIntField_call_def drop_bit_zero_iff)

lemma slot_released:
  assumes "slot_tree s fe dst zs"
  obtains b s1 w1 where "resetReference dst (\<lambda>s. PageTableEntry_reset a) s w = Some (b, s1, w1)"
    "ring s1 (fe # zs)" "dst \<notin> set (fe # zs)" "cap_isEmpty (ce_cap (s1 dst))" "\<not> is_locked s1 fe"
    "\<And>q. q \<noteq> dst \<Longrightarrow> ce_cap (s1 q) = ce_cap (s q)" "\<And>v. pte_put a v w1 = pte_put a v w"
proof -
  consider "ring s (fe # zs)" "dst \<notin> set (fe # zs)" "cap_isEmpty (ce_cap (s dst))" "\<not> is_locked s fe"
    | xs ys where "zs = xs @ ys" "ring s (fe # xs @ dst # ys)" "live s dst" "\<not> is_locked s dst" "\<not> is_locked s (prevp s dst)" "\<not> is_locked s fe"
    using assms unfolding slot_tree_def by blast
  then show thesis
  proof cases
    case 1
    have "\<not> live s dst"
      using 1(3) by (auto simp: live_def cap_isEmpty_def)
    then show thesis
      using 1 by (intro that [of False s w]) (simp_all add: resetReference_empty)
  next
    case 2
    obtain v where v: "PageTableEntry_reset a w = Some (pte_put a v w)"
      using PageTableEntry_reset_step by blast
    have r: "ring s (dst # ys @ fe # xs)"
      using 2(2) ring_rotate [of s "fe # xs" "dst # ys"] by simp
    have d: "dst \<notin> set (fe # zs)"
      using r 2(1) by (auto simp: ring_def)
    obtain s1 where s1: "resetReference dst (\<lambda>s. PageTableEntry_reset a) s w = Some (True, s1, pte_put a v w)" "ring s1 (ys @ fe # xs)" "s1 dst = empty_entry"
      "\<And>q. q \<noteq> dst \<Longrightarrow> ce_cap (s1 q) = ce_cap (s q)" "\<And>q. q \<noteq> dst \<Longrightarrow> is_locked s1 q = is_locked s q"
      using resetReference_step [OF r _ 2(3-5), of "\<lambda>s. PageTableEntry_reset a" w "pte_put a v w"] v by auto
    have "ring s1 (fe # zs)"
      using s1(2) 2(1) ring_rotate [of s1 ys "fe # xs"] by simp
    then show thesis
      using s1 d 2(6) by (intro that [of True s1 "pte_put a v w"]) (auto simp: pte_put_def empty_entry_def)
  qed
qed

text \<open>What \<^verbatim>\<open>mapFrame\<close> does after its checks.\<close>

lemma mapFrame_eq:
  assumes m: "map_object w this m" "index < PageMap_num_caps (pm_level m)"
    and f: "frame_object w k r" "cap_isUsable k" "k = ce_cap (s fe)"
    and a: "a = FrameData_getStart (mr_base r) (cap_data k) + off"
      "a mod PageMap_pageSize (pm_level m) = 0" "\<not> off + PageMap_pageSize (pm_level m) > frame_size r k"
    and tree: "slot_tree s fe (pm_caps m + 16 * index) zs"
  obtains s' k' where "cap_getPtr k' = pm_mappedFrameHelper m" "cap_isReference k'" "cap_isDerived k' = cap_isDerived k"
    "ring s' (fe # (pm_caps m + 16 * index) # zs)"
    "\<And>q. ce_cap (s' q) = (if q = pm_caps m + 16 * index then k' else ce_cap (s q))"
    "PageMap_mapFrame this index fe flags off (s, w) = do {
       e \<leftarrow> frame_pte (pm_level m) flags (fd_writable (cap_data k)) a (pte_pmPtr (kw_pte w (pm_table m + 8 * index)));
       inherit_check kw_ar (pte_put (pm_table m + 8 * index) e w) fe k (pm_caps m + 16 * index) k';
       Some (Inr (), s', pte_put (pm_table m + 8 * index) e w) }"
proof -
  let ?dst = "pm_caps m + 16 * index" and ?pme = "pm_table m + 8 * index"
  note ix = num_caps_bound(1) [OF m(2)]
  have h: "obj_ptr_ok (pm_mappedFrameHelper m)"
    using m(1) by (simp add: map_object_def Let_def)
  obtain k' where k': "cap_withPtr (cap_asReference k) (pm_mappedFrameHelper m) = Some k'" "cap_getPtr k' = pm_mappedFrameHelper m"
    "cap_isReference k'" "cap_isDerived k' = cap_isDerived k"
    by (rule withPtr_helper [OF h]) blast
  obtain b s1 w1 where s1: "resetReference ?dst (\<lambda>s. PageTableEntry_reset ?pme) s w = Some (b, s1, w1)"
    "ring s1 (fe # zs)" "?dst \<notin> set (fe # zs)" "cap_isEmpty (ce_cap (s1 ?dst))" "\<not> is_locked s1 fe"
    "\<And>q. q \<noteq> ?dst \<Longrightarrow> ce_cap (s1 q) = ce_cap (s q)" "\<And>v. pte_put ?pme v w1 = pte_put ?pme v w"
    by (rule slot_released [OF tree, of ?pme w]) blast
  have dst: "obj_ptr_ok ?dst"
    using tree by (simp add: slot_tree_def)
  have fe: "ce_cap (s1 fe) = k"
    using s1(3,6) f(3) by auto
  have "setReference kw_ar ?dst k' fe k (\<lambda>w. Some (PageTableEntry_set ?pme e w)) s1 w1 =
      Option.bind (inherit_check kw_ar (pte_put ?pme e w) fe k ?dst k') (\<lambda>_. Some (Inr (), child_added fe ?dst k' s1, pte_put ?pme e w))" for e
    unfolding fe [symmetric]
    by (intro setReference_eq [OF s1(2) dst s1(3-5)]) (use f(2) fe k'(3) s1(7) in \<open>simp_all add: PageTableEntry_set_def\<close>)
  then have "PageMap_mapFrame this index fe flags off (s, w) = do {
       e \<leftarrow> frame_pte (pm_level m) flags (fd_writable (cap_data k)) a (pte_pmPtr (kw_pte w ?pme));
       inherit_check kw_ar (pte_put ?pme e w) fe k ?dst k';
       Some (Inr (), child_added fe ?dst k' s1, pte_put ?pme e w) }"
    using m f a k'(1) s1(1) ix
    by (simp add: PageMap_mapFrame_def map_object_def TypedCap_set_def cast_IFrame_def frame_object_def MemoryRegion_getFrameInfo_def
      frame_size_def PageMap_pm_table_def PageMap_cap_table_def Let_def)
  moreover note ca = child_added_reads [OF s1(2) dst s1(3,5), where tc = k']
  moreover have "ce_cap (child_added fe ?dst k' s1 q) = (if q = ?dst then k' else ce_cap (s q))" for q
    using s1(6) [of q] ca(2) by simp
  ultimately show thesis
    using k'(2-4) by (intro that [of k' "child_added fe ?dst k' s1"]) simp_all
qed

lemma pageSize_dvd:
  assumes "1 \<le> l" "l \<le> 4" "a mod PageMap_pageSize l = 0"
  shows "4096 dvd unat a"
proof -
  have "unat a mod (4096 * 512 ^ (l - 1)) = 0"
    using assms unat_pageSize [OF assms(1,2)] by (metis unat_0 unat_mod)
  then show ?thesis
    by (metis dvd_mult_left mod_0_imp_dvd)
qed

lemma frame_pte_SomeD: "frame_pte level flags fw a pp = Some e \<Longrightarrow> unat a < 2 ^ 40"
proof -
  assume "frame_pte level flags fw a pp = Some e"
  then have "drop_bit 28 (drop_bit 12 a) = 0"
    by (auto simp: frame_pte_def pte_withAddr_def UIntField_call_def Let_def bind_eq_Some_conv)
  then show ?thesis
    by (simp add: drop_bit_zero_iff)
qed

text \<open>The checks at the end of the mapping, for a page inside the frame and for one that reaches beyond.\<close>

lemma mapped_check:
  assumes m: "map_object w this m" "index < PageMap_num_caps (pm_level m)" and f: "frame_object w k r" "cap_isUsable k"
    and k': "cap_getPtr k' = pm_mappedFrameHelper m" "cap_isReference k'" "cap_isDerived k' = cap_isDerived k"
    and e: "pte_getAddr e = a"
    and chk: "range_contains (MemoryRegion_addressRange r k) (range_bySize a (PageMap_pageSize (pm_level m))) \<or>
      cap_isReference k \<and> \<not> range_contains (range_bySize a (PageMap_pageSize (pm_level m))) (MemoryRegion_addressRange r k)"
  shows "inherit_check kw_ar (pte_put (pm_table m + 8 * index) e w) fe k (pm_caps m + 16 * index) k' = Some ()"
proof -
  let ?w = "pte_put (pm_table m + 8 * index) e w" and ?ps = "PageMap_pageSize (pm_level m)"
  have r1: "kw_ar ?w (cap_getPtr k) fe k = Some (MemoryRegion_addressRange r k)"
    by (rule kw_ar_frame [OF f(1)])
  have r2: "kw_ar ?w (cap_getPtr k') (pm_caps m + 16 * index) k' = Some (range_bySize a ?ps)"
    using kw_ar_mapped [OF m k'(1)] e by (simp add: pte_put_def)
  have "obj_ptr_ok (pm_mappedFrameHelper m)"
    using m(1) by (simp add: map_object_def Let_def)
  then have p: "cap_getPtr k \<noteq> 0" "cap_getPtr k' \<noteq> 0"
    using usable_getPtr [OF f(2)] k'(1) by (auto simp: obj_ptr_ok_def isKernelAddress_def layout_defs)
  show ?thesis
    using chk
  proof
    assume "range_contains (MemoryRegion_addressRange r k) (range_bySize a ?ps)"
    then show ?thesis
      using r1 r2 p k'(2,3) by (intro inherit_check_reference) simp_all
  next
    assume "cap_isReference k \<and> \<not> range_contains (range_bySize a ?ps) (MemoryRegion_addressRange r k)"
    then show ?thesis
      using r1 r2 p by (auto simp: inherit_check_def isParentOf_def implies_def Let_def)
  qed
qed

text \<open>The entry of the page table that maps the page at \<open>a\<close> of a frame with the capability \<open>k\<close>.\<close>

definition frame_mapped :: "page_map \<Rightarrow> u64 \<Rightarrow> cap \<Rightarrow> u8 \<Rightarrow> u64 \<Rightarrow> kworld \<Rightarrow> kworld \<Rightarrow> bool" where
  "frame_mapped m index k flags a w w' \<longleftrightarrow>
     (\<forall>x. x \<noteq> pm_table m + 8 * index \<longrightarrow> kw_pte w' x = kw_pte w x) \<and>
     (let e = kw_pte w' (pm_table m + 8 * index) in
        pte_present e \<and> pte_userMode e \<and> pte_page e = (pm_level m > 1) \<and> pte_getAddr e = a \<and>
        pte_writeable e = (mf_writable flags \<and> fd_writable (cap_data k)) \<and>
        pte_pmPtr e = pte_pmPtr (kw_pte w (pm_table m + 8 * index)))"

lemma frame_mapped_put:
  assumes "frame_pte (pm_level m) flags (fd_writable (cap_data k)) a (pte_pmPtr (kw_pte w (pm_table m + 8 * index))) = Some e"
    and "4096 dvd unat a"
  shows "frame_mapped m index k flags a w (pte_put (pm_table m + 8 * index) e w)"
proof -
  obtain e' where "frame_pte (pm_level m) flags (fd_writable (cap_data k)) a (pte_pmPtr (kw_pte w (pm_table m + 8 * index))) = Some e'"
    "pte_present e'" "pte_userMode e'" "pte_page e' = (pm_level m > 1)" "pte_writeable e' = (mf_writable flags \<and> fd_writable (cap_data k))"
    "pte_getAddr e' = a" "pte_pmPtr e' = pte_pmPtr (kw_pte w (pm_table m + 8 * index))"
    by (rule frame_pte_fields [OF frame_pte_SomeD [OF assms(1)] assms(2) pmPtr_bound]) blast
  then show ?thesis
    using assms(1) by (simp add: frame_mapped_def pte_put_def)
qed


text \<open>
  The wrap-around can be used. A user who holds a reference to a frame maps the page below the frame
  with an offset of minus one page, and gets the access rights of the frame there.
\<close>

lemma mapFrame_offset_escape:
  assumes m: "map_object w this m" "index < PageMap_num_caps (pm_level m)"
    and f: "frame_object w k r" "cap_isUsable k" "k = ce_cap (s fe)" "cap_isReference k"
    and st: "unat (PageMap_pageSize (pm_level m)) \<le> unat (FrameData_getStart (mr_base r) (cap_data k))"
      "FrameData_getStart (mr_base r) (cap_data k) mod PageMap_pageSize (pm_level m) = 0"
    and tree: "slot_tree s fe (pm_caps m + 16 * index) zs"
  shows "\<exists>s' w'. PageMap_mapFrame this index fe flags (- PageMap_pageSize (pm_level m)) (s, w) = Some (Inr (), s', w') \<and>
    frame_mapped m index k flags (FrameData_getStart (mr_base r) (cap_data k) - PageMap_pageSize (pm_level m)) w w'"
proof -
  let ?ps = "PageMap_pageSize (pm_level m)" and ?st = "FrameData_getStart (mr_base r) (cap_data k)"
  let ?a = "?st + - ?ps" and ?pme = "pm_table m + 8 * index"
  have l: "1 \<le> pm_level m" "pm_level m \<le> 4"
    using m(1) by (simp_all add: map_object_def)
  have ro: "region_ok r" "frame_inside r k" "unat (mr_base r) + unat (mr_size r) \<le> 2 ^ 40"
    using f(1) by (simp_all add: frame_object_def)
  have ust: "unat ?st = unat (mr_base r) + unat (fd_offset (cap_data k)) * 4096"
    using ro(2) by (intro unat_getStart [OF ro(1)]) (simp add: frame_inside_def)
  have sz: "frame_size r k = FrameData_getSize (cap_data k)" "0 < unat (frame_size r k)" "unat ?st + unat (frame_size r k) \<le> 2 ^ 40"
    using f(4) ust ro(2,3) by (auto simp: frame_size_def cap_isOriginal_def unat_getSize frame_inside_def)
  have ua: "unat ?a = unat ?st - unat ?ps"
    using unat_sub_small [of ?ps ?st] st(1) by (simp add: word_le_nat_alt)
  have am: "?a mod ?ps = 0"
  proof -
    have "unat ?st mod unat ?ps = 0"
      using st(2) by (metis unat_0 unat_mod)
    then have "unat ?a mod unat ?ps = 0"
      using st(1) ua by (simp add: mod_eq_0_iff_dvd dvd_diff_nat)
    then show ?thesis
      by (simp only: word_unat_eq_iff unat_mod) simp
  qed
  have a: "unat ?a < 2 ^ 40" "4096 dvd unat ?a"
    using ua sz st(1) pageSize_dvd [OF l am] by auto
  have out: "\<not> range_contains (range_bySize ?a ?ps) (MemoryRegion_addressRange r k)"
  proof -
    have "unat (?st + frame_size r k) = unat ?st + unat (frame_size r k)"
      using sz by (intro unat_add_small) simp
    then have "\<not> ?st + frame_size r k \<le> ?st"
      using sz(2) by (simp add: word_le_nat_alt del: unat_gt_0)
    moreover have "rg_end (MemoryRegion_addressRange r k) = ?st + frame_size r k" "rg_end (range_bySize ?a ?ps) = ?st"
      by (simp_all add: MemoryRegion_addressRange_def range_bySize_def frame_size_def Let_def)
    ultimately show ?thesis
      by (simp add: range_contains_def)
  qed
  obtain e where e: "frame_pte (pm_level m) flags (fd_writable (cap_data k)) ?a (pte_pmPtr (kw_pte w ?pme)) = Some e" "pte_getAddr e = ?a"
    by (rule frame_pte_fields [OF a pmPtr_bound]) blast
  obtain s' k' where k': "cap_getPtr k' = pm_mappedFrameHelper m" "cap_isReference k'" "cap_isDerived k' = cap_isDerived k"
    and call: "PageMap_mapFrame this index fe flags (- ?ps) (s, w) = do {
       e \<leftarrow> frame_pte (pm_level m) flags (fd_writable (cap_data k)) ?a (pte_pmPtr (kw_pte w ?pme));
       inherit_check kw_ar (pte_put ?pme e w) fe k (pm_caps m + 16 * index) k';
       Some (Inr (), s', pte_put ?pme e w) }"
    by (rule mapFrame_eq [OF m f(1-3) refl am _ tree, of flags]) auto
  have "inherit_check kw_ar (pte_put ?pme e w) fe k (pm_caps m + 16 * index) k' = Some ()"
    using f(4) out by (intro mapped_check [OF m f(1,2) k' e(2)]) simp
  then show ?thesis
    using call e(1) frame_mapped_put [OF e(1) a(2)] by simp
qed

definition ex_map :: page_map where
  "ex_map = \<lparr>pm_level = 1, pm_mem = 0,
     pm_memDesc = [\<lparr>md_ptr = 0xffff800000020000, md_size = 0x1000, md_alignment = 0\<rparr>,
       \<lparr>md_ptr = 0xffff800000030000, md_size = 0x2000, md_alignment = 0\<rparr>, \<lparr>md_ptr = 0xffff800000010000, md_size = 0x100, md_alignment = 0\<rparr>],
     pm_mappedFrameHelper = 0xffff800000010040, pm_mappedPageMapHelper = 0xffff800000010060\<rparr>"

definition ex_world :: kworld where
  "ex_world = \<lparr>kw_mem = Map.empty, kw_regions = [ex_child \<mapsto> ex_region], kw_devices = Map.empty, kw_maps = [0xffff800000010000 \<mapsto> ex_map],
     kw_frameHelpers = [0xffff800000010040 \<mapsto> 0xffff800000010000], kw_mapHelpers = [0xffff800000010060 \<mapsto> 0xffff800000010000],
     kw_capRefs = Map.empty, kw_deviceMemory = (\<lambda>_. False), kw_pte = (\<lambda>_. 0)\<rparr>"

lemma ex_world_ok:
  "map_object ex_world 0xffff800000010000 ex_map" "frame_object ex_world ex_cap ex_region" "pm_caps ex_map = 0xffff800000030000"
  "cap_isEmpty (ce_cap (ex_store 0xffff800000030000))" "obj_ptr_ok 0xffff800000030000"
proof -
  show "map_object ex_world 0xffff800000010000 ex_map" "pm_caps ex_map = 0xffff800000030000" "obj_ptr_ok 0xffff800000030000"
    by (simp_all add: map_object_def ex_world_def ex_map_def ex_child_def pm_caps_def obj_ptr_ok_def isKernelAddress_def layout_defs)
  show "frame_object ex_world ex_cap ex_region"
    using ex_frame_ok by (simp add: frame_object_def ex_world_def ex_cap_ptr) (simp add: ex_region_def)
  show "cap_isEmpty (ce_cap (ex_store 0xffff800000030000))"
    by (simp add: ex_store_def ex_root_def ex_child_def empty_entry_def cap_isEmpty_def cap_null_def)
qed

lemma ex_slot_tree: "slot_tree ex_store ex_root 0xffff800000030000 []"
  using ex_world_ok(4,5) ex_ring by (simp add: slot_tree_def) (simp add: ex_root_def)


section \<open>Unmapping and protecting small pages\<close>

text \<open>
  The walks of \<^verbatim>\<open>munmap\<close> and \<^verbatim>\<open>mprotect\<close> skip what is not mapped. They recognise a mapped page by the
  page bit of its entry, but in the lowest table that bit is never set by \<^verbatim>\<open>mapFrame\<close>. So 4 KiB pages
  are skipped: the call reports success and changes nothing.
\<close>

lemma small_pages_skipped:
  assumes "po_skip_nonmapped op" "\<And>i. i < n \<Longrightarrow> \<not> pte_page (kw_pte (snd st) (table + 8 * (index + word_of_nat i)))"
  shows "\<exists>op'. visitPages_loop 1 n table tableStart index op st = Some (Inr (), op', st)"
  using assms
proof (induction n arbitrary: index op)
  case (Suc n)
  have "\<not> pte_page (kw_pte (snd st) (table + 8 * index))"
    using Suc.prems(2) [of 0] by simp
  moreover have "\<not> pte_page (kw_pte (snd st) (table + 8 * (index + 1 + word_of_nat i)))" if "i < n" for i
    using Suc.prems(2) [of "Suc i"] that by (simp add: algebra_simps)
  ultimately show ?case
    using Suc.IH [of _ "index + 1"] Suc.prems(1) by (simp add: Let_def PageOp_moveForward_def)
qed simp

section \<open>A table leads back to its page map\<close>

lemma mask_10: "(0x3FF :: 'a::len word) = mask 10"
  by (simp add: mask_eq_exp_minus_1)

lemma pmPtr_pieces:
  assumes "(p :: u32) AND 7 = 0"
  shows "ucast (push_bit 3 (ucast (drop_bit 3 p AND 0x3FF) :: u64) OR push_bit 13 (ucast (drop_bit 13 p AND 0x3FF))
     OR push_bit 23 (ucast (drop_bit 23 p AND 0x3FF))) = p"
proof (rule bit_word_eqI)
  fix n assume n: "n < LENGTH(32)"
  have low: "\<not> bit p n" if "n < 3"
    using assms that by (simp add: and_7_eq_0)
  have top: "n - 23 < 10"
    using n by simp
  consider "n < 3" | "3 \<le> n" "n < 13" | "13 \<le> n" "n < 23" | "23 \<le> n"
    by linarith
  then show "bit (ucast (push_bit 3 (ucast (drop_bit 3 p AND 0x3FF) :: u64) OR push_bit 13 (ucast (drop_bit 13 p AND 0x3FF))
     OR push_bit 23 (ucast (drop_bit 23 p AND 0x3FF))) :: u32) n = bit p n"
    by cases (use n low top in \<open>auto simp: mask_10 bit_simps\<close>)
qed

lemma pmPtr_piece_bound: "unat (ucast ((x :: u32) AND 0x3FF) :: u64) < 2 ^ 10"
proof -
  have "unat (x AND mask 10) < 2 ^ 10"
    using take_bit_nat_less_exp [of 10 "unat x"] by (simp only: take_bit_eq_mask [symmetric] unsigned_take_bit_eq)
  then show ?thesis
    by (simp add: mask_10)
qed

lemma slot_inj: "i < TABLE_SIZE \<Longrightarrow> j < TABLE_SIZE \<Longrightarrow> (t :: u64) + 8 * i = t + 8 * j \<longleftrightarrow> i = j"
proof -
  assume "i < TABLE_SIZE" "j < TABLE_SIZE"
  then have "unat (8 * i) = 8 * unat i" "unat (8 * j) = 8 * unat j"
    by (subst unat_mult_lem [THEN iffD1]; simp add: TABLE_SIZE_def word_less_nat_alt)+
  then show ?thesis
    by (metis add_left_cancel word_unat_eq_iff mult_left_cancel zero_neq_numeral)
qed

lemma slot_exists: "i < TABLE_SIZE \<Longrightarrow> \<exists>n<512. (t :: u64) + 8 * i = t + 8 * word_of_nat n"
  by (rule exI [of _ "unat i"]) (simp add: TABLE_SIZE_def word_less_nat_alt)

lemma memset_table_reads: "i < TABLE_SIZE \<Longrightarrow> kw_pte (memset_table t w) (t + 8 * i) = 0"
  using slot_exists [of i t] by (simp add: memset_table_def)

lemma copy_kernel_half_reads:
  assumes "i < TABLE_SIZE"
  shows "kw_pte (copy_kernel_half pml4 t w) (t + 8 * i) = (if 256 \<le> i then pml4 i else kw_pte w (t + 8 * i))"
proof -
  have u: "unat (8 * i) = 8 * unat i"
    using assms by (subst unat_mult_lem [THEN iffD1]; simp add: TABLE_SIZE_def word_less_nat_alt)
  then have q: "(t + 8 * i - t) div 8 = i"
    by (simp add: word_unat_eq_iff unat_div)
  have iff: "(\<exists>n<256. t + 8 * i = t + 8 * (256 + word_of_nat n)) \<longleftrightarrow> 256 \<le> i"
  proof
    assume "\<exists>n<256. t + 8 * i = t + 8 * (256 + word_of_nat n)"
    then obtain n where n: "n < 256" "t + 8 * i = t + 8 * (256 + word_of_nat n)"
      by blast
    have un: "unat (256 + word_of_nat n :: u64) = 256 + n"
      using n(1) by (subst unat_add_small) (simp_all add: unat_of_nat)
    then have "256 + word_of_nat n < TABLE_SIZE"
      using n(1) by (simp add: TABLE_SIZE_def word_less_nat_alt)
    then have "i = 256 + word_of_nat n"
      using n(2) slot_inj [OF assms] by blast
    then show "256 \<le> i"
      using un by (simp add: word_le_nat_alt)
  next
    assume "256 \<le> i"
    then have "i = 256 + word_of_nat (unat i - 256)" "unat i - 256 < 256"
      using assms by (simp_all add: TABLE_SIZE_def word_less_nat_alt word_le_nat_alt of_nat_diff)
    then show "\<exists>n<256. t + 8 * i = t + 8 * (256 + word_of_nat n)"
      by metis
  qed
  show ?thesis
    using q iff by (simp add: copy_kernel_half_def)
qed

lemma put_pmPtr_step:
  assumes "unat v < 2 ^ 10"
  obtains e where "pte_put_pmPtr a v w = Some (pte_put a e w)" "pte_pmPtr e = v" "pte_present e = pte_present (kw_pte w a)"
  using that [of "UIntField_put 52 10 (kw_pte w a) v"] assms
  by (simp add: pte_put_pmPtr_def UIntField_call_def drop_bit_zero_iff pte_pmPtr_def pte_present_def field_laws)

text \<open>The words of a new table before and after its page map is entered.\<close>

lemma pmPtr_entered:
  assumes "obj_ptr_ok this" "\<And>i. i < 3 \<Longrightarrow> kw_pte w (t + 8 * i) = 0"
  obtains w' where "Option.bind (kernel2offset this) (\<lambda>p.
      Option.bind (pte_put_pmPtr t (ucast (drop_bit 3 p AND 0x3FF)) w) (\<lambda>w.
      Option.bind (pte_put_pmPtr (t + 8) (ucast (drop_bit 13 p AND 0x3FF)) w) (\<lambda>w.
      pte_put_pmPtr (t + 16) (ucast (drop_bit 23 p AND 0x3FF)) w))) = Some (w\<lparr>kw_pte := w'\<rparr>)"
    "table2PageMap t (w\<lparr>kw_pte := w'\<rparr>) = Some this" "\<And>i. i < 3 \<Longrightarrow> \<not> pte_present (w' (t + 8 * i))"
    "\<And>a. a \<noteq> t \<Longrightarrow> a \<noteq> t + 8 \<Longrightarrow> a \<noteq> t + 16 \<Longrightarrow> w' a = kw_pte w a"
proof -
  have k: "isKernelAddress this" "kernel2offset this = Some (ucast (this - KERNELMEM_ADDR))"
    using assms(1) by (simp_all add: obj_ptr_ok_def kernel2offset_def)
  let ?p = "ucast (this - KERNELMEM_ADDR) :: u32"
  obtain e0 where e0: "pte_put_pmPtr t (ucast (drop_bit 3 ?p AND 0x3FF)) w = Some (pte_put t e0 w)"
    "pte_pmPtr e0 = ucast (drop_bit 3 ?p AND 0x3FF)" "pte_present e0 = pte_present (kw_pte w t)"
    by (rule put_pmPtr_step [OF pmPtr_piece_bound])
  let ?w0 = "pte_put t e0 w"
  obtain e1 where e1: "pte_put_pmPtr (t + 8) (ucast (drop_bit 13 ?p AND 0x3FF)) ?w0 = Some (pte_put (t + 8) e1 ?w0)"
    "pte_pmPtr e1 = ucast (drop_bit 13 ?p AND 0x3FF)" "pte_present e1 = pte_present (kw_pte ?w0 (t + 8))"
    by (rule put_pmPtr_step [OF pmPtr_piece_bound])
  let ?w1 = "pte_put (t + 8) e1 ?w0"
  obtain e2 where e2: "pte_put_pmPtr (t + 16) (ucast (drop_bit 23 ?p AND 0x3FF)) ?w1 = Some (pte_put (t + 16) e2 ?w1)"
    "pte_pmPtr e2 = ucast (drop_bit 23 ?p AND 0x3FF)" "pte_present e2 = pte_present (kw_pte ?w1 (t + 16))"
    by (rule put_pmPtr_step [OF pmPtr_piece_bound])
  let ?m = "(kw_pte w)(t := e0, t + 8 := e1, t + 16 := e2)"
  have w: "pte_put (t + 16) e2 ?w1 = w\<lparr>kw_pte := ?m\<rparr>"
    by (simp add: pte_put_def)
  have "?p AND 7 = 0"
    using assms(1) by (simp add: obj_ptr_ok_def ucast_and_7)
  then have "table2PageMap t (w\<lparr>kw_pte := ?m\<rparr>) = offset2kernel ?p"
    using e0(2) e1(2) e2(2) by (simp add: table2PageMap_def pmPtr_pieces)
  then have tab: "table2PageMap t (w\<lparr>kw_pte := ?m\<rparr>) = Some this"
    using kernel2offset_inverse [OF k(1)] k(2) by simp
  have z: "\<not> pte_present 0"
    by (simp add: pte_present_def BoolField_get_def)
  have np: "\<not> pte_present (?m (t + 8 * i))" if "i < 3" for i
  proof -
    have "unat i < 3"
      using that by (simp add: word_less_nat_alt)
    then consider "i = 0" | "i = 1" | "i = 2"
      using word_unat_eq_iff [of i 0] word_unat_eq_iff [of i 1] word_unat_eq_iff [of i 2] by fastforce
    then show ?thesis
      using assms(2) [of 0] assms(2) [of 1] assms(2) [of 2] e0(3) e1(3) e2(3) z by cases (simp_all add: pte_put_def)
  qed
  show thesis
  proof (rule that [OF _ tab np])
    show "Option.bind (kernel2offset this) (\<lambda>p.
      Option.bind (pte_put_pmPtr t (ucast (drop_bit 3 p AND 0x3FF)) w) (\<lambda>w.
      Option.bind (pte_put_pmPtr (t + 8) (ucast (drop_bit 13 p AND 0x3FF)) w) (\<lambda>w.
      pte_put_pmPtr (t + 16) (ucast (drop_bit 23 p AND 0x3FF)) w))) = Some (w\<lparr>kw_pte := ?m\<rparr>)"
      using k(2) e0(1) e1(1) e2(1) w by (simp only: bind.bind_lunit)
  qed simp_all
qed

text \<open>
  C27. A new page map is empty and can be found from its table. For an aligned table and a pointer to
  the object that the kernel can store in a capability, the constructor returns. The three page table
  entries that hold the pieces of the pointer lead back to the object, no entry below the user limit
  is present, every capability entry of the map is empty, and the kernel half of a root table is the
  one of the boot page table.
\<close>

theorem PageMap_new_correct:
  assumes ob: "obj_ptr_ok this" and t: "4096 dvd unat t"
  shows "\<exists>s' w' m. PageMap_new pml4 size_of fh mh this mem level t caps (s, w) = Some (s', w') \<and>
    kw_maps w' this = Some m \<and> pm_table m = t \<and> pm_caps m = caps \<and> pm_level m = level \<and> table2PageMap t w' = Some this \<and>
    (\<forall>i. i < PageMap_num_caps level \<longrightarrow> \<not> pte_present (kw_pte w' (t + 8 * i)) \<and> s' (caps + 16 * i) = empty_entry) \<and>
    (\<forall>i. level = 4 \<and> 256 \<le> i \<and> i < TABLE_SIZE \<longrightarrow> kw_pte w' (t + 8 * i) = pml4 i)"
proof -
  let ?w1 = "if level = 4 then copy_kernel_half pml4 t (memset_table t w) else memset_table t w"
  have rd: "kw_pte ?w1 (t + 8 * i) = (if level = 4 \<and> 256 \<le> i then pml4 i else 0)" if "i < TABLE_SIZE" for i
    using that by (simp add: memset_table_reads copy_kernel_half_reads)
  have "kw_pte ?w1 (t + 8 * i) = 0" if "i < 3" for i
    using rd [of i] that by (auto simp: TABLE_SIZE_def word_less_nat_alt word_le_nat_alt)
  then obtain pt where pt: "Option.bind (kernel2offset this) (\<lambda>p.
      Option.bind (pte_put_pmPtr t (ucast (drop_bit 3 p AND 0x3FF)) ?w1) (\<lambda>w.
      Option.bind (pte_put_pmPtr (t + 8) (ucast (drop_bit 13 p AND 0x3FF)) w) (\<lambda>w.
      pte_put_pmPtr (t + 16) (ucast (drop_bit 23 p AND 0x3FF)) w))) = Some (?w1\<lparr>kw_pte := pt\<rparr>)"
    "table2PageMap t (?w1\<lparr>kw_pte := pt\<rparr>) = Some this" "\<And>i. i < 3 \<Longrightarrow> \<not> pte_present (pt (t + 8 * i))"
    "\<And>a. a \<noteq> t \<Longrightarrow> a \<noteq> t + 8 \<Longrightarrow> a \<noteq> t + 16 \<Longrightarrow> pt a = kw_pte ?w1 a"
    using pmPtr_entered [OF ob, of ?w1 t] by blast
  have far: "pt (t + 8 * i) = kw_pte ?w1 (t + 8 * i)" if "i < TABLE_SIZE" "3 \<le> i" for i
  proof (rule pt(4))
    have "i \<noteq> 0" "i \<noteq> 1" "i \<noteq> 2"
      using that(2) by (auto simp: word_le_nat_alt)
    then show "t + 8 * i \<noteq> t" "t + 8 * i \<noteq> t + 8" "t + 8 * i \<noteq> t + 16"
      using slot_inj [OF that(1), of 0 t] slot_inj [OF that(1), of 1 t] slot_inj [OF that(1), of 2 t] by (simp_all add: TABLE_SIZE_def)
  qed
  have z: "\<not> pte_present 0"
    by (simp add: pte_present_def BoolField_get_def)
  have np: "\<not> pte_present (pt (t + 8 * i))" if "i < PageMap_num_caps level" for i
  proof (cases "i < 3")
    case False
    have "\<not> (level = 4 \<and> 256 \<le> i)"
      using that by (auto simp: PageMap_num_caps_def TABLE_SIZE_def word_less_nat_alt word_le_nat_alt)
    then show ?thesis
      using False far [OF num_caps_bound(1) [OF that]] rd [OF num_caps_bound(1) [OF that]] z by (auto simp: not_less)
  qed (rule pt(3))
  have caps: "memset_caps caps (unat (PageMap_num_caps level)) s (caps + 16 * i) = empty_entry" if "i < PageMap_num_caps level" for i
    using that exI [of "\<lambda>n. n < unat (PageMap_num_caps level) \<and> caps + 16 * i = caps + 16 * word_of_nat n" "unat i"]
    by (simp add: memset_caps_def word_less_nat_alt)
  have up: "pt (t + 8 * i) = pml4 i" if "level = 4" "256 \<le> i" "i < TABLE_SIZE" for i
    using far [OF that(3)] rd [OF that(3)] that(1,2) by (simp add: word_le_nat_alt)
  have al: "is_aligned t PAGE_MIN_SIZE = Some True"
    using t by (simp add: is_aligned_iff frame_consts)
  define m where "m = \<lparr>pm_level = level, pm_mem = mem,
    pm_memDesc = [\<lparr>md_ptr = t, md_size = PAGE_MIN_SIZE, md_alignment = 0\<rparr>,
      \<lparr>md_ptr = caps, md_size = 16 * PageMap_num_caps level, md_alignment = 0\<rparr>, \<lparr>md_ptr = this, md_size = size_of, md_alignment = 0\<rparr>],
    pm_mappedFrameHelper = fh, pm_mappedPageMapHelper = mh\<rparr>"
  let ?w' = "let w = ?w1\<lparr>kw_pte := pt\<rparr> in w\<lparr>kw_maps := (kw_maps w)(this \<mapsto> m), kw_frameHelpers := (kw_frameHelpers w)(fh \<mapsto> this),
    kw_mapHelpers := (kw_mapHelpers w)(mh \<mapsto> this)\<rparr>"
  have "PageMap_new pml4 size_of fh mh this mem level t caps (s, w) = Some (memset_caps caps (unat (PageMap_num_caps level)) s, ?w')"
    using pt(1) al by (auto simp: PageMap_new_def bind_eq_Some_conv m_def [symmetric] Let_def)
  moreover have "table2PageMap t ?w' = Some this" "kw_pte ?w' = pt" "kw_maps ?w' this = Some m"
    using pt(2) by (simp_all add: table2PageMap_def Let_def)
  ultimately show ?thesis
    using np caps up by (intro exI [of _ "memset_caps caps (unat (PageMap_num_caps level)) s"] exI [of _ ?w'] exI [of _ m])
      (simp add: m_def pm_table_def pm_caps_def)
qed

theorem PageMap_new_correct_witness:
  "obj_ptr_ok ex_child \<and> (\<exists>s' w'. PageMap_new (\<lambda>_. 0) 0x100 0xffff800000010040 0xffff800000010060 ex_child 0 1 0xffff800000020000 0xffff800000030000
     (ex_store, ex_world) = Some (s', w') \<and> table2PageMap 0xffff800000020000 w' = Some ex_child)"
  using PageMap_new_correct [of ex_child "0xffff800000020000" "\<lambda>_. 0" "0x100" "0xffff800000010040" "0xffff800000010060" 0 1 "0xffff800000030000" ex_store ex_world]
  by auto

end
