(* ===== verification/Page_Safety.thy ===== *)
theory Page_Safety
  imports Page_Map
begin

text \<open>
  The kernel half of the address spaces. The upper 256 entries of a root page table belong to the
  kernel. The invocations of a page map walk through tables that users connected with each other; the
  invariant says that what they connected is a hierarchy of levels, so that a walk never arrives at a
  root table from above and never leaves the user half of the table it started in.
\<close>

section \<open>The invariant\<close>

text \<open>An entry that refers to a lower table.\<close>

definition pte_table :: "u64 \<Rightarrow> bool" where
  "pte_table e \<longleftrightarrow> pte_present e \<and> \<not> pte_page e"

text \<open>The table a page map of level \<open>l\<close> may refer to is the one of a page map of the next level.\<close>

definition lower_table :: "kworld \<Rightarrow> nat \<Rightarrow> u64 \<Rightarrow> bool" where
  "lower_table w l e \<longleftrightarrow> (\<exists>q t. kw_maps w q = Some t \<and> pm_level t + 1 = l \<and> phys2kernel (pte_getAddr e) = pm_table t)"

definition tables_ok :: "kworld \<Rightarrow> bool" where
  "tables_ok w \<longleftrightarrow>
     (\<forall>p m. kw_maps w p = Some m \<longrightarrow> 1 \<le> pm_level m \<and> pm_level m \<le> 4 \<and> table2PageMap (pm_table m) w = Some p \<and>
        4096 dvd unat (pm_table m) \<and> isKernelAddress (pm_table m)) \<and>
     (\<forall>p m q t i j. kw_maps w p = Some m \<and> kw_maps w q = Some t \<and> i < TABLE_SIZE \<and> j < TABLE_SIZE \<and>
        pm_table m + 8 * i = pm_table t + 8 * j \<longrightarrow> p = q) \<and>
     (\<forall>p m i. kw_maps w p = Some m \<and> 1 < pm_level m \<and> i < PageMap_num_caps (pm_level m) \<and>
        pte_table (kw_pte w (pm_table m + 8 * i)) \<longrightarrow> lower_table w (pm_level m) (kw_pte w (pm_table m + 8 * i)))"

definition kernel_half_kept :: "kworld \<Rightarrow> kworld \<Rightarrow> bool" where
  "kernel_half_kept w w' \<longleftrightarrow> kw_maps w' = kw_maps w \<and>
     (\<forall>p m i. kw_maps w p = Some m \<and> pm_level m = 4 \<and> 256 \<le> i \<and> i < TABLE_SIZE \<longrightarrow>
        kw_pte w' (pm_table m + 8 * i) = kw_pte w (pm_table m + 8 * i))"

lemma kernel_half_refl [simp]: "kernel_half_kept w w"
  by (simp add: kernel_half_kept_def)

lemma kernel_half_trans: "kernel_half_kept w w1 \<Longrightarrow> kernel_half_kept w1 w2 \<Longrightarrow> kernel_half_kept w w2"
  unfolding kernel_half_kept_def by (metis (no_types, lifting))

text \<open>One entry of a map was replaced: its part of the pointer stays, and it refers to a lower table or to none.\<close>

definition entry_replaced :: "page_map \<Rightarrow> u64 \<Rightarrow> kworld \<Rightarrow> kworld \<Rightarrow> bool" where
  "entry_replaced m index w w' \<longleftrightarrow> (\<exists>e. w' = pte_put (pm_table m + 8 * index) e w \<and>
     pte_pmPtr e = pte_pmPtr (kw_pte w (pm_table m + 8 * index)) \<and>
     (1 < pm_level m \<and> pte_table e \<longrightarrow> e = kw_pte w (pm_table m + 8 * index) \<or> lower_table w (pm_level m) e))"

lemma entry_replaced_refl: "entry_replaced m index w w"
  unfolding entry_replaced_def by (rule exI [of _ "kw_pte w (pm_table m + 8 * index)"]) (simp add: pte_put_def)

lemma lower_table_put [simp]: "lower_table (pte_put a e w) = lower_table w"
  by (simp add: fun_eq_iff lower_table_def pte_put_def)

lemma entry_replaced_trans: "entry_replaced m i w w1 \<Longrightarrow> entry_replaced m i w1 w2 \<Longrightarrow> entry_replaced m i w w2"
proof -
  assume "entry_replaced m i w w1" "entry_replaced m i w1 w2"
  then obtain e1 e2 where "w1 = pte_put (pm_table m + 8 * i) e1 w" "pte_pmPtr e1 = pte_pmPtr (kw_pte w (pm_table m + 8 * i))"
    "1 < pm_level m \<and> pte_table e1 \<longrightarrow> e1 = kw_pte w (pm_table m + 8 * i) \<or> lower_table w (pm_level m) e1"
    "w2 = pte_put (pm_table m + 8 * i) e2 w1" "pte_pmPtr e2 = pte_pmPtr (kw_pte w1 (pm_table m + 8 * i))"
    "1 < pm_level m \<and> pte_table e2 \<longrightarrow> e2 = kw_pte w1 (pm_table m + 8 * i) \<or> lower_table w1 (pm_level m) e2"
    unfolding entry_replaced_def by blast
  then show ?thesis
    unfolding entry_replaced_def by (intro exI [of _ e2]) (auto simp: pte_put_def lower_table_def)
qed

lemma tables_okD:
  assumes "tables_ok w" "kw_maps w p = Some m"
  shows "1 \<le> pm_level m" "pm_level m \<le> 4" "table2PageMap (pm_table m) w = Some p" "4096 dvd unat (pm_table m)" "isKernelAddress (pm_table m)"
  using assms unfolding tables_ok_def by blast+

lemma tables_ok_distinct:
  "tables_ok w \<Longrightarrow> kw_maps w p = Some m \<Longrightarrow> kw_maps w q = Some t \<Longrightarrow> i < TABLE_SIZE \<Longrightarrow> j < TABLE_SIZE \<Longrightarrow>
   pm_table m + 8 * i = pm_table t + 8 * j \<Longrightarrow> p = q"
  unfolding tables_ok_def by blast

lemma tables_ok_lower:
  "tables_ok w \<Longrightarrow> kw_maps w p = Some m \<Longrightarrow> 1 < pm_level m \<Longrightarrow> i < PageMap_num_caps (pm_level m) \<Longrightarrow>
   pte_table (kw_pte w (pm_table m + 8 * i)) \<Longrightarrow> lower_table w (pm_level m) (kw_pte w (pm_table m + 8 * i))"
  unfolding tables_ok_def by blast

lemma entry_replaced_safe:
  assumes ok: "tables_ok w" and m: "kw_maps w p = Some m" "index < PageMap_num_caps (pm_level m)" and r: "entry_replaced m index w w'"
  shows "tables_ok w'" "kernel_half_kept w w'"
proof -
  let ?a = "pm_table m + 8 * index"
  obtain e where w': "w' = pte_put ?a e w" and pp: "pte_pmPtr e = pte_pmPtr (kw_pte w ?a)"
    and lo: "1 < pm_level m \<and> pte_table e \<longrightarrow> e = kw_pte w ?a \<or> lower_table w (pm_level m) e"
    using r unfolding entry_replaced_def by blast
  note ix = num_caps_bound(1) [OF m(2)]
  have maps: "kw_maps w' = kw_maps w" and rd: "kw_pte w' x = (if x = ?a then e else kw_pte w x)" for x
    by (simp_all add: w' pte_put_def)
  have "pte_pmPtr (kw_pte w' x) = pte_pmPtr (kw_pte w x)" for x
    using rd pp by simp
  then have t2p: "table2PageMap t w' = table2PageMap t w" for t
    by (simp add: table2PageMap_def)
  have same: "q = p \<and> i = index" if "kw_maps w q = Some t" "i < TABLE_SIZE" "pm_table t + 8 * i = ?a" for q t i
    using tables_ok_distinct [OF ok that(1) m(1) that(2) ix that(3)] that m(1) slot_inj [OF that(2) ix] by auto
  have low: "lower_table w' (pm_level t) (kw_pte w' (pm_table t + 8 * i))"
    if "kw_maps w q = Some t" "1 < pm_level t" "i < PageMap_num_caps (pm_level t)" "pte_table (kw_pte w' (pm_table t + 8 * i))" for q t i
  proof (cases "pm_table t + 8 * i = ?a")
    case True
    then have "t = m" "i = index"
      using same [OF that(1) num_caps_bound(1) [OF that(3)]] that(1) m(1) by auto
    then show ?thesis
      using that lo rd tables_ok_lower [OF ok m(1) _ m(2)] by (auto simp: w')
  next
    case False
    then show ?thesis
      using that rd tables_ok_lower [OF ok that(1-3)] by (simp add: w')
  qed
  show "tables_ok w'"
    using ok low unfolding tables_ok_def maps t2p by blast
  have "kw_pte w' (pm_table t + 8 * i) = kw_pte w (pm_table t + 8 * i)"
    if "kw_maps w q = Some t" "pm_level t = 4" "256 \<le> i" "i < TABLE_SIZE" for q t i
  proof (rule ccontr)
    assume "kw_pte w' (pm_table t + 8 * i) \<noteq> kw_pte w (pm_table t + 8 * i)"
    then have "pm_table t + 8 * i = ?a"
      using rd by (metis (full_types))
    then have "q = p" "i = index"
      using same [OF that(1,4)] by auto
    then show False
      using that m by (simp add: PageMap_num_caps_def TABLE_SIZE_def word_le_nat_alt word_less_nat_alt)
  qed
  then show "kernel_half_kept w w'"
    using maps unfolding kernel_half_kept_def by blast
qed

section \<open>What the operations on one entry change\<close>

lemma resetReference_world:
  "resetReference d commit s c = Some (b, s', c') \<Longrightarrow> c' = c \<or> (\<exists>s1. commit s1 c = Some c')"
  by (auto simp: resetReference_def bind_eq_Some_conv split: prod.splits if_splits)

lemma setReference_world:
  "setReference ar d dc p pc commit s c = Some (r, s', c') \<Longrightarrow> c' = c \<or> commit c = Some c'"
  by (auto simp: setReference_def inherit_def CapEntry_insertAfter_def Let_def bind_eq_Some_conv split: prod.splits sum.splits if_splits)

lemma BoolField_get_0 [simp]: "\<not> BoolField_get n 0"
  by (simp add: BoolField_get_def)

lemma reset_replaced:
  "PageTableEntry_reset (pm_table m + 8 * index) w = Some w' \<Longrightarrow> entry_replaced m index w w'"
  unfolding entry_replaced_def
  by (auto simp: PageTableEntry_reset_def UIntField_call_def bind_eq_Some_conv pte_table_def pte_defs field_laws
    intro!: exI [of _ "UIntField_put 52 10 0 (pte_pmPtr (kw_pte w (pm_table m + 8 * index)))"])

lemma frame_pte_entry:
  "frame_pte l flags fw a pp = Some e \<Longrightarrow> pte_pmPtr e = pp \<and> pte_page e = (1 < l)"
  by (auto simp: frame_pte_def pte_withAddr_def UIntField_call_def Let_def bind_eq_Some_conv pte_defs field_laws)

lemma table_pte_entry:
  "table_pte req conf a pp = Some e \<Longrightarrow> 4096 dvd unat a \<Longrightarrow> unat a < 2 ^ 40 \<Longrightarrow> pte_pmPtr e = pp \<and> pte_getAddr e = a"
  using push_drop_aligned [of 12 a] drop_12_small [of a]
  by (auto simp: table_pte_def pte_withAddr_def UIntField_call_def Let_def bind_eq_Some_conv pte_defs pte_getAddr_def field_laws drop_bit_zero_iff)

lemma unmapEntry_replaced:
  "PageMap_unmapEntry this index (s, w) = Some (res, s', w') \<Longrightarrow> kw_maps w this = Some m \<Longrightarrow>
   index < PageMap_num_caps (pm_level m) \<and> entry_replaced m index w w'"
  by (auto simp: PageMap_unmapEntry_def PageMap_pm_table_def PageMap_cap_table_def bind_eq_Some_conv
    dest!: resetReference_world intro: entry_replaced_refl reset_replaced)

lemma mapFrame_replaced:
  assumes "PageMap_mapFrame this index fe flags off (s, w) = Some (res, s', w')" "kw_maps w this = Some m"
  shows "w' = w \<or> index < PageMap_num_caps (pm_level m) \<and> entry_replaced m index w w'"
proof (cases "w' = w")
  case False
  let ?a = "pm_table m + 8 * index"
  from assms False obtain fw fa entry k' d u s1 w1 s2 where ix: "index < PageMap_num_caps (pm_level m)"
    and e: "frame_pte (pm_level m) flags fw fa (pte_pmPtr (kw_pte w ?a)) = Some entry"
    and r: "resetReference d (\<lambda>s. PageTableEntry_reset ?a) s w = Some (u, s1, w1)"
    and st: "setReference kw_ar d k' fe (ce_cap (s fe)) (\<lambda>w. Some (PageTableEntry_set ?a entry w)) s1 w1 = Some (res, s2, w')"
    by (auto simp: PageMap_mapFrame_def PageMap_pm_table_def Let_def bind_eq_Some_conv split: sum.splits if_splits)
  have "entry_replaced m index w w1"
    using resetReference_world [OF r] reset_replaced entry_replaced_refl by blast
  moreover have "pte_pmPtr (kw_pte w1 ?a) = pte_pmPtr (kw_pte w ?a)"
    using calculation by (auto simp: entry_replaced_def pte_put_def)
  then have "entry_replaced m index w1 (PageTableEntry_set ?a entry w1)"
    using frame_pte_entry [OF e] unfolding entry_replaced_def PageTableEntry_set_def by (auto simp: pte_table_def)
  then have "entry_replaced m index w1 w'"
    using setReference_world [OF st] entry_replaced_refl by auto
  ultimately show ?thesis
    using ix entry_replaced_trans by blast
qed simp

lemma physPtr_table:
  assumes "tables_ok w" "kw_maps w q = Some t" "physPtr_fromKernel (pm_table t) = Some tp"
  shows "4096 dvd unat tp" "unat tp < 2 ^ 40" "phys2kernel tp = pm_table t"
proof -
  have t: "tp = pm_table t - KERNELMEM_ADDR" "KERNELMEM_ADDR \<le> pm_table t" "pm_table t < KERNELMEM_ADDR + KERNELMEM_SIZE" "4096 dvd unat (pm_table t)"
    using assms tables_okD [OF assms(1,2)] by (auto simp: physPtr_fromKernel_def isKernelAddress_def ASSERT_bind_eq_Some)
  then have u: "unat tp = unat (pm_table t) - unat KERNELMEM_ADDR"
    by (simp add: unat_sub_small word_le_nat_alt)
  then show "4096 dvd unat tp" "unat tp < 2 ^ 40"
    using t by (auto simp: layout_defs word_less_nat_alt intro: dvd_diff_nat)
  show "phys2kernel tp = pm_table t"
    using t(1) by (simp add: phys2kernel_def)
qed

lemma mapTable_replaced:
  assumes ok: "tables_ok w" and c: "PageMap_mapTable this te req index (s, w) = Some (res, s', w')" and m: "kw_maps w this = Some m"
  shows "w' = w \<or> index < PageMap_num_caps (pm_level m) \<and> entry_replaced m index w w'"
proof (cases "w' = w")
  case False
  let ?a = "pm_table m + 8 * index"
  from c m False obtain t tp conf entry k' d u s1 w1 s2 where ix: "index < PageMap_num_caps (pm_level m)"
    and t: "cast_IPageMap w (cap_getPtr (ce_cap (s te))) = Inr t" "pm_level m = pm_level t + 1" "physPtr_fromKernel (pm_table t) = Some tp"
    and e: "table_pte req conf tp (pte_pmPtr (kw_pte w ?a)) = Some entry"
    and r: "resetReference d (\<lambda>s. PageTableEntry_reset ?a) s w = Some (u, s1, w1)"
    and st: "setReference kw_ar d k' te (ce_cap (s te)) (\<lambda>w. Some (PageTableEntry_set ?a entry w)) s1 w1 = Some (res, s2, w')"
    by (auto simp: PageMap_mapTable_def PageMap_pm_table_def TypedCap_set_def Let_def bind_eq_Some_conv split: sum.splits if_splits)
  have q: "kw_maps w (cap_getPtr (ce_cap (s te))) = Some t"
    using t(1) by (simp add: cast_IPageMap_def split: option.splits)
  note tp = physPtr_table [OF ok q t(3)]
  have "entry_replaced m index w w1"
    using resetReference_world [OF r] reset_replaced entry_replaced_refl by blast
  moreover have w1: "pte_pmPtr (kw_pte w1 ?a) = pte_pmPtr (kw_pte w ?a)" "kw_maps w1 = kw_maps w"
    using calculation by (auto simp: entry_replaced_def pte_put_def)
  have "lower_table w1 (pm_level m) entry"
    using q t(2) tp(3) table_pte_entry [OF e tp(1,2)] w1(2) unfolding lower_table_def by auto
  then have "entry_replaced m index w1 (PageTableEntry_set ?a entry w1)"
    using table_pte_entry [OF e tp(1,2)] w1(1) unfolding entry_replaced_def PageTableEntry_set_def by auto
  then have "entry_replaced m index w1 w'"
    using setReference_world [OF st] entry_replaced_refl by auto
  ultimately show ?thesis
    using ix entry_replaced_trans by blast
qed simp

lemma protect_replaced:
  "ProtectPage_applyPage flags (pm_table m) index (s, w) = Some (res, s', w') \<Longrightarrow> entry_replaced m index w w'"
  by (auto simp: ProtectPage_applyPage_def Let_def PageTableEntry_set_def entry_replaced_refl split: if_splits)
    (auto simp: entry_replaced_def pte_table_def pte_defs field_laws intro!: exI)

section \<open>Walks\<close>

text \<open>What every step of a walk keeps.\<close>

definition safe_step :: "kworld \<Rightarrow> kworld \<Rightarrow> bool" where
  "safe_step w w' \<longleftrightarrow> tables_ok w' \<and> kernel_half_kept w w'"

lemma safe_step_maps: "safe_step w w' \<Longrightarrow> kw_maps w' = kw_maps w"
  by (simp add: safe_step_def kernel_half_kept_def)

lemma safe_step_refl: "tables_ok w \<Longrightarrow> safe_step w w"
  by (simp add: safe_step_def)

lemma safe_step_trans: "safe_step w w1 \<Longrightarrow> safe_step w1 w2 \<Longrightarrow> safe_step w w2"
  using kernel_half_trans by (auto simp: safe_step_def)

lemma replaced_step:
  assumes "tables_ok w" "kw_maps w p = Some m" "w' = w \<or> index < PageMap_num_caps (pm_level m) \<and> entry_replaced m index w w'"
  shows "safe_step w w'"
  using assms entry_replaced_safe [OF assms(1,2)] by (auto simp: safe_step_def)

lemma applyPage_safe:
  assumes ok: "tables_ok w" and m: "kw_maps w p = Some m" "index < PageMap_num_caps (pm_level m)"
    and c: "PageOp_applyPage op (pm_table m) index (s, w) = Some (res, s', w')"
  shows "safe_step w w'"
proof (rule replaced_step [OF ok m(1), of _ index])
  show "w' = w \<or> index < PageMap_num_caps (pm_level m) \<and> entry_replaced m index w w'"
    using c tables_okD(3) [OF ok m(1)] m(2)
    by (auto simp: PageOp_applyPage_def split: page_visitor.splits
      dest: mapFrame_replaced [OF _ m(1)] unmapEntry_replaced [OF _ m(1)] protect_replaced)
qed

lemma visit_entries_bound:
  "visit_entries LEVEL op = Inr (startIndex, numEntries) \<Longrightarrow> unat startIndex + unat numEntries \<le> unat (PageMap_num_caps LEVEL)"
proof -
  assume v: "visit_entries LEVEL op = Inr (startIndex, numEntries)"
  then have s: "startIndex < PageMap_num_caps LEVEL" "numEntries \<le> PageMap_num_caps LEVEL - startIndex"
    by (auto simp: visit_entries_def Let_def split: if_splits)
  then have "unat (PageMap_num_caps LEVEL - startIndex) = unat (PageMap_num_caps LEVEL) - unat startIndex"
    by (intro unat_sub_small) (simp add: word_less_nat_alt)
  then show ?thesis
    using s by (simp add: word_le_nat_alt word_less_nat_alt)
qed

lemma visit_apply_safe:
  assumes "tables_ok w" "kw_maps w p = Some m" "index < PageMap_num_caps (pm_level m)"
    and "visit_apply L (pm_table m) index op (s, w) = Some (res, op', s', w')"
  shows "safe_step w w'"
proof (cases "page_checks L op")
  case (Inr u)
  then obtain r1 s1 w1 where a: "PageOp_applyPage op (pm_table m) index (s, w) = Some (r1, s1, w1)"
    using assms(4) by (auto simp: visit_apply_def bind_eq_Some_conv)
  then have "w' = w1"
    using assms(4) Inr by (cases r1) (simp_all add: visit_apply_def)
  then show ?thesis
    using applyPage_safe [OF assms(1-3) a] by simp
qed (use assms(4) safe_step_refl [OF assms(1)] in \<open>simp add: visit_apply_def\<close>)

lemma visitPages_loop_safe:
  "visitPages_loop L n (pm_table m) tableStart index op (s, w) = Some (res, op', s', w') \<Longrightarrow> tables_ok w \<Longrightarrow> kw_maps w p = Some m \<Longrightarrow>
   pm_level m = L \<Longrightarrow> unat index + n \<le> unat (PageMap_num_caps L) \<Longrightarrow> safe_step w w'"
proof (induction L arbitrary: n m tableStart index op s w res op' s' w' p rule: less_induct)
  case (less L)
  from less.prems show ?case
  proof (induction n arbitrary: index op s w)
    case 0
    then show ?case
      by (simp add: safe_step_def)
  next
    case (Suc n)
    let ?op = "op\<lparr>po_current_level := L\<rparr>" and ?e = "kw_pte w (pm_table m + 8 * index)"
    have ix: "index < PageMap_num_caps (pm_level m)"
      using Suc.prems(4,5) by (simp add: word_less_nat_alt)
    obtain r o1 s1 w1 where first: "(if L > 1 \<and> pte_present ?e \<and> \<not> pte_page ?e then
           if \<not> pte_configurable ?e then Some (Inl PAGEMAP_NOCONF, ?op, (s, w))
           else
             let op = ?op\<lparr>po_table_vaddr := tableStart + index * PageMap_pageSize L\<rparr> in
             case visit_entries (L - 1) op of
               Inl e \<Rightarrow> Some (Inl e, op, (s, w))
             | Inr (startIndex, numEntries) \<Rightarrow>
                 visitPages_loop (L - 1) (unat numEntries) (phys2kernel (pte_getAddr ?e)) (po_table_vaddr op) startIndex op (s, w)
         else if pte_present ?e \<and> pte_page ?e then visit_apply L (pm_table m) index ?op (s, w)
         else if \<not> po_skip_nonmapped ?op then
           if L > 2 then Some (Inl PAGEMAP_MISSING, ?op, (s, w))
           else visit_apply L (pm_table m) index ?op (s, w)
         else Some (Inr (), PageOp_moveForward (PageMap_pageSize L - PageOp_vaddr ?op mod PageMap_pageSize L) ?op, (s, w))) = Some (r, o1, s1, w1)"
      and rest: "(case r of Inl e \<Rightarrow> Some (Inl e, o1, s1, w1) | Inr _ \<Rightarrow> visitPages_loop L n (pm_table m) tableStart (index + 1) o1 (s1, w1)) =
        Some (res, op', s', w')"
      using Suc.prems(1) unfolding visitPages_loop.simps Let_def snd_conv bind_eq_Some_conv by fastforce
    have one: "safe_step w w1"
    proof (cases "L > 1 \<and> pte_present ?e \<and> \<not> pte_page ?e")
      case True
      then have "lower_table w L ?e"
        using tables_ok_lower [OF Suc.prems(2,3) _ ix] Suc.prems(4) by (simp add: pte_table_def)
      then obtain q t where t: "kw_maps w q = Some t" "pm_level t + 1 = L" "phys2kernel (pte_getAddr ?e) = pm_table t"
        unfolding lower_table_def by blast
      then show ?thesis
        using first True less.IH [of "L - 1" _ t _ _ _ s w r o1 s1 w1 q] safe_step_refl [OF Suc.prems(2)] Suc.prems(2) visit_entries_bound
        by (auto simp: Let_def split: if_splits sum.split_asm prod.split_asm)
    next
      case False
      then show ?thesis
        using first visit_apply_safe [OF Suc.prems(2,3) ix] safe_step_refl [OF Suc.prems(2)] by (auto split: if_splits)
    qed
    show ?case
    proof (cases r)
      case (Inr u)
      have "unat (index + 1) = unat index + 1"
        using Suc.prems(5) num_caps_bound(2) [of L] by (subst unat_add_small) simp_all
      then have "safe_step w1 w'"
        using Suc.IH [of "index + 1" o1 s1 w1] rest Inr one Suc.prems(3-5) safe_step_maps [OF one] by (simp add: safe_step_def)
      then show ?thesis
        using one safe_step_trans by blast
    qed (use rest one in simp)
  qed
qed

lemma visitPages_safe:
  assumes "visitPages (pm_table m) (pm_level m) op (s, w) = Some (res, op', s', w')" "tables_ok w" "kw_maps w p = Some m"
  shows "safe_step w w'"
  using assms visitPages_loop_safe [OF _ assms(2,3) refl] visit_entries_bound safe_step_refl [OF assms(2)]
  by (auto simp: visitPages_def split: sum.split_asm prod.split_asm)

lemma applyTable_safe:
  assumes "tables_ok w" "kw_maps w p = Some m" "TableOp_applyTable op p index (s, w) = Some (res, s', w')"
  shows "safe_step w w'"
proof (rule replaced_step [OF assms(1,2), of _ index])
  show "w' = w \<or> index < PageMap_num_caps (pm_level m) \<and> entry_replaced m index w w'"
    using assms(3) by (auto simp: TableOp_applyTable_def split: table_visitor.splits
      dest: mapTable_replaced [OF assms(1) _ assms(2)] unmapEntry_replaced [OF _ assms(2)])
qed

lemma visitTables_safe:
  "visitTables (pm_table m) L op (s, w) = Some (res, op', s', w') \<Longrightarrow> tables_ok w \<Longrightarrow> kw_maps w p = Some m \<Longrightarrow> pm_level m = L \<Longrightarrow> safe_step w w'"
proof (induction L arbitrary: m op res op' s' w' p rule: less_induct)
  case (less L)
  let ?i = "(to_vaddr op - to_table_vaddr op) div PageMap_pageSize L"
  let ?e = "kw_pte w (pm_table m + 8 * ?i)"
  show ?case
  proof (cases "\<not> ?i \<ge> PageMap_num_caps L \<and> to_target_level op \<noteq> L \<and> L > 1 \<and> pte_table ?e \<and> pte_configurable ?e")
    case True
    then obtain q t where t: "kw_maps w q = Some t" "pm_level t + 1 = L" "phys2kernel (pte_getAddr ?e) = pm_table t"
      using tables_ok_lower [OF less.prems(2,3), of ?i] less.prems(4) unfolding lower_table_def by (auto simp: not_le)
    then have "\<exists>op1. visitTables (pm_table t) (L - 1) op1 (s, w) = Some (res, op', s', w')"
      using less.prems(1) True by (subst (asm) visitTables.simps) (auto simp: Let_def pte_table_def)
    then show ?thesis
      using less.IH [of "L - 1" t] t less.prems(2) True by auto
  next
    case False
    then show ?thesis
      using less.prems(1) tables_okD(3) [OF less.prems(2,3)] applyTable_safe [OF less.prems(2,3)] safe_step_refl [OF less.prems(2)]
      by (subst (asm) visitTables.simps) (auto simp: Let_def pte_table_def bind_eq_Some_conv split: if_splits)
  qed
qed

text \<open>
  C25. No invocation of a page map touches the kernel half of an address space. Let the tables form a
  hierarchy: every page map is found from its table, tables do not overlap, and what an entry below
  the user limit refers to is the table of a page map of the next lower level. Then after mapping,
  unmapping or protecting a range of pages, and after installing or removing a page map, with any
  arguments, the tables form a hierarchy again and the upper half of every root table is unchanged.
\<close>

theorem kernel_half_untouched:
  assumes ok: "tables_ok w" and m: "kw_maps w this = Some m"
    and call: "PageMap_invokeMmap this self vaddr sz entry flags off (s, w) = Some (err, r, s', w') \<or>
      PageMap_invokeMunmap this self vaddr sz (s, w) = Some (err, r, s', w') \<or>
      PageMap_invokeMprotect this self vaddr sz flags (s, w) = Some (err, r, s', w') \<or>
      PageMap_invokeInstallMap this self vaddr level entry flags (s, w) = Some (err, r, s', w') \<or>
      PageMap_invokeRemoveMap this self vaddr level (s, w) = Some (err, r, s', w')"
  shows "tables_ok w' \<and> kernel_half_kept w w'"
proof -
  note safe = visitPages_safe [OF _ ok m] visitTables_safe [OF _ ok m refl]
  have "safe_step w w'"
    using call m safe_step_refl [OF ok]
    by (auto simp: PageMap_invokeMmap_def PageMap_mapFrame_range_def PageMap_invokeMunmap_def PageMap_invokeMprotect_def
      PageMap_invokeInstallMap_def PageMap_mapTable_range_def PageMap_invokeRemoveMap_def Let_def bind_eq_Some_conv
      split: if_splits sum.split_asm dest: safe)
  then show ?thesis
    by (simp add: safe_step_def)
qed

definition ex_tables :: kworld where
  "ex_tables = ex_world\<lparr>kw_pte := (\<lambda>a. if a = 0xffff800000020008 then 0x0080000000000000 else 0)\<rparr>"

lemma ex_tables_ok: "tables_ok ex_tables" "kw_maps ex_tables 0xffff800000010000 = Some ex_map"
proof -
  have pp: "pte_pmPtr 0x0080000000000000 = 8" "pte_pmPtr 0 = 0"
    by (simp_all add: pte_pmPtr_def UIntField_get_def UIntField_MASK_def)
  have t: "pm_table ex_map = 0xffff800000020000" "pm_level ex_map = 1"
    by (simp_all add: pm_table_def ex_map_def)
  have maps: "kw_maps ex_tables p = (if p = 0xffff800000010000 then Some ex_map else None)" for p
    by (simp add: ex_tables_def ex_world_def)
  then show "kw_maps ex_tables 0xffff800000010000 = Some ex_map"
    by simp
  have "table2PageMap 0xffff800000020000 ex_tables = Some 0xffff800000010000"
    by (simp add: table2PageMap_def ex_tables_def pp offset2kernel_def layout_defs)
  then show "tables_ok ex_tables"
    unfolding tables_ok_def maps by (auto simp: t isKernelAddress_def layout_defs)
qed

theorem kernel_half_untouched_witness:
  "tables_ok ex_tables \<and> kw_maps ex_tables 0xffff800000010000 = Some ex_map \<and>
   (\<exists>err r s' w'. PageMap_invokeMunmap 0xffff800000010000 (cap_withData ex_cap 2) 0 0x1000 (ex_store, ex_tables) = Some (err, r, s', w') \<and>
      err = SUCCESS \<and> tables_ok w' \<and> kernel_half_kept ex_tables w')"
proof -
  have w: "pd_writable (cap_data (cap_withData ex_cap 2))"
    by (simp add: cap_data_def cap_withData_def pd_writable_def BoolField_get_def BoolField_MASK_def)
  have t: "pm_table ex_map = 0xffff800000020000" "pm_level ex_map = 1"
    by (simp_all add: pm_table_def ex_map_def)
  have e: "visit_entries 1 (PageOp UnmapFrameVisitor 0 0x1000 0 True) = Inr (0, 1)"
    by (simp add: visit_entries_def PageOp_def PageOp_vaddr_def PageOp_sizeRemaining_def PageMap_pageSize_def PageMap_num_caps_def TABLE_SIZE_def)
  have p: "\<not> pte_page (kw_pte (snd (ex_store, ex_tables)) (0xffff800000020000 + 8 * (0 + word_of_nat i)))" if "i < 1" for i
    using that by (simp add: ex_tables_def pte_page_def)
  have "\<exists>op'. visitPages_loop 1 1 0xffff800000020000 0 0 (PageOp UnmapFrameVisitor 0 0x1000 0 True) (ex_store, ex_tables) =
      Some (Inr (), op', ex_store, ex_tables)"
    by (rule small_pages_skipped [OF _ p]) (simp add: PageOp_def)
  then obtain op' where l: "visitPages_loop 1 1 0xffff800000020000 0 0 (PageOp UnmapFrameVisitor 0 0x1000 0 True) (ex_store, ex_tables) =
      Some (Inr (), op', ex_store, ex_tables)" ..
  have "visitPages 0xffff800000020000 1 (PageOp UnmapFrameVisitor 0 0x1000 0 True) (ex_store, ex_tables) = Some (Inr (), op', ex_store, ex_tables)"
    using e l by (simp only: visitPages_def sum.case prod.case unat_1) (simp add: PageOp_def)
  then have c: "PageMap_invokeMunmap 0xffff800000010000 (cap_withData ex_cap 2) 0 0x1000 (ex_store, ex_tables) =
      Some (SUCCESS, Some (PageOp_vaddr op', po_current_level op'), ex_store, ex_tables)"
    using w ex_tables_ok(2) t by (simp add: PageMap_invokeMunmap_def)
  show ?thesis
    using ex_tables_ok c kernel_half_untouched [OF ex_tables_ok, where s = ex_store and s' = ex_store and w' = ex_tables] by blast
qed

end
