(* ===== verification/Cap_Tree.thy ===== *)
theory Cap_Tree
  imports Cap_Ops
begin

text \<open>
  The resource tree. The ring of capability entries is the preorder of a tree; the tree itself is
  not stored but implied by the parent test between an entry and its successor. The children of a
  node are a forest in first-child, next-sibling form. A forest is well formed below a node when the
  parent test answers yes for each child and no from each node to whatever follows its subtree,
  which is what makes the end of a subtree recognisable.
\<close>

section \<open>Forests and their preorder\<close>

datatype forest = Leafless | Tree u64 forest forest

fun preorder :: "forest \<Rightarrow> u64 list" where
  "preorder Leafless = []"
| "preorder (Tree x cs sib) = x # preorder cs @ preorder sib"

fun first_of :: "forest \<Rightarrow> u64 \<Rightarrow> u64" where
  "first_of Leafless f = f"
| "first_of (Tree x cs sib) f = x"

lemma first_of_preorder: "first_of F (hd ys) = hd (preorder F @ ys)"
  by (cases F) auto

fun wf_forest :: "(u64 \<Rightarrow> u64 \<Rightarrow> bool option) \<Rightarrow> u64 \<Rightarrow> forest \<Rightarrow> u64 \<Rightarrow> bool" where
  "wf_forest par p Leafless f \<longleftrightarrow> True"
| "wf_forest par p (Tree x cs sib) f \<longleftrightarrow>
     par p x = Some True \<and> par x (first_of sib f) = Some False \<and> wf_forest par x cs (first_of sib f) \<and>
     wf_forest par p sib f"

text \<open>The walk of a deletion ends at the leftmost leaf; taking it out gives a smaller forest.\<close>

fun leftmost :: "u64 \<Rightarrow> forest \<Rightarrow> u64" where
  "leftmost p Leafless = p"
| "leftmost p (Tree x cs sib) = leftmost x cs"

fun drop_leaf :: "forest \<Rightarrow> forest" where
  "drop_leaf Leafless = Leafless"
| "drop_leaf (Tree x Leafless sib) = sib"
| "drop_leaf (Tree x cs sib) = Tree x (drop_leaf cs) sib"

lemma leftmost_preorder:
  assumes "F \<noteq> Leafless"
  obtains as bs where "preorder F = as @ leftmost p F # bs" "preorder (drop_leaf F) = as @ bs"
  using assms
proof (induction F arbitrary: p thesis)
  case (Tree x cs sib)
  show ?case
  proof (cases cs)
    case Leafless
    then show ?thesis
      using Tree.prems(1) [of "[]" "preorder sib"] by simp
  next
    case (Tree y ds sib')
    then obtain as bs where "preorder cs = as @ leftmost x cs # bs" "preorder (drop_leaf cs) = as @ bs"
      using Tree.IH(1) by (metis forest.distinct(1))
    then show ?thesis
      using Tree Tree.prems(1) [of "x # as" "bs @ preorder sib"] by simp
  qed
qed simp

lemma leftmost_in: "F \<noteq> Leafless \<Longrightarrow> leftmost p F \<in> set (preorder F)"
  by (rule leftmost_preorder [of F p]) simp_all

lemma drop_leaf_length: "F \<noteq> Leafless \<Longrightarrow> length (preorder F) = Suc (length (preorder (drop_leaf F)))"
  using leftmost_preorder [of F "0"] by (metis length_append length_Cons add_Suc_right)

lemma first_of_drop_leaf:
  "F \<noteq> Leafless \<Longrightarrow> first_of (drop_leaf F) f = first_of F f \<or> leftmost p F = first_of F f"
  by (cases F rule: drop_leaf.cases) auto

lemma wf_drop_leaf:
  "wf_forest par p F f \<Longrightarrow> wf_forest par p (drop_leaf F) f"
proof (induction F arbitrary: p f)
  case (Tree x cs sib)
  then show ?case
    by (cases cs) auto
qed simp

text \<open>Well-formedness only looks at the parent test between the nodes, the parent and the follower.\<close>

lemma wf_forest_cong:
  assumes "\<And>a b. a \<in> insert p (set (preorder F)) \<Longrightarrow> b \<in> insert f (set (preorder F)) \<Longrightarrow> par' a b = par a b"
  shows "wf_forest par' p F f = wf_forest par p F f"
  using assms
proof (induction F arbitrary: p f)
  case (Tree x cs sib)
  have f: "first_of sib f \<in> insert f (set (preorder (Tree x cs sib)))"
    by (cases sib) auto
  have "par' p x = par p x" "par' x (first_of sib f) = par x (first_of sib f)"
    using f by (auto intro!: Tree.prems)
  moreover have "wf_forest par' x cs (first_of sib f) = wf_forest par x cs (first_of sib f)"
    using f by (intro Tree.IH(1) Tree.prems) auto
  moreover have "wf_forest par' p sib f = wf_forest par p sib f"
    by (intro Tree.IH(2) Tree.prems) auto
  ultimately show ?case
    by simp
qed simp

section \<open>The parent test on a store\<close>

definition parent_test :: "'c address_range \<Rightarrow> 'c \<Rightarrow> store \<Rightarrow> u64 \<Rightarrow> u64 \<Rightarrow> bool option" where
  "parent_test ar c s a b = isParentOf ar c a (ce_cap (s a)) b (ce_cap (s b))"

lemma isParentOf_cong:
  assumes "cap_asZombie p' = cap_asZombie p" "cap_asZombie k' = cap_asZombie k"
    and "cap_range ar c' pe p' = cap_range ar c pe p" "cap_range ar c' ke k' = cap_range ar c ke k"
  shows "isParentOf ar c' pe p' ke k' = isParentOf ar c pe p ke k"
proof -
  have "cap_getPtr p' = cap_getPtr p" "cap_getPtr k' = cap_getPtr k"
    using assms(1,2) by (metis cap_getPtr_zombie)+
  moreover have "cap_isReference p' = cap_isReference p" "cap_isDerived p' = cap_isDerived p"
    "cap_isReference k' = cap_isReference k" "cap_isDerived k' = cap_isDerived k"
    using assms(1,2) cap_asZombie_flags by metis+
  ultimately show ?thesis
    using assms(3,4) by (simp only: isParentOf_def cap_isOriginal_def cap_isDerivedReference_def)
qed

section \<open>References keep the tree\<close>

text \<open>
  The whole ring as a tree: its root, the forest below it, and after the last entry again the root.
  A new entry goes below its parent if that is no reference, and beside it otherwise.
\<close>

definition whole_tree :: "'c address_range \<Rightarrow> 'c \<Rightarrow> store \<Rightarrow> u64 \<Rightarrow> forest \<Rightarrow> bool" where
  "whole_tree ar c s r F \<longleftrightarrow>
     ring s (r # preorder F) \<and> wf_forest (parent_test ar c s) r F r \<and> \<not> cap_isReference (ce_cap (s r)) \<and>
     (\<forall>q\<in>set (r # preorder F). live s q \<and> \<not> is_locked s q \<and> cap_range ar c q (ce_cap (s q)) \<noteq> None)"

fun add_child :: "u64 \<Rightarrow> u64 \<Rightarrow> forest \<Rightarrow> forest" where
  "add_child p t Leafless = Leafless"
| "add_child p t (Tree x cs sib) =
     (if x = p then Tree x (Tree t Leafless cs) sib else Tree x (add_child p t cs) (add_child p t sib))"

fun add_beside :: "u64 \<Rightarrow> u64 \<Rightarrow> forest \<Rightarrow> forest" where
  "add_beside p t Leafless = Leafless"
| "add_beside p t (Tree x cs sib) =
     (if x = p then Tree x cs (Tree t Leafless sib) else Tree x (add_beside p t cs) (add_beside p t sib))"

primrec put_behind :: "u64 \<Rightarrow> u64 \<Rightarrow> u64 list \<Rightarrow> u64 list" where
  "put_behind p t [] = []"
| "put_behind p t (x # xs) = (if x = p then x # t # xs else x # put_behind p t xs)"

lemma put_behind_notin [simp]: "p \<notin> set xs \<Longrightarrow> put_behind p t xs = xs"
  by (induction xs) auto

lemma put_behind_append:
  "put_behind p t (xs @ ys) = (if p \<in> set xs then put_behind p t xs @ ys else xs @ put_behind p t ys)"
  by (induction xs) auto

lemma put_behind_split: "p \<notin> set xs \<Longrightarrow> put_behind p t (xs @ p # ys) = xs @ p # t # ys"
  by (simp add: put_behind_append)

lemma first_of_add [simp]: "first_of (add_child p t F) f = first_of F f" "first_of (add_beside p t F) f = first_of F f"
  by (cases F; simp)+

lemma add_child_notin [simp]: "p \<notin> set (preorder F) \<Longrightarrow> add_child p t F = F"
  by (induction F) auto

lemma add_beside_notin [simp]: "p \<notin> set (preorder F) \<Longrightarrow> add_beside p t F = F"
  by (induction F) auto

lemma preorder_add_child: "distinct (preorder F) \<Longrightarrow> preorder (add_child p t F) = put_behind p t (preorder F)"
  by (induction F) (auto simp: put_behind_append intro!: put_behind_notin)

lemma wf_add_child:
  assumes "wf_forest test q F f" "p \<in> set (preorder F)" "test p t = Some True"
    and "\<And>b. b \<in> insert f (set (preorder F)) \<Longrightarrow> test t b = Some False"
  shows "wf_forest test q (add_child p t F) f"
  using assms
proof (induction F arbitrary: q f)
  case (Tree x cs sib)
  have f: "first_of sib f \<in> insert f (set (preorder (Tree x cs sib)))" "first_of cs (first_of sib f) \<in> insert f (set (preorder (Tree x cs sib)))"
    by (cases sib; cases cs; auto)+
  have "wf_forest test x (add_child p t cs) (first_of sib f)"
  proof (cases "p \<in> set (preorder cs)")
    case True
    then show ?thesis
      using Tree.prems f(1) by (intro Tree.IH(1)) auto
  qed (use Tree.prems in simp)
  moreover have "wf_forest test q (add_child p t sib) f"
  proof (cases "p \<in> set (preorder sib)")
    case True
    then show ?thesis
      using Tree.prems by (intro Tree.IH(2)) auto
  qed (use Tree.prems in simp)
  ultimately show ?case
    using Tree.prems f by auto
qed simp

text \<open>Beside a leaf, the new entry has the same parent.\<close>

lemma preorder_add_beside:
  assumes "wf_forest test q F f" "\<And>b. test p b \<noteq> Some True" "distinct (preorder F)"
  shows "preorder (add_beside p t F) = put_behind p t (preorder F)"
  using assms
proof (induction F arbitrary: q f)
  case (Tree x cs sib)
  have leaf: "cs = Leafless" if "x = p"
    using Tree.prems(1,2) that by (cases cs) auto
  have "preorder (add_beside p t cs) = put_behind p t (preorder cs)"
    "preorder (add_beside p t sib) = put_behind p t (preorder sib)"
    using Tree.prems Tree.IH by auto
  then show ?case
    using Tree.prems(3) leaf by (auto simp: put_behind_append intro!: put_behind_notin)
qed simp

lemma wf_add_beside:
  assumes "wf_forest test q F f" "\<And>b. test p b \<noteq> Some True" "test p t = Some False"
    and "\<And>a. test a p = Some True \<Longrightarrow> test a t = Some True"
    and "\<And>b. b \<in> insert f (set (preorder F)) \<Longrightarrow> test t b = Some False"
  shows "wf_forest test q (add_beside p t F) f"
  using assms(1,5)
proof (induction F arbitrary: q f)
  case (Tree x cs sib)
  have f: "first_of sib f \<in> insert f (set (preorder (Tree x cs sib)))"
    by (cases sib) auto
  have leaf: "cs = Leafless" if "x = p"
    using Tree.prems(1) assms(2) that by (cases cs) auto
  have "wf_forest test x (add_beside p t cs) (first_of sib f)"
    using Tree.prems f by (intro Tree.IH(1)) auto
  moreover have "wf_forest test q (add_beside p t sib) f"
    using Tree.prems by (intro Tree.IH(2)) auto
  ultimately show ?case
    using Tree.prems f leaf assms(3,4) by auto
qed simp

lemma live_getPtr: "live s q \<Longrightarrow> cap_getPtr (ce_cap (s q)) \<noteq> 0"
  using cap_getPtr_nonzero [of "ce_cap (s q)"] by (auto simp: live_def isKernelAddress_def KERNELMEM_ADDR_def)

lemma reference_sibling:
  assumes "isParentOf ar c ae a pe p = Some True" "cap_isReference p" "cap_isReference k" "cap_isDerived k = cap_isDerived p"
    and "covers (cap_range ar c pe p) (cap_range ar c ke k)" "cap_getPtr k \<noteq> 0"
  shows "isParentOf ar c ae a ke k = Some True"
proof -
  note p = isParentOf_SomeD [OF assms(1)]
  obtain x y z where r: "cap_range ar c ae a = Some x" "cap_range ar c pe p = Some y" "cap_range ar c ke k = Some z"
    "range_contains x y" "range_contains y z"
    using p(1) assms(5) unfolding covers_def by fastforce
  have "cap_isDerivedReference k = cap_isDerivedReference p"
    using assms(2-4) by (simp add: cap_isDerivedReference_def)
  moreover have "range_contains x z" "range_contains z x \<longrightarrow> x = y"
    using r(4,5) range_contains_trans range_contains_antisym by blast+
  ultimately show ?thesis
    using assms(1,6) p(2,3) r
    by (auto simp: isParentOf_def Let_def split: if_splits intro: range_contains_antisym)
qed

lemma parent_test_child_added:
  assumes "ring s (p # zs)" "obj_ptr_ok t" "t \<notin> set (p # zs)" "\<not> is_locked s p" "cap_isUsable (ce_cap (s p))"
    and "minted_ok ar c p (ce_cap (s p)) t m"
  defines "s' \<equiv> child_added p t (cap_asReference m) s"
  shows "a \<noteq> t \<Longrightarrow> b \<noteq> t \<Longrightarrow> parent_test ar c s' a b = parent_test ar c s a b"
    "live s b \<Longrightarrow> b \<noteq> t \<Longrightarrow> cap_range ar c b (ce_cap (s b)) \<noteq> None \<Longrightarrow> parent_test ar c s' t b = Some False"
    "parent_test ar c s' p t = Some (\<not> cap_isReference (ce_cap (s p)))"
    "cap_isReference (ce_cap (s p)) \<Longrightarrow> a \<noteq> t \<Longrightarrow> parent_test ar c s' a p = Some True \<Longrightarrow>
       parent_test ar c s' a t = Some True"
proof -
  have cap: "ce_cap (s' q) = (if q = t then cap_asReference m else ce_cap (s q))" for q
    unfolding s'_def by (rule child_added_reads(2) [OF assms(1-4)])
  have pt: "p \<noteq> t" and p0: "cap_getPtr (ce_cap (s p)) \<noteq> 0"
    using assms(3) usable_getPtr [OF assms(5)] by auto
  show "parent_test ar c s' a b = parent_test ar c s a b" if "a \<noteq> t" "b \<noteq> t"
    using that by (simp add: parent_test_def cap)
  have n: "cap_range ar c p (ce_cap (s p)) \<noteq> None" "cap_range ar c t (cap_asReference m) \<noteq> None"
    using assms(6) by (auto simp: minted_ok_def covers_def)
  show "parent_test ar c s' t b = Some False" if "live s b" "b \<noteq> t" "cap_range ar c b (ce_cap (s b)) \<noteq> None"
    using that n assms(6) live_getPtr [OF that(1)] unfolding parent_test_def cap
    by (simp add: minted_ok_def) (subst isParentOf_total; simp add: cap_isOriginal_def)
  show "parent_test ar c s' p t = Some (\<not> cap_isReference (ce_cap (s p)))"
    using pt p0 n assms(6) unfolding parent_test_def cap
    by (simp add: minted_ok_def) (subst isParentOf_total; auto simp: cap_isOriginal_def cap_isDerivedReference_def)
  show "parent_test ar c s' a t = Some True"
    if "cap_isReference (ce_cap (s p))" "a \<noteq> t" "parent_test ar c s' a p = Some True"
  proof -
    have a: "isParentOf ar c a (ce_cap (s a)) p (ce_cap (s p)) = Some True"
      using that pt by (simp add: parent_test_def cap)
    have "isParentOf ar c a (ce_cap (s a)) t (cap_asReference m) = Some True"
      by (rule reference_sibling [OF a that(1)]) (use assms(6) in \<open>simp_all add: minted_ok_def\<close>)
    then show ?thesis
      using that(2) by (simp add: parent_test_def cap)
  qed
qed

lemma tree_add_reference:
  assumes w: "whole_tree ar c s r F" and p: "p \<in> set (r # preorder F)" and t: "obj_ptr_ok t" "t \<notin> set (r # preorder F)"
    and u: "cap_isUsable (ce_cap (s p))" and m: "minted_ok ar c p (ce_cap (s p)) t m"
  defines "s' \<equiv> child_added p t (cap_asReference m) s"
  shows "\<exists>F'. wf_forest (parent_test ar c s') r F' r \<and> r # preorder F' = put_behind p t (r # preorder F)"
proof -
  let ?T = "parent_test ar c s'"
  have ring: "ring s (r # preorder F)" and d: "distinct (preorder F)"
    using w by (auto simp: whole_tree_def ring_def)
  obtain zs where zs: "ring s (p # zs)" "set (r # preorder F) = insert p (set zs)"
    using ring_memE [OF ring p] by blast
  have tz: "t \<notin> set (p # zs)" and nl: "\<not> is_locked s p"
    using t(2) zs(2) w p by (auto simp: whole_tree_def)
  note T = parent_test_child_added [OF zs(1) t(1) tz nl u m, folded s'_def]
  have old: "wf_forest ?T r F r"
    using w t(2) by (subst wf_forest_cong [where par = "parent_test ar c s"]) (auto simp: whole_tree_def intro!: T(1))
  have no: "?T t b = Some False" if "b \<in> insert r (set (preorder F))" for b
    using that w t(2) by (intro T(2)) (auto simp: whole_tree_def)
  consider "p = r" | "p \<noteq> r" "\<not> cap_isReference (ce_cap (s p))" | "p \<noteq> r" "cap_isReference (ce_cap (s p))"
    by blast
  then show ?thesis
  proof cases
    case 1
    have "first_of F r \<in> insert r (set (preorder F))"
      by (cases F) auto
    then show ?thesis
      using 1 w old no T(3) by (intro exI [of _ "Tree t Leafless F"]) (simp add: whole_tree_def)
  next
    case 2
    then show ?thesis
      using p T(3) wf_add_child [OF old _ _ no] preorder_add_child [OF d, of p t]
      by (intro exI [of _ "add_child p t F"]) simp
  next
    case 3
    have np: "?T p b \<noteq> Some True" for b
      using 3(2) tz reference_not_parent [of ar c p "ce_cap (s' p)" b "ce_cap (s' b)" True]
        child_added_reads(2) [OF zs(1) t(1) tz nl] by (auto simp: parent_test_def s'_def)
    have sib: "?T a t = Some True" if "?T a p = Some True" for a
      using that no [of p] p T(4) [OF 3(2)] by (cases "a = t") auto
    show ?thesis
      using 3 T(3) wf_add_beside [OF old np _ sib no] preorder_add_beside [OF old np d, of t]
      by (intro exI [of _ "add_beside p t F"]) simp
  qed
qed

lemma ring_put_behind:
  assumes "ring s xs" "p \<in> set xs" "\<And>zs. ring s (p # zs) \<Longrightarrow> set xs = insert p (set zs) \<Longrightarrow> ring s' (p # t # zs)"
  shows "ring s' (put_behind p t xs)"
proof -
  obtain as bs where xs: "xs = as @ p # bs" "p \<notin> set as"
    using split_list_first [OF assms(2)] by blast
  have "ring s' (p # t # bs @ as)"
    using assms(1) xs by (intro assms(3)) (auto simp: ring_split)
  then show ?thesis
    using xs ring_rotate [of s' as "p # t # bs"] by (simp add: put_behind_split)
qed

lemma set_put_behind: "p \<in> set xs \<Longrightarrow> set (put_behind p t xs) = insert t (set xs)"
  by (induction xs) auto

text \<open>
  C8. Creating a reference keeps the resource tree. In a well-formed tree of unlocked entries, for any
  entry with a usable capability (original, derived or itself a reference), an empty target entry and
  a minted capability that covers no more than its origin, \<^verbatim>\<open>reference\<close> succeeds without hitting an
  assertion; the target sits directly behind the entry, and the ring is again a well-formed tree in
  which all other capabilities are unchanged.
\<close>

theorem reference_keeps_tree:
  assumes "whole_tree ar c s r F" "p \<in> set (r # preorder F)" "obj_ptr_ok t" "t \<notin> set (r # preorder F)"
    and "cap_isEmpty (ce_cap (s t))" "cap_isUsable (ce_cap (s p))"
    and "mint c (cap_getPtr (ce_cap (s p))) p (ce_cap (s p)) req False = Inr m" "minted_ok ar c p (ce_cap (s p)) t m"
  shows "\<exists>s' F'. reference ar mint p t (ce_cap (s p)) req s c = Some (Inr (), s', c) \<and> whole_tree ar c s' r F' \<and>
    r # preorder F' = put_behind p t (r # preorder F) \<and> ce_cap (s' t) = cap_asReference m \<and>
    (\<forall>q. q \<noteq> t \<longrightarrow> ce_cap (s' q) = ce_cap (s q))"
proof -
  let ?s' = "child_added p t (cap_asReference m) s"
  have ring: "ring s (r # preorder F)" and nl: "\<not> is_locked s p"
    using assms(1,2) by (auto simp: whole_tree_def)
  obtain zs where zs: "ring s (p # zs)" "set (r # preorder F) = insert p (set zs)"
    using ring_memE [OF ring assms(2)] by blast
  have tz: "t \<notin> set (p # zs)" "r \<noteq> t"
    using assms(4) zs(2) by auto
  note rd = child_added_reads [OF zs(1) assms(3) tz(1) nl, where tc = "cap_asReference m"]
  obtain F' where F': "wf_forest (parent_test ar c ?s') r F' r" "r # preorder F' = put_behind p t (r # preorder F)"
    using tree_add_reference [OF assms(1-4,6,8)] by blast
  have "ring ?s' (r # preorder F')"
    unfolding F'(2)
  proof (rule ring_put_behind [OF ring assms(2)])
    fix ws assume "ring s (p # ws)" "set (r # preorder F) = insert p (set ws)"
    then show "ring ?s' (p # t # ws)"
      using assms(3,4) nl by (intro child_added_reads(1)) auto
  qed
  moreover have "live ?s' q \<and> \<not> is_locked ?s' q \<and> cap_range ar c q (ce_cap (?s' q)) \<noteq> None" if "q \<in> set (r # preorder F')" for q
  proof (cases "q = t")
    case True
    have "f_ptr m \<noteq> 0" "cap_range ar c t (cap_asReference m) \<noteq> None"
      using assms(8) by (auto simp: minted_ok_def cap_getPtr_def covers_def)
    then show ?thesis
      using True rd(2,4) by (simp add: live_def)
  next
    case False
    then have "q \<in> set (r # preorder F)"
      using that set_put_behind [OF assms(2)] unfolding F'(2) by auto
    then show ?thesis
      using False assms(1) rd(2,3) by (auto simp: whole_tree_def live_def)
  qed
  ultimately have "whole_tree ar c ?s' r F'"
    using F'(1) rd(2) assms(1) tz(2) by (simp add: whole_tree_def)
  then show ?thesis
    using reference_step [where mint = mint and c = c, OF zs(1) assms(3) tz(1) assms(5) nl assms(6-8)] F'(2) rd(2)
    by (intro exI [of _ ?s'] exI [of _ F']) simp
qed

text \<open>The example: the root entry alone, with the default mint, which returns the capability itself.\<close>

definition ex_single :: store where
  "ex_single = ex_store(ex_child := empty_entry)"

theorem reference_keeps_tree_witness:
  "whole_tree (\<lambda>c p e k. Some (range_bySize p 1)) () ex_single ex_root Leafless \<and>
   (\<exists>s' F'. reference (\<lambda>c p e k. Some (range_bySize p 1)) (\<lambda>c p e k r d. Inr k) ex_root ex_child ex_cap 0 ex_single () =
        Some (Inr (), s', ()) \<and> whole_tree (\<lambda>c p e k. Some (range_bySize p 1)) () s' ex_root F' \<and>
        preorder F' = [ex_child])"
proof -
  have cap: "ce_cap (ex_single ex_root) = ex_cap" "ce_cap (ex_single ex_child) = cap_null"
    by (simp_all add: ex_single_def empty_entry_def)
  have "ring ex_single [ex_root]"
    using ex_ring by (simp add: ring_def ex_single_def nextp_def prevp_def)
  moreover have "\<not> cap_isReference ex_cap"
    by (simp add: cap_isReference_def f_ref_bit ex_cap_def bit_numeral_rec)
  moreover have "\<not> is_locked ex_single ex_root"
    using ex_store_simps(3) by (simp add: is_locked_def ex_single_def)
  ultimately have w: "whole_tree (\<lambda>c p e k. Some (range_bySize p 1)) () ex_single ex_root Leafless"
    by (simp add: whole_tree_def live_cases cap)
  have m: "minted_ok (\<lambda>c p e k. Some (range_bySize p 1)) () ex_root ex_cap ex_child ex_cap"
    using usable_getPtr [OF ex_cap_usable] by (simp add: minted_ok_def)
  show ?thesis
    using w reference_keeps_tree [OF w, of ex_root ex_child "\<lambda>c p e k r d. Inr k" 0 ex_cap] m
    by (simp add: cap) blast
qed

end
