(* ===== verification/Cap_Revoke.thy ===== *)
theory Cap_Revoke
  imports Cap_Tree
begin

text \<open>
  Revocation and deletion, from \<^verbatim>\<open>kernel/objects/capability-spinning/objects/RevokeOperation.hh\<close> and
  \<^verbatim>\<open>RevokeOperation.cc\<close>. The traversal locks the root and its predecessor, walks down first children
  with a pair of locks, killing each on the way, and deletes the leaf it arrives at, until the root
  is the leaf.

  The virtual method \<^verbatim>\<open>deleteCap\<close> of the kernel objects is the argument \<open>del\<close>; it sees and may change
  the whole kernel state, including the queue of objects to delete, which it reaches through the
  \<^verbatim>\<open>IDeleter\<close> interface. Replies, broadcasts and calls of the monitor are events of the operation.
\<close>

section \<open>State\<close>

datatype op_event =
    Response u64 Error
  | RequestDone
  | ResponseDone
  | DeleteBroadcast
  | DeleteObject u64

record revoke_op =
  ro_deleteQueue :: "u64 list"
  ro_res :: u64
  ro_guarded :: u64
  ro_result :: Error
  ro_lock :: bool
  ro_events :: "op_event list"

record 'w kstate =
  ks_store :: store
  ks_op :: revoke_op
  ks_obj :: 'w

type_synonym 'w delete_fun = "u64 \<Rightarrow> u64 \<Rightarrow> cap \<Rightarrow> 'w kstate \<Rightarrow> (unit optional \<times> 'w kstate) option"

definition emit :: "op_event \<Rightarrow> 'w kstate \<Rightarrow> 'w kstate" where
  "emit ev ks = ks\<lparr>ks_op := (ks_op ks)\<lparr>ro_events := ro_events (ks_op ks) @ [ev]\<rparr>\<rparr>"

section \<open>The traversal\<close>

definition RevokeOperation_startTraversal :: "u64 \<Rightarrow> cap \<Rightarrow> store \<Rightarrow> (bool \<times> store) option" where
  "RevokeOperation_startTraversal root rootCap s = do {
     (ok, s) \<leftarrow> CapEntry_lock_prev root s;
     if \<not> ok then Some (False, s)
     else if prevp s root = root then do {
       s \<leftarrow> CapEntry_unlock_prev root s;
       Some (False, s) }
     else do {
       s \<leftarrow> CapEntry_lock root s;
       if cap_asZombie (ce_cap (s root)) \<noteq> cap_asZombie rootCap then do {
         s \<leftarrow> CapEntry_unlock root s;
         s \<leftarrow> CapEntry_unlock_prev root s;
         Some (False, s) }
       else Some (True, s) } }"

text \<open>The inner loop waits for an acquired entry to receive its capability.\<close>

partial_function (option) wait_for_cap :: "u64 \<Rightarrow> store \<Rightarrow> cap option" where
  "wait_for_cap e s =
     (let nextCap = ce_cap (s e) in
      if cap_isAllocated nextCap then Option.bind (ASSERT (\<not> isDeleted s e)) (\<lambda>_. wait_for_cap e s)
      else Some nextCap)"

partial_function (option) RevokeOperation_findLockedLeaf ::
  "'w address_range \<Rightarrow> 'w \<Rightarrow> u64 \<Rightarrow> store \<Rightarrow> (u64 \<times> store) option" where
  "RevokeOperation_findLockedLeaf ar w curEntry s =
     Option.bind (CapEntry_next curEntry s) (\<lambda>nextEntry.
     Option.bind (wait_for_cap nextEntry s) (\<lambda>nextCap.
     Option.bind (isParentOf ar w curEntry (ce_cap (s curEntry)) nextEntry nextCap) (\<lambda>isParent.
       if isParent then
         Option.bind (CapEntry_unlock_prev curEntry s) (\<lambda>s.
         Option.bind (CapEntry_lock nextEntry (snd (CapEntry_kill nextEntry s))) (\<lambda>s.
           RevokeOperation_findLockedLeaf ar w nextEntry s))
       else Some (curEntry, s))))"

definition unlock_both :: "u64 \<Rightarrow> 'w kstate \<Rightarrow> 'w kstate option" where
  "unlock_both e ks = do {
     s \<leftarrow> CapEntry_unlock e (ks_store ks);
     s \<leftarrow> CapEntry_unlock_prev e s;
     Some (ks\<lparr>ks_store := s\<rparr>) }"

text \<open>One round of the loop of \<^verbatim>\<open>_delete(root, rootCap)\<close>: either the result, or to go on.\<close>

definition RevokeOperation_delete_round ::
  "'w address_range \<Rightarrow> 'w delete_fun \<Rightarrow> u64 \<Rightarrow> cap \<Rightarrow> 'w kstate \<Rightarrow> (unit optional option \<times> 'w kstate) option" where
  "RevokeOperation_delete_round ar del root rootCap ks = do {
     (go, s) \<leftarrow> RevokeOperation_startTraversal root rootCap (ks_store ks);
     if \<not> go then Some (Some (Inr ()), ks\<lparr>ks_store := s\<rparr>)
     else do {
       (leaf, s) \<leftarrow> RevokeOperation_findLockedLeaf ar (ks_obj ks) root s;
       let ks = ks\<lparr>ks_store := s\<rparr>;
       if leaf = root \<and> \<not> cap_isZombie rootCap then do {
         ks \<leftarrow> unlock_both root (ks\<lparr>ks_store := CapEntry_finishRevoke root s\<rparr>);
         Some (Some (Inr ()), ks) }
       else do {
         let leafCap = ce_cap (s leaf);
         ASSERT (cap_isZombie leafCap);
         if cap_getPtr leafCap = ro_guarded (ks_op ks) then do {
           ks \<leftarrow> unlock_both leaf ks;
           Some (Some (Inl CYCLIC_DEPENDENCY), ks) }
         else do {
           (delRes, ks) \<leftarrow> del (cap_getPtr leafCap) leaf leafCap ks;
           case delRes of
             Inr _ \<Rightarrow> do {
               s \<leftarrow> CapEntry_unlink leaf (ks_store ks);
               s \<leftarrow> CapEntry_reset leaf s;
               Some (if leaf = root then Some (Inr ()) else None, ks\<lparr>ks_store := s\<rparr>) }
           | Inl e \<Rightarrow> do {
               ks \<leftarrow> unlock_both leaf ks;
               Some (Some (Inl e), ks) } } } } }"

partial_function (option) RevokeOperation_delete_root ::
  "'w address_range \<Rightarrow> 'w delete_fun \<Rightarrow> u64 \<Rightarrow> cap \<Rightarrow> 'w kstate \<Rightarrow> (unit optional \<times> 'w kstate) option" where
  "RevokeOperation_delete_root ar del root rootCap ks =
     Option.bind (RevokeOperation_delete_round ar del root rootCap ks) (\<lambda>(r, ks').
       case r of Some res \<Rightarrow> Some (res, ks') | None \<Rightarrow> RevokeOperation_delete_root ar del root rootCap ks')"

section \<open>The operation and its asynchronous phase\<close>

definition RevokeOperation_deleteObject_push :: "u64 \<Rightarrow> 'w kstate \<Rightarrow> 'w kstate" where
  "RevokeOperation_deleteObject_push obj ks =
     ks\<lparr>ks_op := (ks_op ks)\<lparr>ro_deleteQueue := ro_deleteQueue (ks_op ks) @ [obj]\<rparr>\<rparr>"

definition RevokeOperation_acquire :: "'w kstate \<Rightarrow> bool \<times> 'w kstate" where
  "RevokeOperation_acquire ks = (\<not> ro_lock (ks_op ks), ks\<lparr>ks_op := (ks_op ks)\<lparr>ro_lock := True\<rparr>\<rparr>)"

definition RevokeOperation_release :: "'w kstate \<Rightarrow> 'w kstate" where
  "RevokeOperation_release ks = ks\<lparr>ks_op := (ks_op ks)\<lparr>ro_lock := False\<rparr>\<rparr>"

definition RevokeOperation_startAsyncDelete :: "'w kstate \<Rightarrow> 'w kstate" where
  "RevokeOperation_startAsyncDelete ks =
     (if ro_deleteQueue (ks_op ks) = []
      then emit RequestDone (emit (Response (ro_res (ks_op ks)) (ro_result (ks_op ks))) (RevokeOperation_release ks))
      else emit DeleteBroadcast ks)"

definition RevokeOperation_begin :: "u64 \<Rightarrow> u64 \<Rightarrow> 'w kstate \<Rightarrow> bool \<times> 'w kstate" where
  "RevokeOperation_begin res guarded ks =
     (let ks = ks\<lparr>ks_op := (ks_op ks)\<lparr>ro_res := res, ro_guarded := guarded\<rparr>\<rparr>;
          (ok, ks) = RevokeOperation_acquire ks
      in if ok then (True, ks) else (False, emit RequestDone (emit (Response res LOST_RACE) ks)))"

definition set_result :: "Error \<Rightarrow> 'w kstate \<Rightarrow> 'w kstate" where
  "set_result e ks = ks\<lparr>ks_op := (ks_op ks)\<lparr>ro_result := e\<rparr>\<rparr>"

definition RevokeOperation_delete ::
  "'w address_range \<Rightarrow> 'w delete_fun \<Rightarrow> u64 \<Rightarrow> u64 \<Rightarrow> u64 \<Rightarrow> 'w kstate \<Rightarrow> 'w kstate option" where
  "RevokeOperation_delete ar del res entry guarded ks =
     (case RevokeOperation_begin res guarded ks of (ok, ks) \<Rightarrow>
      if \<not> ok then Some ks
      else case CapEntry_kill entry (ks_store ks) of (killed, s) \<Rightarrow>
        let ks = ks\<lparr>ks_store := s\<rparr> in
        if \<not> killed then
          Some (emit RequestDone (RevokeOperation_release (emit (Response res LOST_RACE) ks)))
        else do {
          (r, ks) \<leftarrow> RevokeOperation_delete_root ar del entry (ce_cap (s entry)) ks;
          Some (RevokeOperation_startAsyncDelete (set_result (opt_state r) ks)) })"

definition RevokeOperation_revoke ::
  "'w address_range \<Rightarrow> 'w delete_fun \<Rightarrow> u64 \<Rightarrow> u64 \<Rightarrow> u64 \<Rightarrow> 'w kstate \<Rightarrow> 'w kstate option" where
  "RevokeOperation_revoke ar del res entry guarded ks =
     (case RevokeOperation_begin res guarded ks of (ok, ks) \<Rightarrow>
      if \<not> ok then Some ks
      else do {
        s \<leftarrow> CapEntry_lock entry (ks_store ks);
        let rootCap = ce_cap (s entry);
        if \<not> cap_isUsable rootCap then do {
          s \<leftarrow> CapEntry_unlock entry s;
          Some (emit RequestDone (RevokeOperation_release (emit (Response res LOST_RACE) (ks\<lparr>ks_store := s\<rparr>)))) }
        else do {
          s \<leftarrow> CapEntry_unlock entry (snd (CapEntry_setRevoking entry s));
          (r, ks) \<leftarrow> RevokeOperation_delete_root ar del entry rootCap (ks\<lparr>ks_store := s\<rparr>);
          Some (RevokeOperation_startAsyncDelete (set_result (opt_state r) ks)) } })"

definition RevokeOperation_deleteObject :: "'w kstate \<Rightarrow> 'w kstate" where
  "RevokeOperation_deleteObject ks =
     emit ResponseDone
       (case ro_deleteQueue (ks_op ks) of
          [] \<Rightarrow> emit RequestDone (RevokeOperation_release
                 (emit (Response (ro_res (ks_op ks)) (ro_result (ks_op ks))) ks))
        | obj # rest \<Rightarrow> emit (DeleteObject obj) (ks\<lparr>ks_op := (ks_op ks)\<lparr>ro_deleteQueue := rest\<rparr>\<rparr>))"

text \<open>The operation receives the end of the broadcast and of every object's deletion as a response.\<close>

definition RevokeOperation_response :: "unit optional \<Rightarrow> 'w kstate \<Rightarrow> 'w kstate option" where
  "RevokeOperation_response res ks = do { ASSERT (\<not> opt_isError res); Some (RevokeOperation_deleteObject ks) }"

partial_function (option) RevokeOperation_deleteEntry_loop ::
  "'w address_range \<Rightarrow> 'w delete_fun \<Rightarrow> u64 \<Rightarrow> 'w kstate \<Rightarrow> (unit optional \<times> 'w kstate) option" where
  "RevokeOperation_deleteEntry_loop ar del entry ks =
     Option.bind (ASSERT (\<not> isDeleted (ks_store ks) entry)) (\<lambda>_.
     case CapEntry_tryAcquire entry (ks_store ks) of (acquired, s) \<Rightarrow>
       if acquired then Some (Inr (), ks\<lparr>ks_store := CapEntry_setDeleted entry s\<rparr>)
       else case CapEntry_kill entry s of (killed, s) \<Rightarrow>
         if killed then
           Option.bind (RevokeOperation_delete_root ar del entry (ce_cap (s entry)) (ks\<lparr>ks_store := s\<rparr>)) (\<lambda>(r, ks).
             case r of Inl e \<Rightarrow> Some (Inl e, ks) | Inr _ \<Rightarrow> RevokeOperation_deleteEntry_loop ar del entry ks)
         else RevokeOperation_deleteEntry_loop ar del entry (ks\<lparr>ks_store := s\<rparr>))"

definition RevokeOperation_deleteEntry ::
  "'w address_range \<Rightarrow> 'w delete_fun \<Rightarrow> u64 \<Rightarrow> 'w kstate \<Rightarrow> (unit optional \<times> 'w kstate) option" where
  "RevokeOperation_deleteEntry ar del entry ks =
     (if isDeleted (ks_store ks) entry then Some (Inr (), ks)
      else RevokeOperation_deleteEntry_loop ar del entry ks)"

section \<open>Waiting for a capability\<close>

lemma wait_for_cap_Some:
  assumes "wait_for_cap e s = Some k"
  shows "\<not> cap_isAllocated (ce_cap (s e))"
proof (rule wait_for_cap.raw_induct [where P = "\<lambda>e s k. \<not> cap_isAllocated (ce_cap (s e))", OF _ assms])
  fix f e s k
  assume IH: "\<And>e s k. f e s = Some k \<Longrightarrow> \<not> cap_isAllocated (ce_cap (s e))"
    and eq: "(let nextCap = ce_cap (s e) in if cap_isAllocated nextCap
        then Option.bind (ASSERT (\<not> isDeleted s e)) (\<lambda>_. f e s) else Some nextCap) = Some k"
  show "\<not> cap_isAllocated (ce_cap (s e))"
  proof
    assume a: "cap_isAllocated (ce_cap (s e))"
    with eq have "f e s = Some k"
      by (simp add: Let_def)
    then show False
      using IH a by blast
  qed
qed

lemma wait_for_cap_eq [step_simps]:
  "wait_for_cap e s = (if cap_isAllocated (ce_cap (s e)) then None else Some (ce_cap (s e)))"
proof (cases "cap_isAllocated (ce_cap (s e))")
  case True
  then show ?thesis
    using wait_for_cap_Some [of e s] by (cases "wait_for_cap e s") auto
next
  case False
  then show ?thesis
    by (subst wait_for_cap.simps) (simp add: Let_def)
qed

section \<open>What a walk changes\<close>

text \<open>Links, flags and capability values stay; entries of \<open>X\<close> may have become zombies.\<close>

definition kill_frame :: "u64 set \<Rightarrow> store \<Rightarrow> store \<Rightarrow> bool" where
  "kill_frame X s s' \<longleftrightarrow> (\<forall>q. nextp s' q = nextp s q \<and> prevp s' q = prevp s q \<and>
     isRevoking s' q = isRevoking s q \<and> isDeleted s' q = isDeleted s q \<and>
     cap_asZombie (ce_cap (s' q)) = cap_asZombie (ce_cap (s q)) \<and> (q \<notin> X \<longrightarrow> ce_cap (s' q) = ce_cap (s q)))"

lemma kill_frame_trans: "kill_frame X s s1 \<Longrightarrow> kill_frame Y s1 s2 \<Longrightarrow> X \<subseteq> Z \<Longrightarrow> Y \<subseteq> Z \<Longrightarrow> kill_frame Z s s2"
  unfolding kill_frame_def by (metis subsetD)

lemma kill_frame_refl [simp]: "kill_frame X s s"
  by (simp add: kill_frame_def)

lemma kill_frame_ring: "kill_frame X s s' \<Longrightarrow> ring s' xs = ring s xs"
  by (rule ring_cong) (simp_all add: kill_frame_def)

definition zombie_blind :: "'w address_range \<Rightarrow> 'w \<Rightarrow> bool" where
  "zombie_blind ar w \<longleftrightarrow> (\<forall>p e k. ar w p e (cap_asZombie k) = ar w p e k)"

lemma zombie_blind_range:
  "zombie_blind ar w \<Longrightarrow> cap_asZombie k = cap_asZombie k' \<Longrightarrow> cap_range ar w e k = cap_range ar w e k'"
  unfolding zombie_blind_def by (metis cap_getPtr_zombie)

lemma kill_frame_parent_test:
  assumes "zombie_blind ar w" "kill_frame X s s'"
  shows "parent_test ar w s' = parent_test ar w s"
proof (intro ext)
  fix a b
  have "cap_asZombie (ce_cap (s' q)) = cap_asZombie (ce_cap (s q))" for q
    using assms(2) by (simp add: kill_frame_def)
  then show "parent_test ar w s' a b = parent_test ar w s a b"
    unfolding parent_test_def
    by (intro isParentOf_cong zombie_blind_range [OF assms(1)])
qed

lemma kill_frame_live: "kill_frame X s s' \<Longrightarrow> live s' q = live s q"
proof -
  assume "kill_frame X s s'"
  then have "cap_asZombie (ce_cap (s' q)) = cap_asZombie (ce_cap (s q))"
    by (simp add: kill_frame_def)
  then have "f_ptr (cap_asZombie (ce_cap (s' q))) = f_ptr (cap_asZombie (ce_cap (s q)))"
    by simp
  then show ?thesis
    by (simp add: live_def cap_asZombie_def)
qed

lemma live_killed_zombie: "live s q \<Longrightarrow> cap_isZombie (cap_asZombie (ce_cap (s q)))"
  by (simp add: live_def)

section \<open>The walk to a leaf\<close>

definition pair_locked :: "u64 set \<Rightarrow> u64 \<Rightarrow> store \<Rightarrow> bool" where
  "pair_locked X p s \<longleftrightarrow> (\<forall>q\<in>X. is_locked s q \<longleftrightarrow> q = p \<or> q = prevp s p)"

lemma pair_lockedD: "pair_locked X p s \<Longrightarrow> q \<in> X \<Longrightarrow> is_locked s q \<longleftrightarrow> q = p \<or> q = prevp s p"
  by (simp add: pair_locked_def)

definition descend :: "u64 \<Rightarrow> u64 \<Rightarrow> store \<Rightarrow> store" where
  "descend p x s = lockp x (killp x (unlockp (prevp s p) s))"

lemma descend_frame: "kill_frame {x} s (descend p x s)"
  by (simp add: kill_frame_def descend_def)

lemma descend_pair_locked:
  assumes "ring s (p # x # zs)" "pair_locked (set (p # x # zs)) p s"
  shows "pair_locked (set (p # x # zs)) x (descend p x s)"
proof -
  have "prevp s x = p" "prevp s p \<noteq> p"
    using ring_prev_next [OF assms(1)] ring_neighbours(9) [OF assms(1)] by simp_all
  then show ?thesis
    using assms(2) by (auto simp: pair_locked_def descend_def)
qed

lemma findLockedLeaf_stop:
  assumes "is_locked s p" "live s (nextp s p)" "parent_test ar w s p (nextp s p) = Some False"
  shows "RevokeOperation_findLockedLeaf ar w p s = Some (p, s)"
  using assms
  by (subst RevokeOperation_findLockedLeaf.simps) (simp add: CapEntry_next_def step_simps parent_test_def)

lemma findLockedLeaf_down:
  assumes "ring s (p # x # zs)" "pair_locked (set (p # x # zs)) p s" "live s x"
    and "parent_test ar w s p x = Some True"
  shows "RevokeOperation_findLockedLeaf ar w p s = RevokeOperation_findLockedLeaf ar w x (descend p x s)"
proof -
  note r = ring_neighbours [OF assms(1)]
  have n: "nextp s p = x" "prevp s p \<noteq> 0"
    using r(1,7) by simp_all
  have "prevp s p \<in> set (p # x # zs)" "x \<noteq> p"
    using r(2,4,5) by auto
  then have l: "is_locked s p" "is_locked s (prevp s p)" "x = prevp s p \<or> \<not> is_locked s x"
    using pair_lockedD [OF assms(2), of p] pair_lockedD [OF assms(2), of x]
      pair_lockedD [OF assms(2), of "prevp s p"] by simp_all
  have "live (unlockp (prevp s p) s) x"
    using assms(3) by (simp add: live_def)
  then have k: "CapEntry_lock x (snd (CapEntry_kill x (unlockp (prevp s p) s))) = Some (descend p x s)"
    using l(3) by (auto simp: step_simps descend_def)
  have u: "CapEntry_unlock_prev p s = Some (unlockp (prevp s p) s)"
    using n(2) l(2) by (simp add: step_simps)
  have "CapEntry_next p s = Some x" "wait_for_cap x s = Some (ce_cap (s x))"
    using n(1) l(1) assms(3) by (simp_all add: CapEntry_next_def step_simps)
  then show ?thesis
    using assms(4) by (subst RevokeOperation_findLockedLeaf.simps) (simp add: parent_test_def k u)
qed

lemma findLockedLeaf_correct:
  assumes "zombie_blind ar w" "ring s (p # preorder F @ ys)" "F = Leafless \<Longrightarrow> ys \<noteq> []"
    and "wf_forest (parent_test ar w s) p F (hd (ys @ [p]))"
    and "ys \<noteq> [] \<Longrightarrow> parent_test ar w s p (hd ys) = Some False"
    and "pair_locked (set (p # preorder F @ ys)) p s" "\<And>q. q \<in> set (p # preorder F @ ys) \<Longrightarrow> live s q"
  shows "\<exists>s'. RevokeOperation_findLockedLeaf ar w p s = Some (leftmost p F, s') \<and>
    kill_frame (set (preorder F)) s s' \<and> pair_locked (set (p # preorder F @ ys)) (leftmost p F) s' \<and>
    (F \<noteq> Leafless \<longrightarrow> cap_isZombie (ce_cap (s' (leftmost p F))))  \<and>
    (\<forall>q. q \<notin> set (p # preorder F @ ys) \<longrightarrow> s' q = s q)"
  using assms(2-)
proof (induction F arbitrary: p ys s)
  case Leafless
  then have "nextp s p = hd ys" "hd ys \<in> set ys" "is_locked s p"
    using ring_neighbours [of s p ys] by (auto simp: pair_locked_def)
  then have "RevokeOperation_findLockedLeaf ar w p s = Some (p, s)"
    using Leafless by (intro findLockedLeaf_stop) auto
  then show ?case
    using Leafless by simp
next
  case (Tree x cs sib)
  let ?zs = "preorder cs @ preorder sib @ ys" and ?s1 = "descend p x s" and ?ys = "preorder sib @ ys @ [p]"
  have r: "ring s (p # x # ?zs)" and l: "pair_locked (set (p # x # ?zs)) p s"
    using Tree.prems by (simp_all add: insert_commute)
  have set_eq: "set (x # preorder cs @ ?ys) = set (p # x # ?zs)"
    by auto
  note f1 = descend_frame [of x s p]
  note par = kill_frame_parent_test [OF assms(1) f1]
  have hd: "hd ?ys = first_of sib (hd (ys @ [p]))"
    by (simp add: first_of_preorder)
  have "\<exists>s'. RevokeOperation_findLockedLeaf ar w x ?s1 = Some (leftmost x cs, s') \<and>
    kill_frame (set (preorder cs)) ?s1 s' \<and> pair_locked (set (x # preorder cs @ ?ys)) (leftmost x cs) s' \<and>
    (cs \<noteq> Leafless \<longrightarrow> cap_isZombie (ce_cap (s' (leftmost x cs)))) \<and>
    (\<forall>q. q \<notin> set (x # preorder cs @ ?ys) \<longrightarrow> s' q = ?s1 q)"
  proof (rule Tree.IH(1))
    show "ring ?s1 (x # preorder cs @ ?ys)"
      using r kill_frame_ring [OF f1] ring_rotate1 [of s p "x # ?zs"] by simp
    show "wf_forest (parent_test ar w ?s1) x cs (hd (?ys @ [x]))" "parent_test ar w ?s1 x (hd ?ys) = Some False"
      using Tree.prems(3) hd unfolding par by (auto simp: hd_append)
    show "pair_locked (set (x # preorder cs @ ?ys)) x ?s1"
      using descend_pair_locked [OF r l] set_eq by simp
    show "live ?s1 q" if "q \<in> set (x # preorder cs @ ?ys)" for q
      using that Tree.prems(6) [of q] set_eq kill_frame_live [OF f1] by auto
  qed simp
  then obtain s' where s': "RevokeOperation_findLockedLeaf ar w x ?s1 = Some (leftmost x cs, s')"
    "kill_frame (set (preorder cs)) ?s1 s'" "pair_locked (set (p # x # ?zs)) (leftmost x cs) s'"
    "cs \<noteq> Leafless \<longrightarrow> cap_isZombie (ce_cap (s' (leftmost x cs)))"
    "\<And>q. q \<notin> set (p # x # ?zs) \<Longrightarrow> s' q = ?s1 q"
    unfolding set_eq by blast
  have "RevokeOperation_findLockedLeaf ar w p s = Some (leftmost p (Tree x cs sib), s')"
    using findLockedLeaf_down [OF r l, of ar w] Tree.prems(3,6) s'(1) by simp
  moreover have "kill_frame (set (preorder (Tree x cs sib))) s s'"
    by (rule kill_frame_trans [OF f1 s'(2)]) auto
  moreover have "cap_isZombie (ce_cap (s' (leftmost x cs)))"
    using s'(2,4) live_killed_zombie [of s x] Tree.prems(6) [of x]
    by (cases cs) (auto simp: kill_frame_def descend_def)
  moreover have "s' q = s q" if "q \<notin> set (p # x # ?zs)" for q
  proof -
    have "prevp s p \<in> set (p # x # ?zs)"
      by (rule ring_closed(2) [OF r]) simp
    then show ?thesis
      using s'(5) [OF that] that by (auto simp: descend_def lockp_def killp_def unlockp_def put_next_def put_cap_def)
  qed
  ultimately show ?case
    using s'(3) by (auto simp: insert_commute)
qed

section \<open>Subtrees of the ring\<close>

text \<open>
  \<open>subtree ar ks r F ys\<close>: the ring is the root \<open>r\<close>, the entries of its children \<open>F\<close> in preorder, and
  the entries \<open>ys\<close> outside the subtree; the parent test delimits the subtree; all entries are unlocked
  and hold capabilities.
\<close>

definition quiet :: "store \<Rightarrow> u64 set \<Rightarrow> bool" where
  "quiet s X \<longleftrightarrow> (\<forall>q\<in>X. \<not> is_locked s q \<and> live s q)"

definition subtree :: "'w address_range \<Rightarrow> 'w kstate \<Rightarrow> u64 \<Rightarrow> forest \<Rightarrow> u64 list \<Rightarrow> bool" where
  "subtree ar ks r F ys \<longleftrightarrow>
     ring (ks_store ks) (r # preorder F @ ys) \<and>
     wf_forest (parent_test ar (ks_obj ks) (ks_store ks)) r F (hd (ys @ [r])) \<and>
     (ys \<noteq> [] \<longrightarrow> parent_test ar (ks_obj ks) (ks_store ks) r (hd ys) = Some False) \<and>
     quiet (ks_store ks) (set (r # preorder F @ ys))"

lemma subtree_cong:
  assumes "\<And>q. nextp (ks_store ks') q = nextp (ks_store ks) q" "\<And>q. prevp (ks_store ks') q = prevp (ks_store ks) q"
    and "\<And>q. ce_cap (ks_store ks' q) = ce_cap (ks_store ks q)" "\<And>q. is_locked (ks_store ks') q = is_locked (ks_store ks) q"
    and "ks_obj ks' = ks_obj ks"
  shows "subtree ar ks' r F ys = subtree ar ks r F ys"
proof -
  have "parent_test ar (ks_obj ks') (ks_store ks') = parent_test ar (ks_obj ks) (ks_store ks)"
    by (intro ext) (simp add: parent_test_def assms)
  moreover have "ring (ks_store ks') xs = ring (ks_store ks) xs" for xs
    by (rule ring_cong) (simp_all add: assms)
  moreover have "quiet (ks_store ks') X = quiet (ks_store ks) X" for X
    by (simp add: quiet_def live_def assms)
  ultimately show ?thesis
    by (simp add: subtree_def)
qed

lemma startTraversal_go:
  assumes "ring s (r # zs)" "zs \<noteq> []" "quiet s (set (r # zs))"
    and "cap_asZombie (ce_cap (s r)) = cap_asZombie rootCap"
  shows "\<exists>s'. RevokeOperation_startTraversal r rootCap s = Some (True, s') \<and> kill_frame {} s s' \<and>
    pair_locked (set (r # zs)) r s' \<and> (\<forall>q. q \<notin> set (r # zs) \<longrightarrow> s' q = s q)"
proof -
  note n = ring_neighbours [OF assms(1,2)]
  let ?s' = "lockp r (lockp (prevp s r) s)"
  have l: "\<not> is_locked s (prevp s r)" "\<not> is_locked s r"
    using assms(3) n(2,4) by (auto simp: quiet_def)
  have "RevokeOperation_startTraversal r rootCap s = Some (True, ?s')"
    using n(7,9) l assms(4) by (simp add: RevokeOperation_startTraversal_def step_simps)
  moreover have "kill_frame {} s ?s'"
    by (simp add: kill_frame_def)
  moreover have "pair_locked (set (r # zs)) r ?s'"
    using assms(3) by (auto simp: pair_locked_def quiet_def)
  moreover have "?s' q = s q" if "q \<notin> set (r # zs)" for q
    using that n(2,4) by (auto simp: lockp_def put_next_def)
  ultimately show ?thesis
    by blast
qed

lemma walk_to_leaf:
  assumes "zombie_blind ar (ks_obj ks)" "subtree ar ks r F ys" "preorder F @ ys \<noteq> []"
    and "cap_asZombie (ce_cap (ks_store ks r)) = cap_asZombie rootCap"
  shows "\<exists>s0 s1. RevokeOperation_startTraversal r rootCap (ks_store ks) = Some (True, s0) \<and>
    RevokeOperation_findLockedLeaf ar (ks_obj ks) r s0 = Some (leftmost r F, s1) \<and>
    kill_frame (set (preorder F)) (ks_store ks) s1 \<and>
    pair_locked (set (r # preorder F @ ys)) (leftmost r F) s1 \<and>
    (F \<noteq> Leafless \<longrightarrow> cap_isZombie (ce_cap (s1 (leftmost r F)))) \<and>
    (\<forall>q. q \<notin> set (r # preorder F @ ys) \<longrightarrow> s1 q = ks_store ks q)"
proof -
  let ?s = "ks_store ks" and ?X = "set (r # preorder F @ ys)"
  have r: "ring ?s (r # preorder F @ ys)" "quiet ?s ?X"
    using assms(2) by (simp_all add: subtree_def)
  obtain s0 where s0: "RevokeOperation_startTraversal r rootCap ?s = Some (True, s0)" "kill_frame {} ?s s0"
    "pair_locked ?X r s0" "\<And>q. q \<notin> ?X \<Longrightarrow> s0 q = ?s q"
    using startTraversal_go [OF r(1) assms(3) r(2) assms(4)] by blast
  note par = kill_frame_parent_test [OF assms(1) s0(2)]
  have "live s0 q" if "q \<in> ?X" for q
    using that r(2) kill_frame_live [OF s0(2)] by (auto simp: quiet_def)
  then have "\<exists>s'. RevokeOperation_findLockedLeaf ar (ks_obj ks) r s0 = Some (leftmost r F, s') \<and>
    kill_frame (set (preorder F)) s0 s' \<and> pair_locked ?X (leftmost r F) s' \<and>
    (F \<noteq> Leafless \<longrightarrow> cap_isZombie (ce_cap (s' (leftmost r F)))) \<and> (\<forall>q. q \<notin> ?X \<longrightarrow> s' q = s0 q)"
    using assms(2,3) r(1) s0(3) kill_frame_ring [OF s0(2)]
    by (intro findLockedLeaf_correct [OF assms(1)]) (auto simp: subtree_def par)
  then obtain s1 where s1: "RevokeOperation_findLockedLeaf ar (ks_obj ks) r s0 = Some (leftmost r F, s1)"
    "kill_frame (set (preorder F)) s0 s1" "pair_locked ?X (leftmost r F) s1"
    "F \<noteq> Leafless \<longrightarrow> cap_isZombie (ce_cap (s1 (leftmost r F)))" "\<forall>q. q \<notin> ?X \<longrightarrow> s1 q = s0 q"
    by (elim exE conjE)
  have "kill_frame (set (preorder F)) ?s s1"
    by (rule kill_frame_trans [OF s0(2) s1(2)]) simp_all
  then show ?thesis
    using s0(1,4) s1 by (intro exI [of _ s0] exI [of _ s1]) simp
qed

text \<open>Deleting capabilities only appends objects to the queue of the operation.\<close>

definition queued :: "'w kstate \<Rightarrow> 'w kstate \<Rightarrow> bool" where
  "queued ks ks' \<longleftrightarrow>
     (\<exists>ds. ks_op ks' = (ks_op ks)\<lparr>ro_deleteQueue := ro_deleteQueue (ks_op ks) @ ds\<rparr>)"

lemma queued_refl [simp]: "queued ks ks" "queued (ks\<lparr>ks_store := s\<rparr>) ks' = queued ks ks'"
    "queued ks (ks'\<lparr>ks_store := s\<rparr>) = queued ks ks'"
  by (auto simp: queued_def intro!: exI [of _ "[]"])

lemma queued_trans: "queued k k1 \<Longrightarrow> queued k1 k2 \<Longrightarrow> queued k k2"
  unfolding queued_def by (elim exE) (simp, metis append_assoc)

lemma queued_guarded: "queued k k' \<Longrightarrow> ro_guarded (ks_op k') = ro_guarded (ks_op k)"
  by (auto simp: queued_def)

section \<open>The operation around the traversal\<close>

lemma emit_simps [simp]:
  "ks_store (emit ev ks) = ks_store ks" "ks_obj (emit ev ks) = ks_obj ks"
  "ks_op (emit ev ks) = (ks_op ks)\<lparr>ro_events := ro_events (ks_op ks) @ [ev]\<rparr>"
  "ks_store (RevokeOperation_release ks) = ks_store ks" "ks_obj (RevokeOperation_release ks) = ks_obj ks"
  "ks_op (RevokeOperation_release ks) = (ks_op ks)\<lparr>ro_lock := False\<rparr>"
  "ks_store (set_result e ks) = ks_store ks" "ks_obj (set_result e ks) = ks_obj ks"
  "ks_op (set_result e ks) = (ks_op ks)\<lparr>ro_result := e\<rparr>"
  by (simp_all add: emit_def RevokeOperation_release_def set_result_def)

lemma startAsyncDelete_simps [simp]:
  "ks_store (RevokeOperation_startAsyncDelete ks) = ks_store ks"
  "ks_obj (RevokeOperation_startAsyncDelete ks) = ks_obj ks"
  by (simp_all add: RevokeOperation_startAsyncDelete_def)

text \<open>
  After a successful traversal the operation either has answered and is free again, or waits for the
  broadcast with the objects to delete.
\<close>

definition answered :: "u64 \<Rightarrow> revoke_op \<Rightarrow> revoke_op \<Rightarrow> bool" where
  "answered res op op' \<longleftrightarrow> ro_result op' = SUCCESS \<and> ro_res op' = res \<and>
     (if ro_deleteQueue op' = []
      then ro_events op' = ro_events op @ [Response res SUCCESS, RequestDone] \<and> \<not> ro_lock op'
      else ro_events op' = ro_events op @ [DeleteBroadcast] \<and> ro_lock op')"

lemma startAsyncDelete_answered:
  assumes "queued ks ks'" "ro_res (ks_op ks) = res" "ro_lock (ks_op ks)"
  shows "answered res (ks_op ks) (ks_op (RevokeOperation_startAsyncDelete (set_result SUCCESS ks')))"
  using assms by (auto simp: answered_def queued_def RevokeOperation_startAsyncDelete_def)

lemma begin_free:
  "\<not> ro_lock (ks_op ks) \<Longrightarrow> RevokeOperation_begin res g ks =
     (True, ks\<lparr>ks_op := (ks_op ks)\<lparr>ro_res := res, ro_guarded := g, ro_lock := True\<rparr>\<rparr>)"
  by (simp add: RevokeOperation_begin_def RevokeOperation_acquire_def Let_def)

lemma setRevoking_unlock:
  assumes "\<not> is_locked s r"
  shows "CapEntry_unlock r (snd (CapEntry_setRevoking r (lockp r s))) =
    Some (put_prev r (ce_prev (s r) OR REVOKING_FLAG) s)"
  using assms
  by (auto simp: CapEntry_setRevoking_def CapEntry_unlock_def is_locked_bit bit_or_iff intro!: store_eqI)

section \<open>The contract of the kernel objects\<close>

text \<open>
  What the traversal needs from the objects: the address range of a capability does not depend on
  its being a zombie, and deleting a zombie capability succeeds, leaves the entries alone, at most
  queues objects for deletion, and does not change the range of another entry's capability. The predicate
  \<open>inv D R\<close> is the state in which the objects promise this, for the entries \<open>D\<close> that are deleted and the
  entries \<open>R\<close> whose ranges are compared; it must survive the traversal's own changes. What the entry
  stood for is \<open>gone\<close> after its deletion, and stays so.
\<close>

locale kernel_objects =
  fixes ar :: "'w address_range" and del :: "'w delete_fun" and inv :: "u64 set \<Rightarrow> u64 set \<Rightarrow> store \<Rightarrow> 'w \<Rightarrow> bool"
    and gone :: "u64 \<Rightarrow> 'w \<Rightarrow> bool"
  assumes ar_zombie: "zombie_blind ar w"
    and inv_store: "inv D R s w \<Longrightarrow>
      (\<And>q. cap_asZombie (ce_cap (s' q)) = cap_asZombie (ce_cap (s q)) \<or> s' q = empty_entry) \<Longrightarrow> inv D R s' w"
    and del_ok: "inv D R (ks_store ks) (ks_obj ks) \<Longrightarrow> e \<in> D \<Longrightarrow> cap_isZombie (ce_cap (ks_store ks e)) \<Longrightarrow>
      \<exists>ks'. del (cap_getPtr (ce_cap (ks_store ks e))) e (ce_cap (ks_store ks e)) ks = Some (Inr (), ks') \<and>
        ks_store ks' = ks_store ks \<and> queued ks ks' \<and>
        inv D R (ks_store ks') (ks_obj ks') \<and> gone e (ks_obj ks') \<and> (\<forall>q. gone q (ks_obj ks) \<longrightarrow> gone q (ks_obj ks')) \<and>
        (\<forall>q\<in>R. q \<noteq> e \<and> live (ks_store ks) q \<longrightarrow>
           cap_range ar (ks_obj ks') q (ce_cap (ks_store ks q)) = cap_range ar (ks_obj ks) q (ce_cap (ks_store ks q)))"

context kernel_objects
begin

lemma parent_test_after:
  assumes "kill_frame X (ks_store ks) s1" "live (ks_store ks) a" "live (ks_store ks) b" "a \<noteq> e" "b \<noteq> e" "a \<in> R" "b \<in> R"
    and "\<And>q. q \<in> R \<Longrightarrow> q \<noteq> e \<Longrightarrow> live s1 q \<Longrightarrow> cap_range ar w' q (ce_cap (s1 q)) = cap_range ar (ks_obj ks) q (ce_cap (s1 q))"
  shows "parent_test ar w' (removed e s1) a b = parent_test ar (ks_obj ks) (ks_store ks) a b"
proof -
  have z: "cap_asZombie (ce_cap (removed e s1 q)) = cap_asZombie (ce_cap (ks_store ks q))" if "q \<noteq> e" for q
    using that assms(1) by (simp add: kill_frame_def)
  have "cap_range ar w' q (ce_cap (removed e s1 q)) = cap_range ar (ks_obj ks) q (ce_cap (ks_store ks q))"
    if "q \<noteq> e" "live (ks_store ks) q" "q \<in> R" for q
    using that assms(8) [of q] kill_frame_live [OF assms(1)] zombie_blind_range [OF ar_zombie z [OF that(1)]]
    by simp
  then show ?thesis
    using assms(2-7) unfolding parent_test_def by (intro isParentOf_cong z) auto
qed

lemma subtree_after_removal:
  assumes t: "subtree ar ks r F ys" and F: "F \<noteq> Leafless"
    and k: "kill_frame (set (preorder F)) (ks_store ks) s1"
    and l: "pair_locked (set (r # preorder F @ ys)) (leftmost r F) s1"
    and z: "cap_isZombie (ce_cap (s1 (leftmost r F)))"
    and ks': "ks_store ks' = removed (leftmost r F) s1"
    and rng: "\<And>q. q \<in> set (r # preorder F @ ys) \<Longrightarrow> q \<noteq> leftmost r F \<Longrightarrow> live s1 q \<Longrightarrow>
      cap_range ar (ks_obj ks') q (ce_cap (s1 q)) = cap_range ar (ks_obj ks) q (ce_cap (s1 q))"
  shows "subtree ar ks' r (drop_leaf F) ys"
    "Option.bind (CapEntry_unlink (leftmost r F) s1) (CapEntry_reset (leftmost r F)) = Some (ks_store ks')"
    "q \<notin> set (r # preorder F @ ys) \<Longrightarrow> ks_store ks' q = s1 q"
proof -
  let ?e = "leftmost r F"
  obtain as bs where ab: "preorder F = as @ ?e # bs" "preorder (drop_leaf F) = as @ bs"
    using leftmost_preorder [OF F] by blast
  let ?rest = "bs @ ys @ r # as"
  have r: "ring (ks_store ks) (r # preorder F @ ys)" and d: "distinct (r # preorder F @ ys)"
    using t by (simp_all add: subtree_def ring_def)
  have r1: "ring s1 (?e # ?rest)"
    using r kill_frame_ring [OF k] ring_rotate [of s1 "r # as" "?e # bs @ ys"] ab(1) by simp
  have rm: "Option.bind (CapEntry_unlink ?e s1) (CapEntry_reset ?e) = Some (ks_store ks')" "ring (ks_store ks') ?rest"
    "q \<notin> set (?e # ?rest) \<Longrightarrow> ks_store ks' q = s1 q" for q
    using remove_leaf [OF r1 _ z] ks' by auto
  have r': "ring (ks_store ks') (r # preorder (drop_leaf F) @ ys)"
    using rm(2) ab(2) ring_rotate [of "ks_store ks'" "bs @ ys" "r # as"] by simp
  have sub: "set (r # preorder (drop_leaf F) @ ys) = set (r # preorder F @ ys) - {?e}"
    using d ab by auto
  have lv: "live (ks_store ks) q" if "q \<in> set (r # preorder F @ ys)" for q
    using that t unfolding subtree_def quiet_def by blast
  have par: "parent_test ar (ks_obj ks') (ks_store ks') a b = parent_test ar (ks_obj ks) (ks_store ks) a b"
    if "a \<in> set (r # preorder (drop_leaf F) @ ys)" "b \<in> set (r # preorder (drop_leaf F) @ ys)" for a b
    using that lv rng unfolding ks' sub by (intro parent_test_after [OF k, where R = "set (r # preorder F @ ys)"]) auto
  have q: "quiet (ks_store ks') (set (r # preorder (drop_leaf F) @ ys))"
    unfolding quiet_def
  proof
    fix x assume x: "x \<in> set (r # preorder (drop_leaf F) @ ys)"
    then have "x \<noteq> ?e" "x \<in> set (r # preorder F @ ys)"
      unfolding sub by auto
    then show "\<not> is_locked (ks_store ks') x \<and> live (ks_store ks') x"
      using lv pair_lockedD [OF l] kill_frame_live [OF k] by (auto simp: ks')
  qed
  have f: "hd (ys @ [r]) \<in> set (r # preorder (drop_leaf F) @ ys)"
    by (cases ys) auto
  have "wf_forest (parent_test ar (ks_obj ks) (ks_store ks)) r (drop_leaf F) (hd (ys @ [r]))"
    using t wf_drop_leaf by (simp add: subtree_def)
  then have "wf_forest (parent_test ar (ks_obj ks') (ks_store ks')) r (drop_leaf F) (hd (ys @ [r]))"
    using f by (subst wf_forest_cong) (auto intro!: par)
  moreover have "ys \<noteq> [] \<longrightarrow> parent_test ar (ks_obj ks') (ks_store ks') r (hd ys) = Some False"
    using t par [of r "hd ys"] by (auto simp: subtree_def)
  ultimately show "subtree ar ks' r (drop_leaf F) ys"
    using r' q by (simp add: subtree_def)
  show "Option.bind (CapEntry_unlink ?e s1) (CapEntry_reset ?e) = Some (ks_store ks')"
    by (rule rm(1))
  show "ks_store ks' q = s1 q" if "q \<notin> set (r # preorder F @ ys)"
    using that rm(3) [of q] ab(1) by auto
qed

lemma kill_frame_inv:
  assumes "kill_frame X s s'" "inv D R s w"
  shows "inv D R s' w"
proof (rule inv_store [OF assms(2)])
  show "cap_asZombie (ce_cap (s' q)) = cap_asZombie (ce_cap (s q)) \<or> s' q = empty_entry" for q
    using assms(1) unfolding kill_frame_def by blast
qed

lemma removed_inv: "inv D R s w \<Longrightarrow> inv D R (removed e s) w"
proof (rule inv_store)
  show "cap_asZombie (ce_cap (removed e s q)) = cap_asZombie (ce_cap (s q)) \<or> removed e s q = empty_entry" for q
    by (cases "q = e") simp_all
qed

lemma round_removes_leaf:
  assumes t: "subtree ar ks r F ys" and F: "F \<noteq> Leafless" and i: "inv D R (ks_store ks) (ks_obj ks)"
    and D: "set (preorder F) \<subseteq> D" "set (r # preorder F @ ys) \<subseteq> R"
    and c: "cap_asZombie (ce_cap (ks_store ks r)) = cap_asZombie rootCap"
    and g: "\<And>q. q \<in> set (preorder F) \<Longrightarrow> cap_getPtr (ce_cap (ks_store ks q)) \<noteq> ro_guarded (ks_op ks)"
  shows "\<exists>ks'. RevokeOperation_delete_round ar del r rootCap ks = Some (None, ks') \<and>
    subtree ar ks' r (drop_leaf F) ys \<and> inv D R (ks_store ks') (ks_obj ks') \<and>
    queued ks ks' \<and> ks_store ks' (leftmost r F) = empty_entry \<and>
    gone (leftmost r F) (ks_obj ks') \<and> (\<forall>q. gone q (ks_obj ks) \<longrightarrow> gone q (ks_obj ks')) \<and>
    (\<forall>q. q \<noteq> leftmost r F \<longrightarrow> cap_asZombie (ce_cap (ks_store ks' q)) = cap_asZombie (ce_cap (ks_store ks q))) \<and>
    (\<forall>q. q \<notin> set (preorder F) \<longrightarrow> ce_cap (ks_store ks' q) = ce_cap (ks_store ks q)) \<and>
    (\<forall>q. q \<notin> set (r # preorder F @ ys) \<longrightarrow> ks_store ks' q = ks_store ks q)"
proof -
  let ?e = "leftmost r F"
  have e: "?e \<in> set (preorder F)" "?e \<noteq> r"
    using leftmost_in [OF F, of r] t by (auto simp: subtree_def ring_def)
  have "preorder F @ ys \<noteq> []"
    using F by (cases F) auto
  then obtain s0 s1 where w: "RevokeOperation_startTraversal r rootCap (ks_store ks) = Some (True, s0)"
    "RevokeOperation_findLockedLeaf ar (ks_obj ks) r s0 = Some (?e, s1)"
    "kill_frame (set (preorder F)) (ks_store ks) s1" "pair_locked (set (r # preorder F @ ys)) ?e s1"
    "cap_isZombie (ce_cap (s1 ?e))" "\<And>q. q \<notin> set (r # preorder F @ ys) \<Longrightarrow> s1 q = ks_store ks q"
    using walk_to_leaf [OF ar_zombie t _ c] F by blast
  let ?k1 = "ks\<lparr>ks_store := s1\<rparr>"
  have "cap_getPtr (cap_asZombie (ce_cap (s1 ?e))) = cap_getPtr (cap_asZombie (ce_cap (ks_store ks ?e)))"
    using w(3) by (simp add: kill_frame_def)
  then have guard: "cap_getPtr (ce_cap (s1 ?e)) \<noteq> ro_guarded (ks_op ks)"
    using g e(1) by simp
  have eD: "?e \<in> D"
    using D(1) e(1) by blast
  obtain k2 where d: "del (cap_getPtr (ce_cap (s1 ?e))) ?e (ce_cap (s1 ?e)) ?k1 = Some (Inr (), k2)"
    "ks_store k2 = s1" "queued ks k2" "inv D R s1 (ks_obj k2)"
    "\<And>q. q \<in> R \<Longrightarrow> q \<noteq> ?e \<Longrightarrow> live s1 q \<Longrightarrow> cap_range ar (ks_obj k2) q (ce_cap (s1 q)) = cap_range ar (ks_obj ks) q (ce_cap (s1 q))"
    "gone ?e (ks_obj k2)" "\<And>q. gone q (ks_obj ks) \<Longrightarrow> gone q (ks_obj k2)"
    using del_ok [of D R ?k1 ?e, OF _ eD] kill_frame_inv [OF w(3) i] w(5) by auto
  let ?k' = "k2\<lparr>ks_store := removed ?e s1\<rparr>"
  have st: "subtree ar ?k' r (drop_leaf F) ys"
    "Option.bind (CapEntry_unlink ?e s1) (CapEntry_reset ?e) = Some (removed ?e s1)"
    "\<And>q. q \<notin> set (r # preorder F @ ys) \<Longrightarrow> removed ?e s1 q = s1 q"
    using subtree_after_removal [OF t F w(3-5), of ?k'] d(5) D(2) by auto
  obtain u where u: "CapEntry_unlink ?e s1 = Some u" "CapEntry_reset ?e u = Some (removed ?e s1)"
    using st(2) by (auto simp: bind_eq_Some_conv)
  have "RevokeOperation_delete_round ar del r rootCap ks = Some (None, ?k')"
    using w(1,2,5) e(2) guard d(1,2) u by (simp add: RevokeOperation_delete_round_def)
  moreover have "ce_cap (removed ?e s1 q) = ce_cap (ks_store ks q)" if "q \<notin> set (preorder F)" for q
  proof -
    have "q \<noteq> ?e"
      using that e(1) by auto
    then show ?thesis
      using that w(3) by (simp add: kill_frame_def)
  qed
  ultimately show ?thesis
    using st(1,3) w(3,6) d(3,6,7) removed_inv [OF d(4)]
    by (intro exI [of _ ?k']) (simp add: kill_frame_def)
qed

text \<open>Round by round all children disappear; what remains to do is the same call on the bare root.\<close>

lemma delete_root_children:
  assumes "subtree ar ks r F ys" "inv D R (ks_store ks) (ks_obj ks)" "set (preorder F) \<subseteq> D" "set (r # preorder F @ ys) \<subseteq> R"
    and "cap_asZombie (ce_cap (ks_store ks r)) = cap_asZombie rootCap"
    and "\<And>q. q \<in> set (preorder F) \<Longrightarrow> cap_getPtr (ce_cap (ks_store ks q)) \<noteq> ro_guarded (ks_op ks)"
  shows "\<exists>ks'. RevokeOperation_delete_root ar del r rootCap ks = RevokeOperation_delete_root ar del r rootCap ks' \<and>
    subtree ar ks' r Leafless ys \<and> inv D R (ks_store ks') (ks_obj ks') \<and>
    queued ks ks' \<and> (\<forall>q\<in>set (preorder F). ks_store ks' q = empty_entry \<and> gone q (ks_obj ks')) \<and>
    (\<forall>q. gone q (ks_obj ks) \<longrightarrow> gone q (ks_obj ks')) \<and>
    (\<forall>q. q \<notin> set (preorder F) \<longrightarrow> ce_cap (ks_store ks' q) = ce_cap (ks_store ks q)) \<and>
    (\<forall>q. q \<notin> set (r # preorder F @ ys) \<longrightarrow> ks_store ks' q = ks_store ks q)"
  using assms
proof (induction "length (preorder F)" arbitrary: F ks)
  case 0
  then have "F = Leafless"
    by (cases F) auto
  with 0 show ?case
    by (intro exI [of _ ks]) simp
next
  case (Suc n)
  then have F: "F \<noteq> Leafless"
    by (cases F) auto
  obtain as bs where ab: "preorder F = as @ leftmost r F # bs" "preorder (drop_leaf F) = as @ bs"
    using leftmost_preorder [OF F] by blast
  have d: "distinct (r # preorder F @ ys)"
    using Suc.prems(1) by (simp add: subtree_def ring_def)
  obtain k1 where k1: "RevokeOperation_delete_round ar del r rootCap ks = Some (None, k1)"
    "subtree ar k1 r (drop_leaf F) ys" "inv D R (ks_store k1) (ks_obj k1)"
    "queued ks k1" "ks_store k1 (leftmost r F) = empty_entry"
    "\<And>q. q \<noteq> leftmost r F \<Longrightarrow> cap_asZombie (ce_cap (ks_store k1 q)) = cap_asZombie (ce_cap (ks_store ks q))"
    "\<And>q. q \<notin> set (preorder F) \<Longrightarrow> ce_cap (ks_store k1 q) = ce_cap (ks_store ks q)"
    "\<And>q. q \<notin> set (r # preorder F @ ys) \<Longrightarrow> ks_store k1 q = ks_store ks q"
    "gone (leftmost r F) (ks_obj k1)" "\<And>q. gone q (ks_obj ks) \<Longrightarrow> gone q (ks_obj k1)"
    using round_removes_leaf [OF Suc.prems(1) F Suc.prems(2-6)] by blast
  have g: "cap_getPtr (ce_cap (ks_store k1 q)) \<noteq> ro_guarded (ks_op k1)" if "q \<in> set (preorder (drop_leaf F))" for q
  proof -
    have "q \<in> set (preorder F)" "q \<noteq> leftmost r F"
      using that d ab by auto
    then show ?thesis
      using Suc.prems(6) [of q] queued_guarded [OF k1(4)] k1(6) [of q] by (metis cap_getPtr_zombie)
  qed
  have n: "n = length (preorder (drop_leaf F))"
    using Suc(2) drop_leaf_length [OF F] by simp
  have c: "cap_asZombie (ce_cap (ks_store k1 r)) = cap_asZombie rootCap"
    using k1(7) [of r] d Suc.prems(5) by simp
  have D': "set (preorder (drop_leaf F)) \<subseteq> D" "set (r # preorder (drop_leaf F) @ ys) \<subseteq> R"
    using Suc.prems(3,4) ab by auto
  obtain ks' where ks': "RevokeOperation_delete_root ar del r rootCap k1 = RevokeOperation_delete_root ar del r rootCap ks'"
    "subtree ar ks' r Leafless ys" "inv D R (ks_store ks') (ks_obj ks')"
    "queued k1 ks'" "\<And>q. q \<in> set (preorder (drop_leaf F)) \<Longrightarrow> ks_store ks' q = empty_entry"
    "\<And>q. q \<notin> set (preorder (drop_leaf F)) \<Longrightarrow> ce_cap (ks_store ks' q) = ce_cap (ks_store k1 q)"
    "\<And>q. q \<notin> set (r # preorder (drop_leaf F) @ ys) \<Longrightarrow> ks_store ks' q = ks_store k1 q"
    "\<And>q. q \<in> set (preorder (drop_leaf F)) \<Longrightarrow> gone q (ks_obj ks')" "\<And>q. gone q (ks_obj k1) \<Longrightarrow> gone q (ks_obj ks')"
    using Suc.hyps(1) [OF n k1(2,3) D' c g] by blast
  have "leftmost r F \<notin> set (r # preorder (drop_leaf F) @ ys)"
    using d ab by auto
  then have e: "ks_store ks' (leftmost r F) = empty_entry"
    using ks'(7) k1(5) by simp
  have "RevokeOperation_delete_root ar del r rootCap ks = RevokeOperation_delete_root ar del r rootCap ks'"
    using k1(1) ks'(1) by (subst RevokeOperation_delete_root.simps) simp
  then show ?case
    using ks'(2-9) queued_trans [OF k1(4) ks'(4)] k1(7-10) e ab by (intro exI [of _ ks']) auto
qed

text \<open>A revocation ends at the bare root, which keeps its capability and loses its revocation flag.\<close>

lemma delete_root_bare_usable:
  assumes t: "subtree ar ks r Leafless ys" and ys: "ys \<noteq> []" and z: "\<not> cap_isZombie rootCap"
    and c: "cap_asZombie (ce_cap (ks_store ks r)) = cap_asZombie rootCap"
  shows "\<exists>ks'. RevokeOperation_delete_root ar del r rootCap ks = Some (Inr (), ks') \<and> subtree ar ks' r Leafless ys \<and>
    ks_op ks' = ks_op ks \<and> ks_obj ks' = ks_obj ks \<and> \<not> isRevoking (ks_store ks') r \<and>
    (\<forall>q. ce_cap (ks_store ks' q) = ce_cap (ks_store ks q)) \<and>
    (\<forall>q. q \<notin> set (r # ys) \<longrightarrow> ks_store ks' q = ks_store ks q)"
proof -
  obtain s0 s1 where w: "RevokeOperation_startTraversal r rootCap (ks_store ks) = Some (True, s0)"
    "RevokeOperation_findLockedLeaf ar (ks_obj ks) r s0 = Some (r, s1)"
    "kill_frame {} (ks_store ks) s1" "pair_locked (set (r # ys)) r s1"
    "\<And>q. q \<notin> set (r # ys) \<Longrightarrow> s1 q = ks_store ks q"
    using walk_to_leaf [OF ar_zombie t _ c] ys by auto
  let ?s2 = "unlockp (prevp s1 r) (unlockp r (CapEntry_finishRevoke r s1))"
  have ring: "ring s1 (r # ys)"
    using t kill_frame_ring [OF w(3)] by (simp add: subtree_def)
  note n = ring_neighbours [OF ring ys]
  have l: "is_locked s1 r" "is_locked s1 (prevp s1 r)"
    using pair_lockedD [OF w(4)] n(2,4) by auto
  have caps: "ce_cap (s1 q) = ce_cap (ks_store ks q)" for q
    using w(3) by (simp add: kill_frame_def)
  have st: "subtree ar (ks\<lparr>ks_store := ?s2\<rparr>) r Leafless ys"
  proof -
    have "ring ?s2 (r # ys) = ring s1 (r # ys)"
      by (rule ring_cong) simp_all
    moreover have "quiet ?s2 (set (r # ys))"
      using w(4) t caps
      by (auto simp: quiet_def pair_locked_def subtree_def live_def)
    moreover have "parent_test ar (ks_obj ks) ?s2 = parent_test ar (ks_obj ks) (ks_store ks)"
      by (intro ext) (simp add: parent_test_def caps)
    ultimately show ?thesis
      using t ring by (simp add: subtree_def)
  qed
  have "unlock_both r (ks\<lparr>ks_store := CapEntry_finishRevoke r s1\<rparr>) = Some (ks\<lparr>ks_store := ?s2\<rparr>)"
    using l n(7,9) by (simp add: unlock_both_def step_simps)
  then have "RevokeOperation_delete_root ar del r rootCap ks = Some (Inr (), ks\<lparr>ks_store := ?s2\<rparr>)"
    using w(1,2) z by (subst RevokeOperation_delete_root.simps) (simp add: RevokeOperation_delete_round_def)
  moreover have "\<not> isRevoking ?s2 r"
    by simp
  moreover have "?s2 q = ks_store ks q" if "q \<notin> set (r # ys)" for q
    using that w(5) [OF that] n(2,4) by (auto simp: unlockp_def put_next_def CapEntry_finishRevoke_def put_prev_def)
  ultimately show ?thesis
    using st caps by (intro exI [of _ "ks\<lparr>ks_store := ?s2\<rparr>"]) simp
qed

text \<open>A deletion removes the root as well.\<close>

lemma delete_root_bare_zombie:
  assumes t: "subtree ar ks r Leafless ys" and ys: "ys \<noteq> []" and i: "inv D R (ks_store ks) (ks_obj ks)" and D: "r \<in> D"
    and z: "cap_isZombie rootCap" "ce_cap (ks_store ks r) = rootCap"
    and g: "cap_getPtr rootCap \<noteq> ro_guarded (ks_op ks)"
  shows "\<exists>ks'. RevokeOperation_delete_root ar del r rootCap ks = Some (Inr (), ks') \<and>
    queued ks ks' \<and> ring (ks_store ks') ys \<and> quiet (ks_store ks') (set ys) \<and> inv D R (ks_store ks') (ks_obj ks') \<and>
    ks_store ks' r = empty_entry \<and> gone r (ks_obj ks') \<and> (\<forall>q. gone q (ks_obj ks) \<longrightarrow> gone q (ks_obj ks')) \<and>
    (\<forall>q. q \<noteq> r \<longrightarrow> ce_cap (ks_store ks' q) = ce_cap (ks_store ks q)) \<and>
    (\<forall>q. q \<notin> set (r # ys) \<longrightarrow> ks_store ks' q = ks_store ks q)"
proof -
  obtain s0 s1 where w: "RevokeOperation_startTraversal r rootCap (ks_store ks) = Some (True, s0)"
    "RevokeOperation_findLockedLeaf ar (ks_obj ks) r s0 = Some (r, s1)"
    "kill_frame {} (ks_store ks) s1" "pair_locked (set (r # ys)) r s1"
    "\<And>q. q \<notin> set (r # ys) \<Longrightarrow> s1 q = ks_store ks q"
    using walk_to_leaf [OF ar_zombie t, of rootCap] z ys by auto
  have caps: "ce_cap (s1 q) = ce_cap (ks_store ks q)" for q
    using w(3) by (simp add: kill_frame_def)
  obtain k2 where d: "del (cap_getPtr rootCap) r rootCap (ks\<lparr>ks_store := s1\<rparr>) = Some (Inr (), k2)"
    "ks_store k2 = s1" "inv D R s1 (ks_obj k2)" "queued ks k2" "gone r (ks_obj k2)" "\<And>q. gone q (ks_obj ks) \<Longrightarrow> gone q (ks_obj k2)"
    using del_ok [of D R "ks\<lparr>ks_store := s1\<rparr>" r] kill_frame_inv [OF w(3) i] z caps D by auto
  have ring: "ring s1 (r # ys)"
    using t kill_frame_ring [OF w(3)] by (simp add: subtree_def)
  note rm = remove_leaf [OF ring ys]
  obtain u where u: "CapEntry_unlink r s1 = Some u" "CapEntry_reset r u = Some (removed r s1)"
    using rm(1) z caps by (auto simp: bind_eq_Some_conv)
  have "RevokeOperation_delete_root ar del r rootCap ks = Some (Inr (), k2\<lparr>ks_store := removed r s1\<rparr>)"
    using w(1,2) z g d(1,2) u caps
    by (subst RevokeOperation_delete_root.simps) (simp add: RevokeOperation_delete_round_def)
  moreover have "quiet (removed r s1) (set ys)"
  proof -
    have "q \<noteq> r" "is_locked s1 q \<longleftrightarrow> q = prevp s1 r" "live s1 q" if "q \<in> set ys" for q
      using that t pair_lockedD [OF w(4), of q] ring kill_frame_live [OF w(3)]
      by (auto simp: ring_def subtree_def quiet_def)
    then show ?thesis
      by (simp add: quiet_def)
  qed
  ultimately show ?thesis
    using rm(2,3) z caps w(5) removed_inv [OF d(3)] d(4-6)
    by (intro exI [of _ "k2\<lparr>ks_store := removed r s1\<rparr>"]) simp
qed

text \<open>Both together, for the two ways the traversal is used.\<close>

lemma delete_root_revoke:
  assumes t: "subtree ar ks r F ys" and ys: "ys \<noteq> []" and i: "inv (set (preorder F)) (set (r # preorder F @ ys)) (ks_store ks) (ks_obj ks)"
    and u: "cap_isUsable (ce_cap (ks_store ks r))"
    and g: "\<And>q. q \<in> set (preorder F) \<Longrightarrow> cap_getPtr (ce_cap (ks_store ks q)) \<noteq> ro_guarded (ks_op ks)"
  shows "\<exists>ks'. RevokeOperation_delete_root ar del r (ce_cap (ks_store ks r)) ks = Some (Inr (), ks') \<and>
    queued ks ks' \<and> subtree ar ks' r Leafless ys \<and> \<not> isRevoking (ks_store ks') r \<and>
    (\<forall>q\<in>set (preorder F). ks_store ks' q = empty_entry \<and> gone q (ks_obj ks')) \<and>
    (\<forall>q. q \<notin> set (preorder F) \<longrightarrow> ce_cap (ks_store ks' q) = ce_cap (ks_store ks q))"
proof -
  let ?k = "ce_cap (ks_store ks r)"
  have r: "r \<notin> set (preorder F)" "\<And>q. q \<in> set (preorder F) \<Longrightarrow> q \<notin> set (r # ys)"
    using t by (auto simp: subtree_def ring_def)
  obtain k1 where k1: "RevokeOperation_delete_root ar del r ?k ks = RevokeOperation_delete_root ar del r ?k k1"
    "subtree ar k1 r Leafless ys" "queued ks k1" "\<And>q. q \<in> set (preorder F) \<Longrightarrow> ks_store k1 q = empty_entry \<and> gone q (ks_obj k1)"
    "\<And>q. q \<notin> set (preorder F) \<Longrightarrow> ce_cap (ks_store k1 q) = ce_cap (ks_store ks q)"
    using delete_root_children [OF t i order_refl order_refl refl g] by blast
  have z: "\<not> cap_isZombie ?k"
    using u by (simp add: cap_state_defs)
  obtain ks' where "RevokeOperation_delete_root ar del r ?k k1 = Some (Inr (), ks')" "subtree ar ks' r Leafless ys"
    "ks_op ks' = ks_op k1" "ks_obj ks' = ks_obj k1" "\<not> isRevoking (ks_store ks') r" "\<And>q. ce_cap (ks_store ks' q) = ce_cap (ks_store k1 q)"
    "\<And>q. q \<notin> set (r # ys) \<Longrightarrow> ks_store ks' q = ks_store k1 q"
    using delete_root_bare_usable [OF k1(2) ys z] k1(5) [OF r(1)] by auto
  then show ?thesis
    using k1 r by (intro exI [of _ ks']) (auto simp: queued_def)
qed

lemma delete_root_delete:
  assumes t: "subtree ar ks r F ys" and ys: "ys \<noteq> []" and i: "inv (set (r # preorder F)) (set (r # preorder F @ ys)) (ks_store ks) (ks_obj ks)"
    and z: "cap_isZombie (ce_cap (ks_store ks r))"
    and g: "\<And>q. q \<in> set (r # preorder F) \<Longrightarrow> cap_getPtr (ce_cap (ks_store ks q)) \<noteq> ro_guarded (ks_op ks)"
  shows "\<exists>ks'. RevokeOperation_delete_root ar del r (ce_cap (ks_store ks r)) ks = Some (Inr (), ks') \<and>
    queued ks ks' \<and> ring (ks_store ks') ys \<and> quiet (ks_store ks') (set ys) \<and>
    inv (set (r # preorder F)) (set (r # preorder F @ ys)) (ks_store ks') (ks_obj ks') \<and>
    (\<forall>q\<in>set (r # preorder F). ks_store ks' q = empty_entry \<and> gone q (ks_obj ks')) \<and>
    (\<forall>q. q \<notin> set (r # preorder F) \<longrightarrow> ce_cap (ks_store ks' q) = ce_cap (ks_store ks q)) \<and>
    (\<forall>q. q \<notin> set (r # preorder F @ ys) \<longrightarrow> ks_store ks' q = ks_store ks q)"
proof -
  let ?k = "ce_cap (ks_store ks r)"
  have r: "r \<notin> set (preorder F)" "\<And>q. q \<in> set (preorder F) \<Longrightarrow> q \<notin> set (r # ys)"
    using t by (auto simp: subtree_def ring_def)
  have g1: "\<And>q. q \<in> set (preorder F) \<Longrightarrow> cap_getPtr (ce_cap (ks_store ks q)) \<noteq> ro_guarded (ks_op ks)"
    using g by simp
  obtain k1 where k1: "RevokeOperation_delete_root ar del r ?k ks = RevokeOperation_delete_root ar del r ?k k1"
    "subtree ar k1 r Leafless ys" "inv (set (r # preorder F)) (set (r # preorder F @ ys)) (ks_store k1) (ks_obj k1)" "queued ks k1"
    "\<And>q. q \<in> set (preorder F) \<Longrightarrow> ks_store k1 q = empty_entry \<and> gone q (ks_obj k1)"
    "\<And>q. q \<notin> set (preorder F) \<Longrightarrow> ce_cap (ks_store k1 q) = ce_cap (ks_store ks q)"
    "\<And>q. q \<notin> set (r # preorder F @ ys) \<Longrightarrow> ks_store k1 q = ks_store ks q"
    using delete_root_children [OF t i set_subset_Cons order_refl refl g1] by blast
  have gr: "cap_getPtr ?k \<noteq> ro_guarded (ks_op k1)"
    using g [of r] queued_guarded [OF k1(4)] by simp
  obtain ks' where ks': "RevokeOperation_delete_root ar del r ?k k1 = Some (Inr (), ks')" "queued k1 ks'"
    "ring (ks_store ks') ys" "quiet (ks_store ks') (set ys)" "inv (set (r # preorder F)) (set (r # preorder F @ ys)) (ks_store ks') (ks_obj ks')"
    "ks_store ks' r = empty_entry" "\<And>q. q \<noteq> r \<Longrightarrow> ce_cap (ks_store ks' q) = ce_cap (ks_store k1 q)"
    "\<And>q. q \<notin> set (r # ys) \<Longrightarrow> ks_store ks' q = ks_store k1 q" "gone r (ks_obj ks')" "\<And>q. gone q (ks_obj k1) \<Longrightarrow> gone q (ks_obj ks')"
    using delete_root_bare_zombie [OF k1(2) ys k1(3) _ z k1(6) [OF r(1)] gr] by auto
  then show ?thesis
    using k1 r queued_trans [OF k1(4) ks'(2)] by (intro exI [of _ ks']) auto
qed

lemma revoke_request:
  assumes t: "subtree ar ks r F ys" and ys: "ys \<noteq> []" and i: "inv (set (preorder F)) (set (r # preorder F @ ys)) (ks_store ks) (ks_obj ks)"
    and u: "cap_isUsable (ce_cap (ks_store ks r))" and l: "\<not> ro_lock (ks_op ks)"
    and g: "\<And>q. q \<in> set (preorder F) \<Longrightarrow> cap_getPtr (ce_cap (ks_store ks q)) \<noteq> guarded"
  shows "\<exists>ks'. RevokeOperation_revoke ar del res r guarded ks = Some ks' \<and>
    subtree ar ks' r Leafless ys \<and> \<not> isRevoking (ks_store ks') r \<and>
    (\<forall>q\<in>set (preorder F). ks_store ks' q = empty_entry \<and> gone q (ks_obj ks')) \<and>
    (\<forall>q. q \<notin> set (preorder F) \<longrightarrow> ce_cap (ks_store ks' q) = ce_cap (ks_store ks q)) \<and>
    answered res (ks_op ks) (ks_op ks')"
proof -
  let ?s = "put_prev r (ce_prev (ks_store ks r) OR REVOKING_FLAG) (ks_store ks)"
  let ?k0 = "ks\<lparr>ks_op := (ks_op ks)\<lparr>ro_res := res, ro_guarded := guarded, ro_lock := True\<rparr>, ks_store := ?s\<rparr>"
  have nl: "\<not> is_locked (ks_store ks) r"
    using t by (simp add: subtree_def quiet_def)
  have t0: "subtree ar ?k0 r F ys"
    using t by (subst subtree_cong [of _ ks]) (simp_all add: prevp_def)
  have i0: "inv (set (preorder F)) (set (r # preorder F @ ys)) (ks_store ?k0) (ks_obj ?k0)"
    using inv_store [OF i, of ?s] by simp
  obtain k1 where k1: "RevokeOperation_delete_root ar del r (ce_cap (ks_store ks r)) ?k0 = Some (Inr (), k1)"
    "queued ?k0 k1" "subtree ar k1 r Leafless ys" "\<not> isRevoking (ks_store k1) r"
    "\<And>q. q \<in> set (preorder F) \<Longrightarrow> ks_store k1 q = empty_entry \<and> gone q (ks_obj k1)"
    "\<And>q. q \<notin> set (preorder F) \<Longrightarrow> ce_cap (ks_store k1 q) = ce_cap (ks_store ks q)"
    using delete_root_revoke [OF t0 ys i0] u g by auto
  let ?k' = "RevokeOperation_startAsyncDelete (set_result SUCCESS k1)"
  have "RevokeOperation_revoke ar del res r guarded ks = Some ?k'"
    using k1(1) u nl setRevoking_unlock [OF nl]
    by (simp add: RevokeOperation_revoke_def begin_free [OF l] step_simps)
  moreover have "subtree ar ?k' r Leafless ys"
    using k1(3) by (subst subtree_cong [of _ k1]) simp_all
  moreover have "answered res (ks_op ks) (ks_op ?k')"
    using startAsyncDelete_answered [OF k1(2)] by (simp add: answered_def)
  ultimately show ?thesis
    using k1(4-6) by (intro exI [of _ ?k']) simp
qed

lemma delete_request:
  assumes t: "subtree ar ks r F ys" and ys: "ys \<noteq> []" and i: "inv (set (r # preorder F)) (set (r # preorder F @ ys)) (ks_store ks) (ks_obj ks)"
    and l: "\<not> ro_lock (ks_op ks)"
    and g: "\<And>q. q \<in> set (r # preorder F) \<Longrightarrow> cap_getPtr (ce_cap (ks_store ks q)) \<noteq> guarded"
  shows "\<exists>ks'. RevokeOperation_delete ar del res r guarded ks = Some ks' \<and>
    ring (ks_store ks') ys \<and> quiet (ks_store ks') (set ys) \<and>
    (\<forall>q\<in>set (r # preorder F). ks_store ks' q = empty_entry \<and> gone q (ks_obj ks')) \<and>
    (\<forall>q. q \<notin> set (r # preorder F) \<longrightarrow> ce_cap (ks_store ks' q) = ce_cap (ks_store ks q)) \<and>
    answered res (ks_op ks) (ks_op ks')"
proof -
  let ?s = "killp r (ks_store ks)"
  let ?k0 = "ks\<lparr>ks_op := (ks_op ks)\<lparr>ro_res := res, ro_guarded := guarded, ro_lock := True\<rparr>, ks_store := ?s\<rparr>"
  have lv: "live (ks_store ks) r"
    using t by (simp add: subtree_def quiet_def)
  have kf: "kill_frame {r} (ks_store ks) ?s"
    by (simp add: kill_frame_def)
  have "subtree ar ?k0 r F ys"
    using t kill_frame_parent_test [OF ar_zombie kf] kill_frame_ring [OF kf] kill_frame_live [OF kf]
    by (simp add: subtree_def quiet_def)
  moreover have "inv (set (r # preorder F)) (set (r # preorder F @ ys)) (ks_store ?k0) (ks_obj ?k0)"
    using kill_frame_inv [OF kf i] by simp
  moreover have "cap_isZombie (ce_cap (ks_store ?k0 r))"
    using lv by (simp add: live_def)
  moreover have "cap_getPtr (ce_cap (ks_store ?k0 q)) \<noteq> ro_guarded (ks_op ?k0)" if "q \<in> set (r # preorder F)" for q
    using g [OF that] by auto
  ultimately obtain k1 where k1:
    "RevokeOperation_delete_root ar del r (ce_cap (?s r)) ?k0 = Some (Inr (), k1)"
    "queued ?k0 k1" "ring (ks_store k1) ys" "quiet (ks_store k1) (set ys)"
    "\<And>q. q \<in> set (r # preorder F) \<Longrightarrow> ks_store k1 q = empty_entry \<and> gone q (ks_obj k1)"
    "\<And>q. q \<notin> set (r # preorder F) \<Longrightarrow> ce_cap (ks_store k1 q) = ce_cap (?s q)"
    using delete_root_delete [of ?k0 r F ys] ys by auto
  let ?k' = "RevokeOperation_startAsyncDelete (set_result SUCCESS k1)"
  have "RevokeOperation_delete ar del res r guarded ks = Some ?k'"
    using k1(1) lv by (simp add: RevokeOperation_delete_def begin_free [OF l] step_simps Let_def)
  moreover have "answered res (ks_op ks) (ks_op ?k')"
    using startAsyncDelete_answered [OF k1(2)] by (simp add: answered_def)
  ultimately show ?thesis
    using k1(3-6) by (intro exI [of _ ?k']) simp
qed

end

section \<open>The asynchronous phase\<close>

primrec responses :: "nat \<Rightarrow> 'w kstate \<Rightarrow> 'w kstate option" where
  "responses 0 ks = Some ks"
| "responses (Suc n) ks = Option.bind (RevokeOperation_response (Inr ()) ks) (responses n)"

lemma async_phase:
  assumes "ro_deleteQueue (ks_op ks) = ds"
  shows "\<exists>ks'. responses (Suc (length ds)) ks = Some ks' \<and> ks_store ks' = ks_store ks \<and>
    ro_deleteQueue (ks_op ks') = [] \<and> \<not> ro_lock (ks_op ks') \<and>
    ro_events (ks_op ks') = ro_events (ks_op ks) @ concat (map (\<lambda>d. [DeleteObject d, ResponseDone]) ds) @
      [Response (ro_res (ks_op ks)) (ro_result (ks_op ks)), RequestDone, ResponseDone]"
  using assms
proof (induction ds arbitrary: ks)
  case Nil
  then show ?case
    by (simp add: RevokeOperation_response_def RevokeOperation_deleteObject_def)
next
  case (Cons d ds)
  let ?k = "RevokeOperation_deleteObject ks"
  have "ro_deleteQueue (ks_op ?k) = ds" "ks_store ?k = ks_store ks" "ro_res (ks_op ?k) = ro_res (ks_op ks)"
    "ro_result (ks_op ?k) = ro_result (ks_op ks)"
    "ro_events (ks_op ?k) = ro_events (ks_op ks) @ [DeleteObject d, ResponseDone]"
    using Cons.prems by (simp_all add: RevokeOperation_deleteObject_def)
  then show ?case
    using Cons.IH [of ?k] by (simp add: RevokeOperation_response_def)
qed

text \<open>
  C9. The asynchronous phase of a deletion. With the answer to the broadcast and the answers to the
  deletions, one response more than there are queued objects, the operation deletes the objects one
  at a time in the order in which they were queued, then sends exactly one response with the result
  to the requester, finishes the request at the monitor and releases the operation.
\<close>

theorem async_phase_correct:
  "\<exists>ks'. responses (Suc (length (ro_deleteQueue (ks_op ks)))) ks = Some ks' \<and> ks_store ks' = ks_store ks \<and>
    ro_deleteQueue (ks_op ks') = [] \<and> \<not> ro_lock (ks_op ks') \<and>
    ro_events (ks_op ks') = ro_events (ks_op ks) @
      concat (map (\<lambda>d. [DeleteObject d, ResponseDone]) (ro_deleteQueue (ks_op ks))) @
      [Response (ro_res (ks_op ks)) (ro_result (ks_op ks)), RequestDone, ResponseDone]"
  by (rule async_phase) simp

end
