(* ===== verification/Kernel_Objects.thy ===== *)
theory Kernel_Objects
  imports Cap_Revoke Page_Map
begin

text \<open>
  Deletion through the objects. The revocation reaches the objects through the virtual method
  \<^verbatim>\<open>deleteCap\<close>. Here the method is dispatched over the objects of the world of page maps, and the
  contract of the revocation is shown for it: revoking or deleting a frame takes away every mapping
  of the frame. Objects whose deletion deletes entries of its own, such as a page map itself, call
  back into the deleter, which is an argument of their \<^verbatim>\<open>deleteCap\<close>.
\<close>

section \<open>Deletion of page maps\<close>

text \<open>The loop over the capability entries; the deleter of the entries is an argument.\<close>

fun delete_entries :: "(u64 \<Rightarrow> 'k \<Rightarrow> (unit optional \<times> 'k) option) \<Rightarrow> page_map \<Rightarrow> nat \<Rightarrow> u64 \<Rightarrow> 'k \<Rightarrow> (unit optional \<times> 'k) option" where
  "delete_entries deleteEntry m 0 i ks = Some (Inr (), ks)"
| "delete_entries deleteEntry m (Suc n) i ks = do {
     e \<leftarrow> PageMap_cap_table m i;
     (res, ks) \<leftarrow> deleteEntry e ks;
     ASSERT (\<not> opt_isError res);
     delete_entries deleteEntry m n (i + 1) ks }"

definition PageMap_deleteCap :: "(u64 \<Rightarrow> 'w kstate \<Rightarrow> (unit optional \<times> 'w kstate) option) \<Rightarrow> u64 \<Rightarrow> page_map \<Rightarrow> cap \<Rightarrow> 'w kstate
    \<Rightarrow> (unit optional \<times> 'w kstate) option" where
  "PageMap_deleteCap deleteEntry this m self ks =
     (if cap_isOriginal self then do {
        (res, ks) \<leftarrow> delete_entries deleteEntry m (unat (PageMap_num_caps (pm_level m))) 0 ks;
        Some (Inr (), RevokeOperation_deleteObject_push this ks) }
      else Some (Inr (), ks))"

section \<open>The dispatch\<close>

definition kw_del :: "(u64 \<Rightarrow> kworld kstate \<Rightarrow> (unit optional \<times> kworld kstate) option) \<Rightarrow> kworld delete_fun \<Rightarrow> kworld delete_fun" where
  "kw_del deleteEntry other p e k ks =
     (let w = ks_obj ks; push = (\<lambda>(d, r). Some (r, if d then RevokeOperation_deleteObject_push p ks else ks)) in
      if kw_capRefs w p \<noteq> None then other p e k ks else
      case kw_mem w p of Some _ \<Rightarrow> push (KernelMemory_deleteCap k) | None \<Rightarrow>
      case kw_regions w p of Some _ \<Rightarrow> push (MemoryRegion_deleteCap k) | None \<Rightarrow>
      case kw_devices w p of Some _ \<Rightarrow> Some (Inr (), ks) | None \<Rightarrow>
      case kw_maps w p of Some m \<Rightarrow> PageMap_deleteCap deleteEntry p m k ks | None \<Rightarrow>
      case kw_frameHelpers w p of Some q \<Rightarrow> do {
        m \<leftarrow> kw_maps w q; (r, w) \<leftarrow> MappedFrame_deleteCap m e w; Some (r, ks\<lparr>ks_obj := w\<rparr>) } | None \<Rightarrow>
      case kw_mapHelpers w p of Some q \<Rightarrow> do {
        m \<leftarrow> kw_maps w q; (r, w) \<leftarrow> MappedPageMap_deleteCap m e w; Some (r, ks\<lparr>ks_obj := w\<rparr>) } | None \<Rightarrow>
      if kw_deviceMemory w p then Some (Inr (), ks) else other p e k ks)"

section \<open>The contract\<close>

text \<open>The capability entries of a page map, and the page table entry that belongs to one.\<close>

definition map_slot :: "page_map \<Rightarrow> u64 \<Rightarrow> bool" where
  "map_slot m q \<longleftrightarrow> cap_index m q < PageMap_num_caps (pm_level m) \<and> q = pm_caps m + 16 * cap_index m q"

definition slot_pte :: "page_map \<Rightarrow> u64 \<Rightarrow> u64" where
  "slot_pte m q = pm_table m + 8 * cap_index m q"

definition slots_distinct :: "kworld \<Rightarrow> bool" where
  "slots_distinct w \<longleftrightarrow> (\<forall>p m p' m' q q'. kw_maps w p = Some m \<and> kw_maps w p' = Some m' \<and> map_slot m q \<and> map_slot m' q' \<longrightarrow>
     (slot_pte m q = slot_pte m' q' \<longrightarrow> q = q') \<and> (q = q' \<longrightarrow> slot_pte m q = slot_pte m' q'))"

text \<open>
  A capability of one of the simple kinds, whose deletion touches no entry and no page table: memory, a
  frame, the device memory, or a reference to a page map. A mapping is a capability to a helper object
  in an entry of the helper's page map.
\<close>

definition plain_cap :: "kworld \<Rightarrow> cap \<Rightarrow> bool" where
  "plain_cap w k \<longleftrightarrow> (let p = cap_getPtr k in kw_capRefs w p = None \<and>
     (kw_mem w p \<noteq> None \<or> kw_regions w p \<noteq> None \<or> kw_devices w p \<noteq> None \<or> kw_maps w p \<noteq> None \<and> \<not> cap_isOriginal k \<or>
      kw_maps w p = None \<and> kw_frameHelpers w p = None \<and> kw_mapHelpers w p = None \<and> kw_deviceMemory w p))"

definition mapping_cap :: "kworld \<Rightarrow> u64 \<Rightarrow> cap \<Rightarrow> page_map \<Rightarrow> bool" where
  "mapping_cap w q k m \<longleftrightarrow> (let p = cap_getPtr k in
     kw_capRefs w p = None \<and> kw_mem w p = None \<and> kw_regions w p = None \<and> kw_devices w p = None \<and> kw_maps w p = None \<and>
     (\<exists>a. (kw_frameHelpers w p = Some a \<or> kw_frameHelpers w p = None \<and> kw_mapHelpers w p = Some a) \<and> kw_maps w a = Some m) \<and> map_slot m q)"

text \<open>The object that answers for the range of a capability, and that it is no helper of a page map.\<close>

definition range_ptr :: "kworld \<Rightarrow> cap \<Rightarrow> u64" where
  "range_ptr w k = (case kw_capRefs w (cap_getPtr k) of Some obj \<Rightarrow> cap_getPtr obj | None \<Rightarrow> cap_getPtr k)"

definition no_helper :: "kworld \<Rightarrow> u64 \<Rightarrow> bool" where
  "no_helper w p \<longleftrightarrow> kw_mem w p \<noteq> None \<or> kw_regions w p \<noteq> None \<or> kw_devices w p \<noteq> None \<or> kw_maps w p \<noteq> None \<or>
     kw_frameHelpers w p = None \<and> kw_mapHelpers w p = None"

text \<open>
  The entries \<open>D\<close> to be deleted hold simple capabilities, outside the page maps, or mappings. An entry
  of \<open>R\<close> may hold any capability, also the original of a page map or a capability to an object of
  another kind, as long as capabilities to the helpers are mappings.
\<close>

definition kw_inv :: "u64 set \<Rightarrow> u64 set \<Rightarrow> store \<Rightarrow> kworld \<Rightarrow> bool" where
  "kw_inv D R s w \<longleftrightarrow> slots_distinct w \<and>
     (\<forall>q\<in>D. live s q \<longrightarrow> plain_cap w (ce_cap (s q)) \<and> (\<forall>p m. kw_maps w p = Some m \<longrightarrow> \<not> map_slot m q) \<or>
        (\<exists>m. mapping_cap w q (ce_cap (s q)) m)) \<and>
     (\<forall>q\<in>R. live s q \<longrightarrow> no_helper w (range_ptr w (ce_cap (s q))) \<or> (\<exists>m. mapping_cap w q (ce_cap (s q)) m))"

definition mapping_gone :: "u64 \<Rightarrow> kworld \<Rightarrow> bool" where
  "mapping_gone q w \<longleftrightarrow> (\<forall>p m. kw_maps w p = Some m \<and> map_slot m q \<longrightarrow> \<not> pte_present (kw_pte w (slot_pte m q)))"

lemma zombie_eq_reads:
  "cap_asZombie k = cap_asZombie k' \<Longrightarrow> cap_getPtr k = cap_getPtr k' \<and> cap_isOriginal k = cap_isOriginal k' \<and> (f_ptr k = 0 \<longleftrightarrow> f_ptr k' = 0)"
  by (metis cap_asZombie_def cap_asZombie_flags(3) cap_getPtr_zombie f_ptr_set(1))

lemma kw_inv_store:
  assumes "kw_inv D R s w" "\<And>q. cap_asZombie (ce_cap (s' q)) = cap_asZombie (ce_cap (s q)) \<or> s' q = empty_entry"
  shows "kw_inv D R s' w"
proof -
  have r: "live s q \<and> cap_getPtr (ce_cap (s' q)) = cap_getPtr (ce_cap (s q)) \<and> cap_isOriginal (ce_cap (s' q)) = cap_isOriginal (ce_cap (s q))"
    if "live s' q" for q
    using assms(2) [of q] that zombie_eq_reads [of "ce_cap (s' q)" "ce_cap (s q)"]
    by (auto simp: live_def empty_entry_def cap_null_def)
  have "plain_cap w (ce_cap (s' q)) = plain_cap w (ce_cap (s q))" "mapping_cap w q (ce_cap (s' q)) = mapping_cap w q (ce_cap (s q))"
    "range_ptr w (ce_cap (s' q)) = range_ptr w (ce_cap (s q))" "live s q" if "live s' q" for q
    using r [OF that] by (simp_all add: plain_cap_def mapping_cap_def range_ptr_def fun_eq_iff Let_def split: option.splits)
  then show ?thesis
    using assms(1) unfolding kw_inv_def by simp
qed

lemma kw_ar_zombie: "zombie_blind kw_ar w"
  unfolding zombie_blind_def kw_ar_def kw_range_def MemoryRegion_addressRange_def Region_addressRange_def cap_asZombie_flags
  by (intro allI refl)

lemma push_queued: "queued ks (RevokeOperation_deleteObject_push p ks)"
  by (auto simp: queued_def RevokeOperation_deleteObject_push_def)

lemma push_simps [simp]:
  "ks_store (RevokeOperation_deleteObject_push p ks) = ks_store ks" "ks_obj (RevokeOperation_deleteObject_push p ks) = ks_obj ks"
  by (simp_all add: RevokeOperation_deleteObject_push_def)

lemma del_plain:
  assumes "plain_cap (ks_obj ks) k"
  shows "\<exists>ks'. kw_del deleteEntry other (cap_getPtr k) e k ks = Some (Inr (), ks') \<and> ks_store ks' = ks_store ks \<and> queued ks ks' \<and> ks_obj ks' = ks_obj ks"
proof -
  have "\<exists>ks'\<in>{ks, RevokeOperation_deleteObject_push (cap_getPtr k) ks}. kw_del deleteEntry other (cap_getPtr k) e k ks = Some (Inr (), ks')"
    using assms
    by (cases "kw_mem (ks_obj ks) (cap_getPtr k)"; cases "kw_regions (ks_obj ks) (cap_getPtr k)"; cases "kw_devices (ks_obj ks) (cap_getPtr k)")
      (auto simp: kw_del_def plain_cap_def KernelMemory_deleteCap_def MemoryRegion_deleteCap_def PageMap_deleteCap_def Let_def)
  then show ?thesis
    using push_queued [of ks] by auto
qed

lemma reset_slot:
  assumes "map_slot m q"
  obtains e where "Option.bind (PageMap_pm_table m (cap_index m q)) (\<lambda>a. PageTableEntry_reset a w) = Some (pte_put (slot_pte m q) e w)" "\<not> pte_present e"
proof (rule that)
  have "drop_bit 10 (pte_pmPtr (kw_pte w (slot_pte m q))) = 0"
    using pmPtr_bound by (simp add: drop_bit_zero_iff)
  then show "Option.bind (PageMap_pm_table m (cap_index m q)) (\<lambda>a. PageTableEntry_reset a w) =
      Some (pte_put (slot_pte m q) (UIntField_put 52 10 0 (pte_pmPtr (kw_pte w (slot_pte m q)))) w)"
    using num_caps_bound(1) [of "cap_index m q"] assms by (auto simp: map_slot_def PageMap_pm_table_def PageTableEntry_reset_def UIntField_call_def slot_pte_def)
  show "\<not> pte_present (UIntField_put 52 10 0 (pte_pmPtr (kw_pte w (slot_pte m q))))"
    by (simp add: pte_present_def field_laws) (simp add: BoolField_get_def)
qed

lemma del_mapping:
  assumes "mapping_cap (ks_obj ks) q k m"
  shows "\<exists>e. kw_del deleteEntry other (cap_getPtr k) q k ks = Some (Inr (), ks\<lparr>ks_obj := pte_put (slot_pte m q) e (ks_obj ks)\<rparr>) \<and> \<not> pte_present e"
proof -
  let ?w = "ks_obj ks" and ?p = "cap_getPtr k"
  have m: "map_slot m q"
    using assms by (simp add: mapping_cap_def Let_def)
  obtain e where e: "Option.bind (PageMap_pm_table m (cap_index m q)) (\<lambda>a. PageTableEntry_reset a ?w) = Some (pte_put (slot_pte m q) e ?w)" "\<not> pte_present e"
    by (rule reset_slot [OF m])
  then have "MappedFrame_deleteCap m q ?w = Some (Inr (), pte_put (slot_pte m q) e ?w)" "MappedPageMap_deleteCap m q ?w = Some (Inr (), pte_put (slot_pte m q) e ?w)"
    by (auto simp: MappedFrame_deleteCap_def MappedPageMap_deleteCap_def bind_eq_Some_conv)
  then show ?thesis
    using assms e(2) by (auto simp: kw_del_def mapping_cap_def Let_def)
qed

text \<open>The range of a capability does not depend on the mapping of another entry.\<close>

lemma range_no_helper_object: "no_helper w p \<Longrightarrow> kw_range (pte_put a v w) p q k = kw_range w p q k"
  by (cases "kw_mem w p"; cases "kw_regions w p"; cases "kw_devices w p"; cases "kw_maps w p")
    (simp_all add: kw_range_def no_helper_def pte_put_def)

lemma range_no_helper: "no_helper w (range_ptr w k) \<Longrightarrow> kw_ar (pte_put a v w) (cap_getPtr k) q k = kw_ar w (cap_getPtr k) q k"
  using range_no_helper_object [of w _ a v q] by (auto simp: kw_ar_def range_ptr_def pte_put_def split: option.splits)

lemma range_mapping:
  assumes "mapping_cap w q k m" "slot_pte m q \<noteq> a"
  shows "kw_ar (pte_put a v w) (cap_getPtr k) q k = kw_ar w (cap_getPtr k) q k"
  using assms
  by (auto simp: kw_ar_def kw_range_def mapping_cap_def pte_put_def MappedFrame_addressRange_def MappedPageMap_addressRange_def
    PageMap_pm_table_def slot_pte_def Let_def map_slot_def num_caps_bound(1))

lemma kw_inv_put: "kw_inv D R s (pte_put a v w) = kw_inv D R s w"
  by (simp add: kw_inv_def slots_distinct_def plain_cap_def mapping_cap_def range_ptr_def no_helper_def pte_put_def)

lemma slots_distinctD:
  "slots_distinct w \<Longrightarrow> kw_maps w p = Some m \<Longrightarrow> kw_maps w p' = Some m' \<Longrightarrow> map_slot m q \<Longrightarrow> map_slot m' q' \<Longrightarrow>
   slot_pte m q = slot_pte m' q' \<longleftrightarrow> q = q'"
  unfolding slots_distinct_def by blast

lemma queued_obj: "queued ks (ks\<lparr>ks_obj := w\<rparr>)"
  by (auto simp: queued_def intro!: exI [of _ "[]"])

lemma kw_del_ok:
  assumes i: "kw_inv D R (ks_store ks) (ks_obj ks)" and D: "e \<in> D" and z: "cap_isZombie (ce_cap (ks_store ks e))"
  shows "\<exists>ks'. kw_del deleteEntry other (cap_getPtr (ce_cap (ks_store ks e))) e (ce_cap (ks_store ks e)) ks = Some (Inr (), ks') \<and>
    ks_store ks' = ks_store ks \<and> queued ks ks' \<and> kw_inv D R (ks_store ks') (ks_obj ks') \<and>
    mapping_gone e (ks_obj ks') \<and> (\<forall>q. mapping_gone q (ks_obj ks) \<longrightarrow> mapping_gone q (ks_obj ks')) \<and>
    (\<forall>q\<in>R. q \<noteq> e \<and> live (ks_store ks) q \<longrightarrow>
       cap_range kw_ar (ks_obj ks') q (ce_cap (ks_store ks q)) = cap_range kw_ar (ks_obj ks) q (ce_cap (ks_store ks q)))"
proof -
  let ?w = "ks_obj ks" and ?k = "ce_cap (ks_store ks e)"
  have "live (ks_store ks) e"
    using z by (simp add: live_def cap_state_defs)
  then consider "plain_cap ?w ?k" "\<And>p m. kw_maps ?w p = Some m \<Longrightarrow> \<not> map_slot m e" | m where "mapping_cap ?w e ?k m"
    using i D unfolding kw_inv_def by blast
  then show ?thesis
  proof cases
    case 1
    obtain ks' where "kw_del deleteEntry other (cap_getPtr ?k) e ?k ks = Some (Inr (), ks')" "ks_store ks' = ks_store ks" "queued ks ks'" "ks_obj ks' = ?w"
      using del_plain [OF 1(1)] by blast
    moreover have "mapping_gone e ?w"
      using 1(2) by (auto simp: mapping_gone_def)
    ultimately show ?thesis
      using i by (intro exI [of _ ks']) simp
  next
    case 2
    obtain v where d: "kw_del deleteEntry other (cap_getPtr ?k) e ?k ks = Some (Inr (), ks\<lparr>ks_obj := pte_put (slot_pte m e) v ?w\<rparr>)" "\<not> pte_present v"
      using del_mapping [OF 2] by blast
    obtain a where a: "kw_maps ?w a = Some m" "map_slot m e"
      using 2 by (auto simp: mapping_cap_def Let_def)
    have sd: "slots_distinct ?w"
      using i by (simp add: kw_inv_def)
    have "cap_range kw_ar (pte_put (slot_pte m e) v ?w) q (ce_cap (ks_store ks q)) = cap_range kw_ar ?w q (ce_cap (ks_store ks q))"
      if ne: "q \<noteq> e" and l: "live (ks_store ks) q" "q \<in> R" for q
    proof -
      consider "no_helper ?w (range_ptr ?w (ce_cap (ks_store ks q)))" | m' where "mapping_cap ?w q (ce_cap (ks_store ks q)) m'"
        using i l unfolding kw_inv_def by blast
      then show ?thesis
      proof cases
        case 2
        then obtain b where "kw_maps ?w b = Some m'" "map_slot m' q"
          by (auto simp: mapping_cap_def Let_def)
        then have "slot_pte m' q \<noteq> slot_pte m e"
          using slots_distinctD [OF sd _ a(1) _ a(2)] ne by blast
        then show ?thesis
          using range_mapping [OF 2] by simp
      qed (rule range_no_helper)
    qed
    moreover have "mapping_gone e (pte_put (slot_pte m e) v ?w)"
      using slots_distinctD [OF sd _ a(1) _ a(2)] d(2) by (auto simp: mapping_gone_def pte_put_def)
    moreover have "mapping_gone q (pte_put (slot_pte m e) v ?w)" if "mapping_gone q ?w" for q
      using that d(2) by (auto simp: mapping_gone_def pte_put_def)
    ultimately show ?thesis
      using d(1) i by (intro exI [of _ "ks\<lparr>ks_obj := pte_put (slot_pte m e) v ?w\<rparr>"]) (simp add: kw_inv_put queued_obj)
  qed
qed

interpretation kobj: kernel_objects kw_ar "kw_del deleteEntry other" kw_inv mapping_gone for deleteEntry other
  by unfold_locales (fact kw_ar_zombie kw_inv_store kw_del_ok)+

section \<open>An example\<close>

text \<open>
  The frame of the root entry is mapped at the first slot of a page map; behind it the ring holds the
  capability to an object of another kind and the original capability of the page map.
\<close>

definition ex_slot :: u64 where "ex_slot = 0xffff800000030000"
definition ex_fourth :: u64 where "ex_fourth = 0xffff800000005000"

definition ex_mapped :: store where
  "ex_mapped = (\<lambda>_. empty_entry)
     (ex_root := \<lparr>ce_cap = ex_cap, ce_prev = 0x5000, ce_next = 0x30000\<rparr>,
      ex_slot := \<lparr>ce_cap = 0x40002008, ce_prev = 0x1000, ce_next = 0x3000\<rparr>,
      ex_third := \<lparr>ce_cap = 0x800, ce_prev = 0x30000, ce_next = 0x5000\<rparr>,
      ex_fourth := \<lparr>ce_cap = 0x2000, ce_prev = 0x3000, ce_next = 0x1000\<rparr>)"

definition ex_mapped_world :: kworld where
  "ex_mapped_world = ex_world
     \<lparr>kw_pte := (\<lambda>_. 0)(0xffff800000020000 := 0x100001)\<rparr>"

definition ex_state :: "kworld kstate" where
  "ex_state = \<lparr>ks_store = ex_mapped,
     ks_op = \<lparr>ro_deleteQueue = [], ro_res = 0, ro_guarded = 0, ro_result = SUCCESS, ro_lock = False, ro_events = []\<rparr>,
     ks_obj = ex_mapped_world\<rparr>"

lemma ex_slot_ok [simp]:
  "obj_ptr_ok ex_slot" "ex_slot \<noteq> ex_root" "ex_root \<noteq> ex_slot" "ex_slot \<noteq> ex_third" "ex_third \<noteq> ex_slot"
  "obj_ptr_ok ex_fourth" "ex_fourth \<noteq> ex_root" "ex_root \<noteq> ex_fourth" "ex_fourth \<noteq> ex_third" "ex_third \<noteq> ex_fourth" "ex_fourth \<noteq> ex_slot" "ex_slot \<noteq> ex_fourth"
  "link_ptr 0x3000 = ex_third" "link_ptr 0x30000 = ex_slot" "link_ptr 0x5000 = ex_fourth"
  by (simp_all add: obj_ptr_ok_def isKernelAddress_def layout_defs ex_slot_def ex_root_def ex_third_def ex_fourth_def
    link_ptr_def link_offset_def link_flag_defs)

lemma ex_mapped_simps [simp]:
  "ce_cap (ex_mapped ex_root) = ex_cap" "ce_cap (ex_mapped ex_slot) = 0x40002008" "ce_cap (ex_mapped ex_third) = 0x800" "ce_cap (ex_mapped ex_fourth) = 0x2000"
  "nextp ex_mapped ex_root = ex_slot" "nextp ex_mapped ex_slot = ex_third" "nextp ex_mapped ex_third = ex_fourth" "nextp ex_mapped ex_fourth = ex_root"
  "prevp ex_mapped ex_root = ex_fourth" "prevp ex_mapped ex_fourth = ex_third" "prevp ex_mapped ex_slot = ex_root" "prevp ex_mapped ex_third = ex_slot"
  "\<not> is_locked ex_mapped ex_root" "\<not> is_locked ex_mapped ex_slot" "\<not> is_locked ex_mapped ex_third" "\<not> is_locked ex_mapped ex_fourth"
  by (simp_all add: ex_mapped_def nextp_def prevp_def is_locked_bit bit_numeral_rec)

lemma ex_mapped_caps [simp]:
  "cap_getPtr 0x40002008 = 0xffff800000010040" "cap_getPtr 0x800 = 0xffff800000004000" "cap_getPtr ex_cap = 0xffff800000002000" "cap_getPtr 0x2000 = 0xffff800000010000"
  "cap_isUsable 0x40002008" "cap_isUsable 0x800" "cap_isUsable 0x2000" "cap_isOriginal 0x2000"
  "cap_isReference 0x40002008" "\<not> cap_isDerived 0x40002008" "cap_isOriginal 0x800" "cap_isOriginal ex_cap"
  by (simp_all add: cap_getPtr_def cap_state_defs f_ptr_def f_trans_def f_ref_def f_der_def ex_cap_def UIntField_get_def
    UIntField_MASK_def BoolField_get_def BoolField_MASK_def KERNELMEM_ADDR_def)

lemma ex_mapped_live: "live ex_mapped q \<longleftrightarrow> q = ex_root \<or> q = ex_slot \<or> q = ex_third \<or> q = ex_fourth"
proof -
  have "cap_isUsable (ce_cap (ex_mapped q))" if "q = ex_root \<or> q = ex_slot \<or> q = ex_third \<or> q = ex_fourth"
    using that by auto
  moreover have "ex_mapped q = empty_entry" if "\<not> (q = ex_root \<or> q = ex_slot \<or> q = ex_third \<or> q = ex_fourth)"
    using that by (simp add: ex_mapped_def)
  moreover have "live ex_mapped q" if "cap_isUsable (ce_cap (ex_mapped q))"
    using that by (simp add: live_def cap_state_defs)
  moreover have "\<not> live ex_mapped q" if "ex_mapped q = empty_entry"
    using that by (simp add: live_def empty_entry_def cap_null_def f_ptr_def UIntField_get_def)
  ultimately show ?thesis
    by blast
qed

lemma ex_mapped_ranges:
  "cap_range kw_ar ex_mapped_world ex_root ex_cap = Some (mk_range 0x100000 0x104000)"
  "cap_range kw_ar ex_mapped_world ex_slot 0x40002008 = Some (mk_range 0x100000 0x101000)"
  "cap_range kw_ar ex_mapped_world ex_third 0x800 = Some (mk_range 0x4000 0x4001)"
  by (simp_all add: kw_ar_def kw_range_def ex_mapped_world_def ex_world_def ex_child_def MemoryRegion_addressRange_def
    FrameData_getStart_def cap_data_def f_data_def fd_offset_def UIntField_get_def UIntField_MASK_def range_bySize_def
    MappedFrame_addressRange_def cap_index_def ex_map_def pm_caps_def ex_slot_def PageMap_pm_table_def pm_table_def TABLE_SIZE_def
    pte_getAddr_def PageMap_pageSize_def Let_def ex_region_def IKernelObject_addressRange_def physPtr_fromKernel_def isKernelAddress_def layout_defs)
    (simp_all add: ex_cap_def)

lemma single_slots:
  assumes "\<And>p m. kw_maps w p = Some m \<Longrightarrow> m = m0"
  shows "slots_distinct w"
proof -
  have "q = q'" if "map_slot m0 q" "map_slot m0 q'" "slot_pte m0 q = slot_pte m0 q'" for q q'
  proof -
    have "unat (8 * cap_index m0 x) = 8 * unat (cap_index m0 x)" if "map_slot m0 x" for x
      using that num_caps_bound(1) [of "cap_index m0 x" "pm_level m0"]
      by (subst unat_mult_lem [THEN iffD1]) (auto simp: map_slot_def TABLE_SIZE_def word_less_nat_alt)
    then have "cap_index m0 q = cap_index m0 q'"
      using that by (metis add_left_imp_eq mult_cancel_left slot_pte_def word_unat_eq_iff zero_neq_numeral)
    then show ?thesis
      using that(1,2) by (simp add: map_slot_def)
  qed
  then show ?thesis
    using assms unfolding slots_distinct_def by blast
qed

lemma ex_state_ok: "subtree kw_ar ex_state ex_root (Tree ex_slot Leafless Leafless) [ex_third, ex_fourth]" "subtree kw_ar ex_state ex_slot Leafless [ex_third, ex_fourth, ex_root]"
  "kw_inv {ex_slot} {ex_root, ex_slot, ex_third, ex_fourth} (ks_store ex_state) (ks_obj ex_state)"
proof -
  have c: "range_contains (mk_range 0x100000 0x104000) (mk_range 0x100000 0x101000)"
    "\<not> range_contains (mk_range 0x100000 0x104000) (mk_range 0x4000 0x4001)"
    by (simp_all add: range_contains_def)
  have d: "\<not> cap_isDerivedReference 0x40002008" "\<not> cap_isDerivedReference 0x800" "\<not> cap_isDerived ex_cap" "\<not> cap_isReference ex_cap"
    using ex_mapped_caps(9-12) by (simp_all add: cap_isDerivedReference_def cap_isOriginal_def)
  have p: "parent_test kw_ar ex_mapped_world ex_mapped ex_root ex_slot = Some True" "parent_test kw_ar ex_mapped_world ex_mapped ex_slot ex_third = Some False"
    "parent_test kw_ar ex_mapped_world ex_mapped ex_root ex_third = Some False"
    using c d by (simp_all add: parent_test_def isParentOf_total ex_mapped_ranges [simplified])
  show "subtree kw_ar ex_state ex_root (Tree ex_slot Leafless Leafless) [ex_third, ex_fourth]" "subtree kw_ar ex_state ex_slot Leafless [ex_third, ex_fourth, ex_root]"
    by (simp_all add: subtree_def ex_state_def p quiet_def ex_mapped_live ring_def)
  have "slots_distinct ex_mapped_world"
    by (rule single_slots [of _ ex_map]) (simp add: ex_mapped_world_def ex_world_def split: if_splits)
  moreover have "map_slot ex_map ex_slot" "\<not> map_slot ex_map ex_root" "\<not> map_slot ex_map ex_third"
    by (simp_all add: map_slot_def cap_index_def ex_map_def pm_caps_def ex_slot_def ex_root_def ex_third_def PageMap_num_caps_def TABLE_SIZE_def)
  ultimately show "kw_inv {ex_slot} {ex_root, ex_slot, ex_third, ex_fourth} (ks_store ex_state) (ks_obj ex_state)"
    by (auto simp: kw_inv_def ex_state_def ex_mapped_live mapping_cap_def range_ptr_def no_helper_def ex_mapped_world_def ex_world_def ex_child_def)
qed



text \<open>
  C29. Deletion removes a capability together with everything below it. Let the conditions on the
  entries below \<open>r\<close> hold for \<open>r\<close> as well. Then deleting \<open>r\<close> returns: \<open>r\<close> and all entries below it are
  empty, the page table entries they stood for are not present, the rest of the tree stays linked and
  unlocked with its capabilities, and the requester is answered at once or after the deletion broadcast.
\<close>

theorem delete_removes_subtree:
  assumes "subtree kw_ar ks r F ys" "ys \<noteq> []" "kw_inv (set (r # preorder F)) (set (r # preorder F @ ys)) (ks_store ks) (ks_obj ks)" "\<not> ro_lock (ks_op ks)"
    and "\<forall>q\<in>set (r # preorder F). cap_getPtr (ce_cap (ks_store ks q)) \<noteq> guarded"
  shows "\<exists>ks'. RevokeOperation_delete kw_ar (kw_del deleteEntry other) res r guarded ks = Some ks' \<and>
    ring (ks_store ks') ys \<and> quiet (ks_store ks') (set ys) \<and>
    (\<forall>q\<in>set (r # preorder F). ks_store ks' q = empty_entry \<and> mapping_gone q (ks_obj ks')) \<and>
    (\<forall>q. q \<notin> set (r # preorder F) \<longrightarrow> ce_cap (ks_store ks' q) = ce_cap (ks_store ks q)) \<and>
    answered res (ks_op ks) (ks_op ks')"
  by (rule kobj.delete_request [OF assms(1-4)]) (use assms(5) in blast)

theorem delete_removes_subtree_witness:
  "subtree kw_ar ex_state ex_slot Leafless [ex_third, ex_fourth, ex_root] \<and>
   (\<exists>ks'. RevokeOperation_delete kw_ar (kw_del (\<lambda>e ks. None) (\<lambda>p e k ks. None)) 0 ex_slot 1 ex_state = Some ks' \<and>
      ring (ks_store ks') [ex_third, ex_fourth, ex_root] \<and> ks_store ks' ex_slot = empty_entry \<and> mapping_gone ex_slot (ks_obj ks'))"
proof -
  have i: "kw_inv (set (ex_slot # preorder Leafless)) (set (ex_slot # preorder Leafless @ [ex_third, ex_fourth, ex_root])) (ks_store ex_state) (ks_obj ex_state)"
    using ex_state_ok(3) by (simp add: insert_commute)
  show ?thesis
    using ex_state_ok(2) delete_removes_subtree [OF ex_state_ok(2) _ i, of 1 "\<lambda>e ks. None" "\<lambda>p e k ks. None" 0]
    by (auto simp: ex_state_def)
qed

end
