(* ===== verification/Linked_List.thy ===== *)
theory Linked_List
  imports Mythos_Prelude
begin

text \<open>
  The intrusive FIFO list of handles (\<^verbatim>\<open>LinkedList\<close>), which holds the ready execution contexts of a
  scheduler, the kernel events of an execution context and the listeners of a signal. The operations
  are modelled on the pointers, as the code has them: a head, a pointer to the last next field, and the
  next fields inside the handles. All operations run under the mutex of the list, so that each of them
  is one step. A handle is a member of one list at a time; its next field is part of that list's state.
\<close>

section \<open>Model\<close>

datatype ll_ref = HeadRef | NextRef u64

record linked_list =
  ll_head :: u64
  ll_tail :: ll_ref
  ll_next :: "u64 \<Rightarrow> u64"

definition LinkedList_init :: linked_list where
  "LinkedList_init = \<lparr>ll_head = 0, ll_tail = HeadRef, ll_next = (\<lambda>_. 0)\<rparr>"

definition LinkedList_empty :: "linked_list \<Rightarrow> bool" where
  "LinkedList_empty l \<longleftrightarrow> ll_head l = 0"

definition LinkedList_peek :: "linked_list \<Rightarrow> u64" where
  "LinkedList_peek l = ll_head l"

text \<open>Writing through the tail pointer.\<close>

definition ll_store :: "ll_ref \<Rightarrow> u64 \<Rightarrow> linked_list \<Rightarrow> linked_list" where
  "ll_store r v l = (case r of HeadRef \<Rightarrow> l\<lparr>ll_head := v\<rparr> | NextRef p \<Rightarrow> l\<lparr>ll_next := (ll_next l)(p := v)\<rparr>)"

definition LinkedList_push :: "u64 \<Rightarrow> linked_list \<Rightarrow> linked_list option" where
  "LinkedList_push item l = do {
     ASSERT (item \<noteq> 0);
     let l = l\<lparr>ll_next := (ll_next l)(item := 0)\<rparr>;
     let l = ll_store (ll_tail l) item l;
     Some (l\<lparr>ll_tail := NextRef item\<rparr>) }"

definition LinkedList_pull :: "linked_list \<Rightarrow> u64 \<times> linked_list" where
  "LinkedList_pull l =
     (if ll_head l \<noteq> 0 then
        let result = ll_head l;
            l = l\<lparr>ll_head := ll_next l result\<rparr>;
            l = (if LinkedList_empty l then l\<lparr>ll_tail := HeadRef\<rparr> else l)
        in (result, l)
      else (0, l))"

definition LinkedList_rotate :: "linked_list \<Rightarrow> (u64 \<times> linked_list) option" where
  "LinkedList_rotate l =
     (case LinkedList_pull l of (res, l) \<Rightarrow>
        if res \<noteq> 0 then do { l \<leftarrow> LinkedList_push res l; Some (res, l) } else Some (res, l))"

partial_function (option) LinkedList_map_loop :: "(u64 \<Rightarrow> 'a \<Rightarrow> 'a option) \<Rightarrow> u64 \<Rightarrow> linked_list \<Rightarrow> 'a \<Rightarrow> 'a option" where
  "LinkedList_map_loop fun cur l a =
     (if cur \<noteq> 0 then do { a \<leftarrow> fun cur a; LinkedList_map_loop fun (ll_next l cur) l a } else Some a)"

definition LinkedList_map :: "(u64 \<Rightarrow> 'a \<Rightarrow> 'a option) \<Rightarrow> linked_list \<Rightarrow> 'a \<Rightarrow> 'a option" where
  "LinkedList_map fun l a = LinkedList_map_loop fun (ll_head l) l a"

partial_function (option) LinkedList_remove_loop :: "u64 \<Rightarrow> u64 \<Rightarrow> linked_list \<Rightarrow> (bool \<times> linked_list) option" where
  "LinkedList_remove_loop item cur l =
     (if cur \<noteq> 0 then
        if ll_next l cur = item then
          let l = l\<lparr>ll_next := (ll_next l)(cur := ll_next l item)\<rparr>;
              l = (if ll_tail l = NextRef item then l\<lparr>ll_tail := NextRef cur\<rparr> else l)
          in Some (True, l)
        else LinkedList_remove_loop item (ll_next l cur) l
      else Some (False, l))"

definition LinkedList_remove :: "u64 \<Rightarrow> linked_list \<Rightarrow> (bool \<times> linked_list) option" where
  "LinkedList_remove item l =
     (if ll_head l = item then
        let l = l\<lparr>ll_head := ll_next l item\<rparr>;
            l = (if LinkedList_empty l then l\<lparr>ll_tail := HeadRef\<rparr> else l)
        in Some (True, l)
      else LinkedList_remove_loop item (ll_head l) l)"

section \<open>The represented list\<close>

fun ll_chain :: "(u64 \<Rightarrow> u64) \<Rightarrow> u64 \<Rightarrow> u64 list \<Rightarrow> bool" where
  "ll_chain n h [] \<longleftrightarrow> h = 0"
| "ll_chain n h (x # xs) \<longleftrightarrow> h = x \<and> x \<noteq> 0 \<and> ll_chain n (n x) xs"

definition ll_last :: "u64 list \<Rightarrow> ll_ref" where
  "ll_last xs = (if xs = [] then HeadRef else NextRef (last xs))"

definition ll_rep :: "linked_list \<Rightarrow> u64 list \<Rightarrow> bool" where
  "ll_rep l xs \<longleftrightarrow> distinct xs \<and> ll_chain (ll_next l) (ll_head l) xs \<and> ll_tail l = ll_last xs"

lemma ll_chain_upd [simp]: "p \<notin> set xs \<Longrightarrow> ll_chain (n(p := v)) h xs = ll_chain n h xs"
  by (induction xs arbitrary: h) auto

lemma ll_chain_nonzero: "ll_chain n h xs \<Longrightarrow> 0 \<notin> set xs"
  by (induction xs arbitrary: h) auto

lemma ll_chain_head: "ll_chain n h xs \<Longrightarrow> (h = 0 \<longleftrightarrow> xs = []) \<and> (xs \<noteq> [] \<longrightarrow> h = hd xs)"
  by (cases xs) auto

lemma ll_chain_snoc:
  "ll_chain n h xs \<Longrightarrow> distinct xs \<Longrightarrow> x \<noteq> 0 \<Longrightarrow> xs \<noteq> [] \<Longrightarrow> x \<notin> set xs \<Longrightarrow> ll_chain (n(x := 0, last xs := x)) h (xs @ [x])"
proof (induction xs arbitrary: h)
  case (Cons y ys)
  then show ?case
    by (cases ys) auto
qed simp

lemma ll_rep_init: "ll_rep LinkedList_init []"
  by (simp add: ll_rep_def LinkedList_init_def ll_last_def)

lemma ll_rep_nonzero: "ll_rep l xs \<Longrightarrow> 0 \<notin> set xs"
  using ll_chain_nonzero by (auto simp: ll_rep_def)

lemma ll_rep_empty: "ll_rep l xs \<Longrightarrow> LinkedList_empty l \<longleftrightarrow> xs = []"
  using ll_chain_head by (auto simp: ll_rep_def LinkedList_empty_def)

lemma ll_rep_unique: "ll_rep l xs \<Longrightarrow> ll_rep l ys \<Longrightarrow> xs = ys"
proof -
  have "ll_chain n h xs \<Longrightarrow> ll_chain n h ys \<Longrightarrow> xs = ys" for n h
  proof (induction xs arbitrary: h ys)
    case Nil then show ?case by (cases ys) auto
  next
    case (Cons x xs) then show ?case by (cases ys) auto
  qed
  then show "ll_rep l xs \<Longrightarrow> ll_rep l ys \<Longrightarrow> xs = ys"
    unfolding ll_rep_def by blast
qed

lemma ll_push:
  assumes "ll_rep l xs" "x \<noteq> 0" "x \<notin> set xs"
  shows "\<exists>l'. LinkedList_push x l = Some l' \<and> ll_rep l' (xs @ [x])"
  using assms ll_chain_snoc [of "ll_next l" "ll_head l" xs x]
  by (cases "xs = []") (auto simp: LinkedList_push_def ll_store_def ll_rep_def ll_last_def)

lemma ll_pull:
  assumes "ll_rep l xs"
  shows "\<exists>l'. LinkedList_pull l = (if xs = [] then 0 else hd xs, l') \<and> ll_rep l' (tl xs)"
  using assms ll_chain_head [of "ll_next l" "ll_next l (hd xs)" "tl xs"]
  by (cases xs) (auto simp: LinkedList_pull_def LinkedList_empty_def Let_def ll_rep_def ll_last_def)

lemma ll_remove_loop:
  assumes "ll_chain (ll_next l) cur ys" "distinct ys" "ys \<noteq> [] \<longrightarrow> hd ys \<noteq> x" "x \<noteq> 0"
    and "x \<in> set ys \<or> ll_tail l \<noteq> NextRef x"
  shows "\<exists>l'. LinkedList_remove_loop x cur l = Some (x \<in> set ys, l') \<and> ll_head l' = ll_head l \<and>
    ll_chain (ll_next l') cur (remove1 x ys) \<and> (\<forall>p. p \<notin> set ys \<longrightarrow> ll_next l' p = ll_next l p) \<and>
    ll_tail l' = (if x \<in> set ys \<and> ll_tail l = NextRef x then NextRef (last (takeWhile ((\<noteq>) x) ys)) else ll_tail l)"
  using assms
proof (induction ys arbitrary: cur)
  case Nil
  then show ?case
    by (subst LinkedList_remove_loop.simps) simp
next
  case (Cons y ys)
  then have cur: "cur = y" "y \<noteq> 0" "x \<noteq> y"
    by auto
  show ?case
  proof (cases ys)
    case Nil
    with Cons.prems cur show ?thesis
      by (subst LinkedList_remove_loop.simps, subst LinkedList_remove_loop.simps) auto
  next
    case (Cons z zs)
    show ?thesis
    proof (cases "z = x")
      case True
      with Cons.prems cur Cons show ?thesis
        by (subst LinkedList_remove_loop.simps) (auto simp: Let_def)
    next
      case False
      with Cons.prems Cons obtain l' where l': "LinkedList_remove_loop x z l = Some (x \<in> set ys, l')" "ll_head l' = ll_head l"
        "ll_chain (ll_next l') z (remove1 x ys)" "\<forall>p. p \<notin> set ys \<longrightarrow> ll_next l' p = ll_next l p"
        "ll_tail l' = (if x \<in> set ys \<and> ll_tail l = NextRef x then NextRef (last (takeWhile ((\<noteq>) x) ys)) else ll_tail l)"
        using Cons.IH [of z] by auto
      have "LinkedList_remove_loop x cur l = Some (x \<in> set ys, l')"
        using Cons.prems cur Cons False l'(1) by (subst LinkedList_remove_loop.simps) simp
      then show ?thesis
        using l' Cons.prems cur Cons False by auto
    qed
  qed
qed

lemma remove1_last:
  "distinct xs \<Longrightarrow> xs \<noteq> [] \<Longrightarrow> hd xs \<noteq> x \<Longrightarrow> remove1 x xs \<noteq> [] \<and>
   last (remove1 x xs) = (if last xs = x then last (takeWhile ((\<noteq>) x) xs) else last xs)"
proof (induction xs)
  case (Cons y ys)
  then show ?case
    by (cases ys) (auto split: if_splits)
qed simp

lemma ll_remove:
  assumes "ll_rep l xs" "x \<noteq> 0"
  shows "\<exists>l'. LinkedList_remove x l = Some (x \<in> set xs, l') \<and> ll_rep l' (remove1 x xs)"
proof (cases "xs \<noteq> [] \<and> hd xs = x")
  case True
  then obtain ys where "xs = x # ys"
    by (cases xs) auto
  then show ?thesis
    using assms ll_chain_head [of "ll_next l" "ll_next l x" ys]
    by (auto simp: LinkedList_remove_def LinkedList_empty_def Let_def ll_rep_def ll_last_def)
next
  case False
  have rep: "distinct xs" "ll_chain (ll_next l) (ll_head l) xs" "ll_tail l = ll_last xs"
    using assms by (auto simp: ll_rep_def)
  then have "ll_head l \<noteq> x" "x \<in> set xs \<or> ll_tail l \<noteq> NextRef x"
    using False assms(2) ll_chain_head [of "ll_next l" "ll_head l" xs] by (auto simp: ll_last_def)
  with ll_remove_loop [of l "ll_head l" xs x] rep False assms(2) obtain l' where
    "LinkedList_remove x l = Some (x \<in> set xs, l')" "ll_head l' = ll_head l" "ll_chain (ll_next l') (ll_head l) (remove1 x xs)"
    "ll_tail l' = (if x \<in> set xs \<and> ll_tail l = NextRef x then NextRef (last (takeWhile ((\<noteq>) x) xs)) else ll_tail l)"
    by (auto simp: LinkedList_remove_def)
  moreover have "ll_tail l' = ll_last (remove1 x xs)"
    using calculation(4) rep False remove1_last [of xs x] remove1_idem [of x xs] by (auto simp: ll_last_def)
  ultimately show ?thesis
    using rep by (auto simp: ll_rep_def)
qed

lemma ll_map:
  assumes "ll_rep l xs"
  shows "LinkedList_map f l a = fold (\<lambda>x r. Option.bind r (f x)) xs (Some a)"
proof -
  have none: "fold (\<lambda>x r. Option.bind r (f x)) ys None = None" for ys
    by (induction ys) auto
  have "LinkedList_map_loop f h l a = fold (\<lambda>x r. Option.bind r (f x)) ys (Some a)" if "ll_chain (ll_next l) h ys" for h ys
    using that
  proof (induction ys arbitrary: h a)
    case Nil
    then show ?case
      by (subst LinkedList_map_loop.simps) simp
  next
    case (Cons y ys)
    then show ?case
      by (subst LinkedList_map_loop.simps, cases "f y a") (simp_all add: none)
  qed
  then show ?thesis
    using assms by (simp add: ll_rep_def LinkedList_map_def)
qed

section \<open>Refinement of a list\<close>

datatype ll_op = Push u64 | Pull | Rotate | Remove u64

definition ll_exec :: "ll_op \<Rightarrow> linked_list \<Rightarrow> (u64 \<times> linked_list) option" where
  "ll_exec op l =
     (case op of
        Push x \<Rightarrow> map_option (Pair 0) (LinkedList_push x l)
      | Pull \<Rightarrow> Some (LinkedList_pull l)
      | Rotate \<Rightarrow> LinkedList_rotate l
      | Remove x \<Rightarrow> map_option (apfst of_bool) (LinkedList_remove x l))"

fun ll_run :: "ll_op list \<Rightarrow> linked_list \<Rightarrow> (u64 list \<times> linked_list) option" where
  "ll_run [] l = Some ([], l)"
| "ll_run (op # ops) l = do { (r, l) \<leftarrow> ll_exec op l; (rs, l) \<leftarrow> ll_run ops l; Some (r # rs, l) }"

text \<open>The same operations on the list of members; a member must not be pushed again.\<close>

definition list_exec :: "ll_op \<Rightarrow> u64 list \<Rightarrow> u64 \<times> u64 list" where
  "list_exec op xs =
     (case op of
        Push x \<Rightarrow> (0, xs @ [x])
      | Pull \<Rightarrow> (if xs = [] then 0 else hd xs, tl xs)
      | Rotate \<Rightarrow> (if xs = [] then 0 else hd xs, rotate1 xs)
      | Remove x \<Rightarrow> (of_bool (x \<in> set xs), remove1 x xs))"

fun list_run :: "ll_op list \<Rightarrow> u64 list \<Rightarrow> u64 list \<times> u64 list" where
  "list_run [] xs = ([], xs)"
| "list_run (op # ops) xs = (let (r, xs) = list_exec op xs; (rs, xs) = list_run ops xs in (r # rs, xs))"

fun ll_legal :: "ll_op list \<Rightarrow> u64 list \<Rightarrow> bool" where
  "ll_legal [] xs \<longleftrightarrow> True"
| "ll_legal (op # ops) xs \<longleftrightarrow>
     (case op of Push x \<Rightarrow> x \<noteq> 0 \<and> x \<notin> set xs | Remove x \<Rightarrow> x \<noteq> 0 | _ \<Rightarrow> True) \<and> ll_legal ops (snd (list_exec op xs))"

lemma ll_exec_refines:
  assumes "ll_rep l xs" "ll_legal (op # ops) xs"
  shows "\<exists>l'. ll_exec op l = Some (fst (list_exec op xs), l') \<and> ll_rep l' (snd (list_exec op xs))"
proof (cases op)
  case (Push x)
  then show ?thesis
    using assms ll_push [of l xs x] by (auto simp: ll_exec_def list_exec_def)
next
  case Pull
  then show ?thesis
    using ll_pull [OF assms(1)] by (auto simp: ll_exec_def list_exec_def)
next
  case Rotate
  obtain l1 where l1: "LinkedList_pull l = (if xs = [] then 0 else hd xs, l1)" "ll_rep l1 (tl xs)"
    using ll_pull [OF assms(1)] by blast
  show ?thesis
  proof (cases xs)
    case Nil
    then show ?thesis
      using l1 Rotate by (simp add: ll_exec_def list_exec_def LinkedList_rotate_def)
  next
    case (Cons y ys)
    then have "y \<noteq> 0" "y \<notin> set ys"
      using assms(1) by (auto simp: ll_rep_def)
    then show ?thesis
      using l1 Rotate Cons ll_push [of l1 ys y] by (auto simp: ll_exec_def list_exec_def LinkedList_rotate_def)
  qed
next
  case (Remove x)
  then show ?thesis
    using assms ll_remove [of l xs x] by (auto simp: ll_exec_def list_exec_def)
qed

text \<open>
  C0. The intrusive list is a FIFO list with removal. For every sequence of operations in which only
  handles that are not members are pushed, the operations on the pointers return, with the results that
  the same operations have on the list of members, and at the end the pointers represent the list that
  results: nothing is lost, doubled or reordered.
\<close>

theorem LinkedList_refines:
  assumes "ll_rep l xs" "ll_legal ops xs"
  shows "\<exists>l'. ll_run ops l = Some (fst (list_run ops xs), l') \<and> ll_rep l' (snd (list_run ops xs))"
  using assms
proof (induction ops arbitrary: l xs)
  case (Cons op ops)
  obtain l1 where "ll_exec op l = Some (fst (list_exec op xs), l1)" "ll_rep l1 (snd (list_exec op xs))"
    using ll_exec_refines [OF Cons.prems] by blast
  then show ?case
    using Cons.IH [of l1 "snd (list_exec op xs)"] Cons.prems(2) by (auto simp: split_def Let_def)
qed simp

theorem LinkedList_refines_witness:
  "\<exists>l'. ll_run [Push 8, Push 16, Push 24, Remove 16, Rotate, Pull, Remove 16] LinkedList_init = Some ([0, 0, 0, 1, 8, 24, 0], l') \<and> ll_rep l' [8]"
  using LinkedList_refines [OF ll_rep_init, of "[Push 8, Push 16, Push 24, Remove 16, Rotate, Pull, Remove 16]"]
  by (simp add: list_exec_def)

end
