(* ===== verification/Scheduling.thy ===== *)
theory Scheduling
  imports Linked_List
begin

text \<open>
  The cooperative scheduler of a hardware thread (\<^verbatim>\<open>SchedulingContext\<close>): a FIFO queue of execution
  contexts that became ready and the one currently selected. The execution contexts are known through
  the interface \<^verbatim>\<open>ISchedulable\<close>; its virtual methods are the fields of an argument, and what the
  scheduler relies on is the locale \<open>schedulable_ops\<close>. A handle in the queue is named by the address of
  the execution context it belongs to.
\<close>

section \<open>Model\<close>

record sched_ctx =
  sc_home :: u64
  sc_readyQueue :: linked_list
  sc_current_handle :: u64

record 'w schedulable =
  sd_isReady :: "u64 \<Rightarrow> 'w \<Rightarrow> bool option"
  sd_loadState :: "u64 \<Rightarrow> 'w \<Rightarrow> 'w option"
  sd_saveState :: "u64 \<Rightarrow> 'w \<Rightarrow> 'w option"
  sd_resume :: "u64 \<Rightarrow> 'w \<Rightarrow> (bool \<times> 'w) option"
  sd_loaded :: "'w \<Rightarrow> u64"

text \<open>Effects outside of the scheduler: a preemption of its hardware thread, and the notice that it has nothing to do.\<close>

datatype sched_event = HomePreempt u64 | IdleSC u64

definition SchedulingContext_init :: "u64 \<Rightarrow> sched_ctx" where
  "SchedulingContext_init home = \<lparr>sc_home = home, sc_readyQueue = LinkedList_init, sc_current_handle = 0\<rparr>"

definition SchedulingContext_unbind :: "u64 \<Rightarrow> sched_ctx \<Rightarrow> (sched_event list \<times> sched_ctx) option" where
  "SchedulingContext_unbind ec c = do {
     ASSERT (ec \<noteq> 0);
     (b, q) \<leftarrow> LinkedList_remove ec (sc_readyQueue c);
     let c = c\<lparr>sc_readyQueue := q\<rparr>;
     let c = c\<lparr>sc_current_handle := 0\<rparr>;
     Some (if LinkedList_empty (sc_readyQueue c) then [IdleSC (sc_home c)] else [], c) }"

definition SchedulingContext_ready :: "u64 \<Rightarrow> sched_ctx \<Rightarrow> (sched_event list \<times> sched_ctx) option" where
  "SchedulingContext_ready ec c = do {
     ASSERT (ec \<noteq> 0);
     let current = sc_current_handle c;
     (b, q) \<leftarrow> LinkedList_remove ec (sc_readyQueue c);
     q \<leftarrow> LinkedList_push ec q;
     Some (if current = 0 \<or> current = ec then [HomePreempt (sc_home c)] else [], c\<lparr>sc_readyQueue := q\<rparr>) }"

text \<open>
  One round of the scheduling loop: try the selected execution context. The result is true when control
  went to user mode and does not come back.
\<close>

definition try_current :: "'w schedulable \<Rightarrow> sched_ctx \<Rightarrow> 'w \<Rightarrow> (bool \<times> sched_ctx \<times> 'w) option" where
  "try_current ops c w =
     (let current = sc_current_handle c in
      if current \<noteq> 0 then do {
        let loaded = sd_loaded ops w;
        w \<leftarrow> (if loaded \<noteq> current then do {
                w \<leftarrow> (if loaded \<noteq> 0 then sd_saveState ops loaded w else Some w);
                sd_loadState ops current w }
              else Some w);
        (returned, w) \<leftarrow> sd_resume ops current w;
        Some (if returned then (False, c\<lparr>sc_current_handle := 0\<rparr>, w) else (True, c, w)) }
      else Some (False, c, w))"

partial_function (option) next_ready :: "(u64 \<Rightarrow> bool option) \<Rightarrow> linked_list \<Rightarrow> (u64 \<times> linked_list) option" where
  "next_ready isReady q =
     (case LinkedList_pull q of (next, q) \<Rightarrow>
        if next \<noteq> 0 then Option.bind (isReady next) (\<lambda>r. if \<not> r then next_ready isReady q else Some (next, q))
        else Some (0, q))"

text \<open>Otherwise the next ready execution context of the queue is selected, if there is one.\<close>

definition select_next :: "'w schedulable \<Rightarrow> sched_ctx \<Rightarrow> 'w \<Rightarrow> (bool \<times> sched_ctx) option" where
  "select_next ops c w = do {
     (next, q) \<leftarrow> next_ready (\<lambda>e. sd_isReady ops e w) (sc_readyQueue c);
     let c = c\<lparr>sc_readyQueue := q\<rparr>;
     Some (if next = 0 then (False, c) else (True, c\<lparr>sc_current_handle := next\<rparr>)) }"

partial_function (option) tryRunUser_loop :: "'w schedulable \<Rightarrow> sched_ctx \<Rightarrow> 'w \<Rightarrow> (bool \<times> sched_ctx \<times> 'w) option" where
  "tryRunUser_loop ops c w =
     Option.bind (try_current ops c w) (\<lambda>(user, c, w).
       if user then Some (True, c, w)
       else Option.bind (select_next ops c w) (\<lambda>(found, c).
         if found then tryRunUser_loop ops c w else Some (False, c, w)))"

definition SchedulingContext_tryRunUser :: "'w schedulable \<Rightarrow> u64 \<Rightarrow> sched_ctx \<Rightarrow> 'w \<Rightarrow> (bool \<times> sched_ctx \<times> 'w) option" where
  "SchedulingContext_tryRunUser ops local_place c w = do {
     ASSERT (local_place = sc_home c);
     tryRunUser_loop ops c w }"

section \<open>The queue of handles\<close>

text \<open>What the scheduler and the event queues rely on in the list of handles.\<close>

locale handle_queue =
  fixes rep :: "'q \<Rightarrow> u64 list \<Rightarrow> bool"
    and push :: "u64 \<Rightarrow> 'q \<Rightarrow> 'q option"
    and pull :: "'q \<Rightarrow> u64 \<times> 'q"
    and remove :: "u64 \<Rightarrow> 'q \<Rightarrow> (bool \<times> 'q) option"
  assumes push: "rep q xs \<Longrightarrow> x \<noteq> 0 \<Longrightarrow> x \<notin> set xs \<Longrightarrow> \<exists>q'. push x q = Some q' \<and> rep q' (xs @ [x])"
    and pull: "rep q xs \<Longrightarrow> \<exists>q'. pull q = (if xs = [] then 0 else hd xs, q') \<and> rep q' (tl xs)"
    and remove: "rep q xs \<Longrightarrow> x \<noteq> 0 \<Longrightarrow> \<exists>q'. remove x q = Some (x \<in> set xs, q') \<and> rep q' (remove1 x xs)"
    and members: "rep q xs \<Longrightarrow> distinct xs \<and> 0 \<notin> set xs"
begin

lemma requeue:
  assumes "rep q xs" "x \<noteq> 0"
  shows "\<exists>q1 q2. remove x q = Some (x \<in> set xs, q1) \<and> push x q1 = Some q2 \<and> rep q2 (remove1 x xs @ [x])"
proof -
  obtain q1 where q1: "remove x q = Some (x \<in> set xs, q1)" "rep q1 (remove1 x xs)"
    using remove [OF assms] by blast
  have "x \<notin> set (remove1 x xs)"
    using members [OF assms(1)] by simp
  then show ?thesis
    using push [OF q1(2) assms(2)] q1(1) by blast
qed

lemma pull_cases:
  assumes "rep q xs"
  obtains (empty) q' where "xs = []" "pull q = (0, q')" "rep q' []"
    | (item) x ys q' where "xs = x # ys" "x \<noteq> 0" "pull q = (x, q')" "rep q' ys"
  using pull [OF assms] members [OF assms] by (cases xs) auto

end

interpretation lq: handle_queue ll_rep LinkedList_push LinkedList_pull LinkedList_remove
proof unfold_locales
  show "distinct xs \<and> 0 \<notin> set xs" if "ll_rep q xs" for q xs
    using that ll_rep_nonzero [OF that] by (simp add: ll_rep_def)
qed (fact ll_push ll_pull ll_remove)+

lemma ready_step:
  assumes "ll_rep (sc_readyQueue c) xs" "ec \<noteq> 0"
  shows "\<exists>ev q. SchedulingContext_ready ec c = Some (ev, c\<lparr>sc_readyQueue := q\<rparr>) \<and> ll_rep q (remove1 ec xs @ [ec]) \<and>
    (sc_current_handle c = 0 \<or> sc_current_handle c = ec \<longrightarrow> ev = [HomePreempt (sc_home c)])"
  using lq.requeue [OF assms] assms(2) by (auto simp: SchedulingContext_ready_def Let_def)

lemma unbind_step:
  assumes "ll_rep (sc_readyQueue c) xs" "ec \<noteq> 0"
  shows "\<exists>ev q. SchedulingContext_unbind ec c = Some (ev, c\<lparr>sc_readyQueue := q, sc_current_handle := 0\<rparr>) \<and> ll_rep q (remove1 ec xs)"
  using ll_remove [OF assms] assms(2) by (auto simp: SchedulingContext_unbind_def Let_def)

lemma next_ready_first:
  assumes "ll_rep q xs" "\<And>x. x \<in> set xs \<Longrightarrow> isReady x = Some (P x)"
  defines "first \<equiv> dropWhile (\<lambda>x. \<not> P x) xs"
  shows "\<exists>q'. next_ready isReady q = Some (if first = [] then 0 else hd first, q') \<and> ll_rep q' (tl first)"
  unfolding first_def using assms(1,2)
proof (induction xs arbitrary: q)
  case Nil
  then show ?case
    using lq.pull [of q "[]"] by (subst next_ready.simps) auto
next
  case (Cons x xs)
  obtain q1 where q1: "LinkedList_pull q = (x, q1)" "ll_rep q1 xs" "x \<noteq> 0"
    using lq.pull [OF Cons.prems(1)] lq.members [OF Cons.prems(1)] by auto
  show ?case
    using q1 Cons.IH [OF q1(2)] Cons.prems(2) by (subst next_ready.simps) auto
qed

section \<open>The scheduling decision\<close>

text \<open>
  The interface of the execution contexts. For a scheduler in a good state, every known execution
  context can be asked whether it is ready, can be loaded in place of the one that is loaded, and is
  resumed exactly if it is ready.
\<close>

locale schedulable_ops =
  fixes ops :: "'w schedulable"
    and good :: "'w \<Rightarrow> bool"
    and known :: "u64 \<Rightarrow> 'w \<Rightarrow> bool"
    and ready :: "u64 \<Rightarrow> 'w \<Rightarrow> bool"
    and running :: "u64 \<Rightarrow> 'w \<Rightarrow> bool"
  assumes isReady: "good w \<Longrightarrow> known e w \<Longrightarrow> sd_isReady ops e w = Some (ready e w)"
    and switch: "good w \<Longrightarrow> known e w \<Longrightarrow> sd_loaded ops w \<noteq> e \<Longrightarrow>
      \<exists>w'. Option.bind (if sd_loaded ops w \<noteq> 0 then sd_saveState ops (sd_loaded ops w) w else Some w) (sd_loadState ops e) = Some w' \<and>
        good w' \<and> sd_loaded ops w' = e \<and> (\<forall>x. known x w \<longrightarrow> known x w' \<and> ready x w' = ready x w)"
    and resume: "good w \<Longrightarrow> known e w \<Longrightarrow> sd_loaded ops w = e \<Longrightarrow> ready e w \<Longrightarrow> \<exists>w'. sd_resume ops e w = Some (False, w') \<and> running e w'"
    and blocked: "good w \<Longrightarrow> known e w \<Longrightarrow> sd_loaded ops w = e \<Longrightarrow> \<not> ready e w \<Longrightarrow> sd_resume ops e w = Some (True, w)"
begin

lemma try_current_step:
  assumes "good w" "sc_current_handle c \<noteq> 0" "known (sc_current_handle c) w"
  shows "\<exists>w'. if ready (sc_current_handle c) w
    then try_current ops c w = Some (True, c, w') \<and> running (sc_current_handle c) w'
    else try_current ops c w = Some (False, c\<lparr>sc_current_handle := 0\<rparr>, w') \<and> good w' \<and> (\<forall>x. known x w \<longrightarrow> known x w' \<and> ready x w' = ready x w)"
proof -
  let ?e = "sc_current_handle c"
  obtain w1 where w1: "(if sd_loaded ops w \<noteq> ?e then Option.bind (if sd_loaded ops w \<noteq> 0 then sd_saveState ops (sd_loaded ops w) w else Some w) (sd_loadState ops ?e)
      else Some w) = Some w1" "good w1" "sd_loaded ops w1 = ?e" "\<forall>x. known x w \<longrightarrow> known x w1 \<and> ready x w1 = ready x w"
  proof (cases "sd_loaded ops w = ?e")
    case True
    then show ?thesis
      using that [of w] assms(1) by simp
  next
    case False
    then show ?thesis
      using switch [OF assms(1,3)] that by auto
  qed
  then have k: "known ?e w1" "ready ?e w1 = ready ?e w"
    using assms(3) by auto
  show ?thesis
    using w1 assms(2) k resume [OF w1(2) k(1) w1(3)] blocked [OF w1(2) k(1) w1(3)]
    by (cases "ready ?e w") (auto simp: try_current_def Let_def)
qed

lemma select_next_step:
  assumes "good w" "ll_rep (sc_readyQueue c) xs" "\<And>x. x \<in> set xs \<Longrightarrow> known x w"
  defines "first \<equiv> dropWhile (\<lambda>x. \<not> ready x w) xs"
  shows "\<exists>q. select_next ops c w = Some (first \<noteq> [], c\<lparr>sc_readyQueue := q, sc_current_handle := (if first = [] then sc_current_handle c else hd first)\<rparr>) \<and>
    ll_rep q (tl first)"
proof -
  have m: "hd first \<noteq> 0" if "first \<noteq> []"
    using that set_dropWhileD [of "hd first" _ xs] lq.members [OF assms(2)] unfolding first_def by (metis hd_in_set)
  show ?thesis
    using next_ready_first [OF assms(2), of "\<lambda>e. sd_isReady ops e w" "\<lambda>e. ready e w"] isReady [OF assms(1,3)] m
    unfolding first_def by (auto simp: select_next_def Let_def)
qed

text \<open>After a round without success, the queue decides: its first ready member runs.\<close>

lemma queue_round:
  assumes "good w" "ll_rep (sc_readyQueue c) xs" "\<And>x. x \<in> set xs \<Longrightarrow> known x w" "sc_current_handle c = 0" "try_current ops c0 w0 = Some (False, c, w)"
  defines "first \<equiv> dropWhile (\<lambda>x. \<not> ready x w) xs"
  shows "\<exists>c' w'. tryRunUser_loop ops c0 w0 = Some (first \<noteq> [], c', w') \<and> ll_rep (sc_readyQueue c') (tl first) \<and>
    (if first = [] then sc_current_handle c' = 0 \<and> good w' else sc_current_handle c' = hd first \<and> running (hd first) w')"
proof -
  obtain q where q: "select_next ops c w = Some (first \<noteq> [], c\<lparr>sc_readyQueue := q, sc_current_handle := (if first = [] then sc_current_handle c else hd first)\<rparr>)"
      "ll_rep q (tl first)"
    using select_next_step [OF assms(1-3)] unfolding first_def by blast
  show ?thesis
  proof (cases "first = []")
    case True
    then show ?thesis
      using q assms(1,4,5) by (subst tryRunUser_loop.simps) auto
  next
    case False
    let ?e = "hd first" and ?c = "c\<lparr>sc_readyQueue := q, sc_current_handle := hd first\<rparr>"
    have "?e \<in> set first"
      using False by simp
    then have e: "?e \<in> set xs" "ready ?e w"
      using False hd_dropWhile [of "\<lambda>e. \<not> ready e w" xs] set_dropWhileD [of ?e _ xs] unfolding first_def by blast+
    then have "?e \<noteq> 0" "known ?e w"
      using assms(3) lq.members [OF assms(2)] by auto
    then obtain w' where w': "try_current ops ?c w = Some (True, ?c, w')" "running ?e w'"
      using try_current_step [OF assms(1), of ?c] e(2) by auto
    then have "tryRunUser_loop ops ?c w = Some (True, ?c, w')"
      by (subst tryRunUser_loop.simps) simp
    then show ?thesis
      using q False w'(2) assms(5) by (subst tryRunUser_loop.simps) auto
  qed
qed

lemma tryRunUser_chooses:
  assumes "good w" "ll_rep (sc_readyQueue c) xs" "local_place = sc_home c"
    and "\<And>e. e \<in> set xs \<or> e = sc_current_handle c \<and> e \<noteq> 0 \<Longrightarrow> known e w"
  defines "first \<equiv> dropWhile (\<lambda>e. \<not> ready e w) (if sc_current_handle c = 0 then xs else sc_current_handle c # xs)"
  shows "\<exists>c' w'. SchedulingContext_tryRunUser ops local_place c w = Some (first \<noteq> [], c', w') \<and> ll_rep (sc_readyQueue c') (tl first) \<and>
    (if first = [] then sc_current_handle c' = 0 \<and> good w' else sc_current_handle c' = hd first \<and> running (hd first) w')"
proof (cases "sc_current_handle c = 0")
  case True
  then have "try_current ops c w = Some (False, c, w)"
    by (simp add: try_current_def)
  then show ?thesis
    using queue_round [OF assms(1,2) _ True] assms(3,4) True unfolding first_def by (simp add: SchedulingContext_tryRunUser_def)
next
  case False
  let ?cur = "sc_current_handle c"
  obtain w1 where w1: "if ready ?cur w then try_current ops c w = Some (True, c, w1) \<and> running ?cur w1
    else try_current ops c w = Some (False, c\<lparr>sc_current_handle := 0\<rparr>, w1) \<and> good w1 \<and> (\<forall>x. known x w \<longrightarrow> known x w1 \<and> ready x w1 = ready x w)"
    using try_current_step [OF assms(1) False] assms(4) False by blast
  show ?thesis
  proof (cases "ready ?cur w")
    case True
    then have "tryRunUser_loop ops c w = Some (True, c, w1)"
      using w1 by (subst tryRunUser_loop.simps) simp
    then show ?thesis
      using w1 assms(2,3) False True unfolding first_def by (simp add: SchedulingContext_tryRunUser_def)
  next
    case no: False
    then have r: "\<And>x. x \<in> set xs \<Longrightarrow> known x w1" "\<And>x. x \<in> set xs \<Longrightarrow> ready x w1 = ready x w"
      using w1 assms(4) by auto
    have f: "dropWhile (\<lambda>x. \<not> ready x w1) xs = first"
      using False no r(2) unfolding first_def by (simp cong: dropWhile_cong)
    show ?thesis
      using queue_round [of w1 "c\<lparr>sc_current_handle := 0\<rparr>" xs c w] w1 no r(1) assms(2,3) unfolding f by (simp add: SchedulingContext_tryRunUser_def)
  qed
qed

end

end
