(* ===== verification/Execution_Context.thy ===== *)
theory Execution_Context
  imports Scheduling Cap_Ref
begin

text \<open>
  Execution contexts, the kernel's threads (\<^verbatim>\<open>ExecutionContext\<close>), with the parts of the kernel entry
  that drive them. An execution context is blocked while one of its blocking flags is set; it is loaded
  at one hardware thread (place) at a time, and runs there in user mode. The state of all execution
  contexts, schedulers and hardware threads is one record; each operation takes the local place where it
  runs. What other objects do (capability lookup, portals, event sources) is an argument.

  A task sent to another place is put into the mailbox of that place, which the place empties before it
  returns to user mode. A synchronous task interrupts the place, if it is in user mode, and runs there.
\<close>

section \<open>State\<close>

record thread_state =
  ts_rip :: u64
  ts_rflags :: u64
  ts_rsp :: u64
  ts_rbp :: u64
  ts_rbx :: u64
  ts_r12 :: u64
  ts_r13 :: u64
  ts_r14 :: u64
  ts_r15 :: u64
  ts_fs_base :: u64
  ts_gs_base :: u64
  ts_rax :: u64
  ts_rcx :: u64
  ts_rdx :: u64
  ts_rdi :: u64
  ts_rsi :: u64
  ts_r8 :: u64
  ts_r9 :: u64
  ts_r10 :: u64
  ts_r11 :: u64
  ts_irq :: u64
  ts_error :: u64
  ts_cr2 :: u64
  ts_maySysret :: u64

record amd64_registers =
  ar_rax :: u64
  ar_rbx :: u64
  ar_rcx :: u64
  ar_rdx :: u64
  ar_rdi :: u64
  ar_rsi :: u64
  ar_r8 :: u64
  ar_r9 :: u64
  ar_r10 :: u64
  ar_r11 :: u64
  ar_r12 :: u64
  ar_r13 :: u64
  ar_r14 :: u64
  ar_r15 :: u64
  ar_rip :: u64
  ar_rsp :: u64
  ar_rbp :: u64
  ar_fs_base :: u64
  ar_gs_base :: u64
  ar_irq :: u64
  ar_error :: u64
  ar_cr2 :: u64

definition ThreadState_clear :: thread_state where
  "ThreadState_clear = \<lparr>ts_rip = 0, ts_rflags = 0, ts_rsp = 0, ts_rbp = 0, ts_rbx = 0, ts_r12 = 0, ts_r13 = 0, ts_r14 = 0, ts_r15 = 0,
     ts_fs_base = 0, ts_gs_base = 0, ts_rax = 0, ts_rcx = 0, ts_rdx = 0, ts_rdi = 0, ts_rsi = 0, ts_r8 = 0, ts_r9 = 0, ts_r10 = 0, ts_r11 = 0,
     ts_irq = 0, ts_error = 0, ts_cr2 = 0, ts_maySysret = 0\<rparr>"

definition Amd64Registers_init :: amd64_registers where
  "Amd64Registers_init = \<lparr>ar_rax = 0, ar_rbx = 0, ar_rcx = 0, ar_rdx = 0, ar_rdi = 0, ar_rsi = 0, ar_r8 = 0, ar_r9 = 0, ar_r10 = 0, ar_r11 = 0,
     ar_r12 = 0, ar_r13 = 0, ar_r14 = 0, ar_r15 = 0, ar_rip = 0, ar_rsp = 0, ar_rbp = 0, ar_fs_base = 0, ar_gs_base = 0, ar_irq = 0, ar_error = 0, ar_cr2 = 0\<rparr>"

definition FLAG_IF :: u64 where "FLAG_IF = 0x200"

type_synonym ec_flags = u16

definition IS_WAITING :: ec_flags where "IS_WAITING = 0x1"
definition IS_TRAPPED :: ec_flags where "IS_TRAPPED = 0x2"
definition NO_AS :: ec_flags where "NO_AS = 0x4"
definition NO_SCHED :: ec_flags where "NO_SCHED = 0x8"
definition IN_WAIT :: ec_flags where "IN_WAIT = 0x20"
definition IS_NOTIFIED :: ec_flags where "IS_NOTIFIED = 0x40"
definition REGISTER_ACCESS :: ec_flags where "REGISTER_ACCESS = 0x80"
definition NOT_LOADED :: ec_flags where "NOT_LOADED = 0x100"
definition DONT_PREEMPT :: ec_flags where "DONT_PREEMPT = 0x200"
definition NOT_RUNNING :: ec_flags where "NOT_RUNNING = 0x400"
definition BLOCK_MASK :: ec_flags where
  "BLOCK_MASK = IS_WAITING OR IS_TRAPPED OR NO_AS OR NO_SCHED OR REGISTER_ACCESS"

text \<open>The contents of the floating point registers, as \<^verbatim>\<open>FpuState::save\<close> writes them.\<close>

type_synonym fpu_image = "u8 list"

text \<open>
  The three capability references keep the original capability; the pair with it has the address of the
  reference as a kernel object and the address of its capability entry.
\<close>

record ec =
  ec_flags :: ec_flags
  ec_eventQueue :: linked_list
  ec_as :: cap
  ec_cs :: cap
  ec_sched :: cap
  ec_as_at :: "u64 \<times> u64"
  ec_cs_at :: "u64 \<times> u64"
  ec_sched_at :: "u64 \<times> u64"
  ec_sinkList :: linked_list
  ec_currentPlace :: u64
  ec_msg :: u64
  ec_threadState :: thread_state
  ec_fpuState :: fpu_image

record pagemap_info =
  pi_level :: nat
  pi_table :: u64
  pi_configurable :: bool

definition Info_isRootMap :: "pagemap_info \<Rightarrow> bool" where
  "Info_isRootMap i \<longleftrightarrow> pi_level i = 4"

datatype ec_message =
    Configure u32 u32 u32
  | ReadRegisters bool
  | WriteRegisters bool amd64_registers
  | SetFSGS u64 u64
  | Resume
  | Suspend

text \<open>The tasks that execution contexts send to places.\<close>

datatype ec_task =
    ReadSleepResponse u64
  | WriteSleepResponse u64
  | SleepResponse u64
  | Reschedule u64 u64 "u64 optional"

datatype ec_event =
    SchedEvent sched_event
  | SignalChanged u64 u64
  | ReplyResponse u64 Error
  | RequestDone u64
  | ResponseAndRequestDone u64
  | UserMessage u64 u64

record threads =
  th_ec :: "u64 \<rightharpoonup> ec"
  th_sc :: "u64 \<rightharpoonup> sched_ctx"
  th_pagemap :: "u64 \<rightharpoonup> pagemap_info"
  th_capmap :: "u64 \<Rightarrow> bool"
  th_message :: "u64 \<Rightarrow> ec_message"
  th_current_ec :: "u64 \<Rightarrow> u64"
  th_thread_state :: "u64 \<Rightarrow> u64"
  th_fpu :: "u64 \<Rightarrow> fpu_image"
  th_user :: "u64 \<Rightarrow> bool"
  th_cr3 :: "u64 \<Rightarrow> u64"
  th_mail :: "u64 \<Rightarrow> ec_task list"
  th_events :: "ec_event list"

definition put_ec :: "u64 \<Rightarrow> ec \<Rightarrow> threads \<Rightarrow> threads" where
  "put_ec this e w = w\<lparr>th_ec := (th_ec w)(this \<mapsto> e)\<rparr>"

definition log :: "ec_event \<Rightarrow> threads \<Rightarrow> threads" where
  "log ev w = w\<lparr>th_events := th_events w @ [ev]\<rparr>"

definition send :: "u64 \<Rightarrow> ec_task \<Rightarrow> threads \<Rightarrow> threads" where
  "send place t w = w\<lparr>th_mail := (th_mail w)(place := th_mail w place @ [t])\<rparr>"

section \<open>Flags\<close>

definition ExecutionContext_setFlags :: "u64 \<Rightarrow> ec_flags \<Rightarrow> threads \<Rightarrow> (ec_flags \<times> threads) option" where
  "ExecutionContext_setFlags this f w = do {
     e \<leftarrow> th_ec w this;
     Some (ec_flags e, put_ec this (e\<lparr>ec_flags := ec_flags e OR f\<rparr>) w) }"

definition ExecutionContext_clearFlags :: "u64 \<Rightarrow> ec_flags \<Rightarrow> threads \<Rightarrow> (ec_flags \<times> threads) option" where
  "ExecutionContext_clearFlags this f w = do {
     e \<leftarrow> th_ec w this;
     Some (ec_flags e, put_ec this (e\<lparr>ec_flags := ec_flags e AND NOT f\<rparr>) w) }"

definition ExecutionContext_isBlocked :: "ec_flags \<Rightarrow> bool" where
  "ExecutionContext_isBlocked f \<longleftrightarrow> f AND BLOCK_MASK \<noteq> 0"

definition ExecutionContext_needPreemption :: "ec_flags \<Rightarrow> bool" where
  "ExecutionContext_needPreemption f \<longleftrightarrow> f AND DONT_PREEMPT = 0"

definition ExecutionContext_isReady :: "u64 \<Rightarrow> threads \<Rightarrow> bool option" where
  "ExecutionContext_isReady this w = do { e \<leftarrow> th_ec w this; Some (\<not> ExecutionContext_isBlocked (ec_flags e)) }"

definition ExecutionContext_handleInterrupt :: "u64 \<Rightarrow> threads \<Rightarrow> threads option" where
  "ExecutionContext_handleInterrupt this w = do { (prev, w) \<leftarrow> ExecutionContext_setFlags this NOT_RUNNING w; Some w }"

definition ec_interrupted :: "u64 \<Rightarrow> threads \<Rightarrow> threads option" where
  "ec_interrupted p w = (let ec = th_current_ec w p in if ec \<noteq> 0 then ExecutionContext_handleInterrupt ec w else Some w)"

text \<open>An interrupt that takes a place out of user mode and is no trap.\<close>

definition interrupt_user :: "u64 \<Rightarrow> threads \<Rightarrow> threads option" where
  "interrupt_user p w = ec_interrupted p (w\<lparr>th_user := (th_user w)(p := False)\<rparr>)"

definition synchronousAt :: "u64 \<Rightarrow> u64 \<Rightarrow> (u64 \<Rightarrow> 's \<Rightarrow> 's option) \<Rightarrow> (u64 \<Rightarrow> 's \<Rightarrow> 's option) \<Rightarrow> 's \<Rightarrow> 's option" where
  "synchronousAt p dest interrupt fun w = do {
     ASSERT (dest \<noteq> 0);
     if dest = p then fun p w else do { w \<leftarrow> interrupt dest w; fun dest w } }"

definition preempt_user :: "u64 \<Rightarrow> threads \<Rightarrow> threads option" where
  "preempt_user p w = (if th_user w p then interrupt_user p w else Some w)"

definition ExecutionContext_setFlagsSuspend :: "u64 \<Rightarrow> u64 \<Rightarrow> ec_flags \<Rightarrow> threads \<Rightarrow> threads option" where
  "ExecutionContext_setFlagsSuspend p this f w = do {
     (prev, w) \<leftarrow> ExecutionContext_setFlags this (f OR DONT_PREEMPT) w;
     ready \<leftarrow> ExecutionContext_isReady this w;
     if ExecutionContext_needPreemption prev \<and> \<not> ready then do {
       e \<leftarrow> th_ec w this;
       let place = ec_currentPlace e;
       if place \<noteq> 0 then synchronousAt p place preempt_user (\<lambda>q w. Some w) w else Some w }
     else Some w }"

definition cast_IScheduler :: "threads \<Rightarrow> u64 \<Rightarrow> u64 optional" where
  "cast_IScheduler w p = (if th_sc w p = None then Inl TYPE_MISMATCH else Inr p)"

definition cast_ICapMap :: "threads \<Rightarrow> u64 \<Rightarrow> u64 optional" where
  "cast_ICapMap w p = (if th_capmap w p then Inr p else Inl TYPE_MISMATCH)"

definition cast_pagemap :: "threads \<Rightarrow> u64 \<Rightarrow> pagemap_info optional" where
  "cast_pagemap w p = (case th_pagemap w p of None \<Rightarrow> Inl TYPE_MISMATCH | Some i \<Rightarrow> Inr i)"

definition cast_ISignalable :: "threads \<Rightarrow> u64 \<Rightarrow> u64 optional" where
  "cast_ISignalable w p = (if th_ec w p = None then Inl TYPE_MISMATCH else Inr p)"

text \<open>Calls of the scheduler.\<close>

definition sched_call :: "(u64 \<Rightarrow> sched_ctx \<Rightarrow> (sched_event list \<times> sched_ctx) option) \<Rightarrow> u64 \<Rightarrow> u64 \<Rightarrow> threads \<Rightarrow> threads option" where
  "sched_call f sc ec w = do {
     c \<leftarrow> th_sc w sc;
     (ev, c) \<leftarrow> f ec c;
     Some (w\<lparr>th_sc := (th_sc w)(sc \<mapsto> c), th_events := th_events w @ map SchedEvent ev\<rparr>) }"

definition ec_getSched :: "u64 \<Rightarrow> threads \<Rightarrow> u64 optional option" where
  "ec_getSched this w = do {
     e \<leftarrow> th_ec w this;
     Some (if cap_isUsable (ec_sched e) then cast_IScheduler w (cap_getPtr (ec_sched e)) else Inl GENERIC_ERROR) }"

definition ExecutionContext_clearFlagsResume :: "u64 \<Rightarrow> ec_flags \<Rightarrow> threads \<Rightarrow> threads option" where
  "ExecutionContext_clearFlagsResume this f w = do {
     (prev, w) \<leftarrow> ExecutionContext_clearFlags this f w;
     ready \<leftarrow> ExecutionContext_isReady this w;
     if ExecutionContext_isBlocked prev \<and> ready then do {
       sched \<leftarrow> ec_getSched this w;
       case sched of Inl err \<Rightarrow> Some w | Inr sc \<Rightarrow> sched_call SchedulingContext_ready sc this w }
     else Some w }"

section \<open>Address space, scheduler and capability space\<close>

definition ExecutionContext_bind_as :: "u64 \<Rightarrow> threads \<Rightarrow> threads option" where
  "ExecutionContext_bind_as this w = ExecutionContext_clearFlagsResume this NO_AS w"

definition ExecutionContext_unbind_as :: "u64 \<Rightarrow> u64 \<Rightarrow> threads \<Rightarrow> threads option" where
  "ExecutionContext_unbind_as p this w = ExecutionContext_setFlagsSuspend p this NO_AS w"

definition ExecutionContext_bind_sched :: "u64 \<Rightarrow> threads \<Rightarrow> threads option" where
  "ExecutionContext_bind_sched this w = ExecutionContext_clearFlagsResume this NO_SCHED w"

definition ExecutionContext_unbind_sched :: "u64 \<Rightarrow> u64 \<Rightarrow> u64 optional \<Rightarrow> threads \<Rightarrow> threads option" where
  "ExecutionContext_unbind_sched p this sched w =
     (case sched of
        Inl err \<Rightarrow> None
      | Inr sc \<Rightarrow> do {
          w \<leftarrow> ExecutionContext_setFlagsSuspend p this NO_SCHED w;
          sched_call SchedulingContext_unbind sc this w })"

text \<open>The three references as instances of the capability reference.\<close>

definition upd_ec :: "u64 \<Rightarrow> (ec \<Rightarrow> ec) \<Rightarrow> threads \<Rightarrow> threads" where
  "upd_ec this f w = w\<lparr>th_ec := (th_ec w)(this := map_option f (th_ec w this))\<rparr>"

definition get_ec :: "'a \<Rightarrow> (ec \<Rightarrow> 'a) \<Rightarrow> u64 \<Rightarrow> threads \<Rightarrow> 'a" where
  "get_ec d f this w = (case th_ec w this of None \<Rightarrow> d | Some e \<Rightarrow> f e)"

definition as_ref :: "u64 \<Rightarrow> u64 \<Rightarrow> threads \<Rightarrow> threads cap_ref" where
  "as_ref p this w = \<lparr>cr_this = fst (get_ec (0, 0) ec_as_at this w), cr_entry = snd (get_ec (0, 0) ec_as_at this w),
     cr_orig = get_ec cap_null ec_as this, cr_put = (\<lambda>k. upd_ec this (\<lambda>e. e\<lparr>ec_as := k\<rparr>)),
     cr_bind = (\<lambda>subject obj w. ExecutionContext_bind_as subject w),
     cr_unbind = (\<lambda>subject obj w. ExecutionContext_unbind_as p subject w)\<rparr>"

definition cs_ref :: "u64 \<Rightarrow> u64 \<Rightarrow> threads \<Rightarrow> threads cap_ref" where
  "cs_ref p this w = \<lparr>cr_this = fst (get_ec (0, 0) ec_cs_at this w), cr_entry = snd (get_ec (0, 0) ec_cs_at this w),
     cr_orig = get_ec cap_null ec_cs this, cr_put = (\<lambda>k. upd_ec this (\<lambda>e. e\<lparr>ec_cs := k\<rparr>)),
     cr_bind = (\<lambda>subject obj w. Some w), cr_unbind = (\<lambda>subject obj w. Some w)\<rparr>"

definition sched_ref :: "u64 \<Rightarrow> u64 \<Rightarrow> threads \<Rightarrow> threads cap_ref" where
  "sched_ref p this w = \<lparr>cr_this = fst (get_ec (0, 0) ec_sched_at this w), cr_entry = snd (get_ec (0, 0) ec_sched_at this w),
     cr_orig = get_ec cap_null ec_sched this, cr_put = (\<lambda>k. upd_ec this (\<lambda>e. e\<lparr>ec_sched := k\<rparr>)),
     cr_bind = (\<lambda>subject obj w. ExecutionContext_bind_sched subject w),
     cr_unbind = (\<lambda>subject obj w. ExecutionContext_unbind_sched p subject (cast_IScheduler w (cap_getPtr obj)) w)\<rparr>"

type_synonym est = "store \<times> threads"

definition ExecutionContext_setAddressSpace :: "threads address_range \<Rightarrow> u64 \<Rightarrow> u64 \<Rightarrow> u64 optional \<Rightarrow> est \<Rightarrow> (unit optional \<times> est) option" where
  "ExecutionContext_setAddressSpace ar p this pme st =
     (case st of (s, w) \<Rightarrow>
      (case TypedCap_setEntry (cast_pagemap w) pme s of
         Inl err \<Rightarrow> Some (Inl err, s, w)
       | Inr info \<Rightarrow>
           if \<not> Info_isRootMap info then Some (Inl INVALID_CAPABILITY, s, w)
           else CapRefBase_set ar (as_ref p this w) this (projr pme) (ce_cap (s (projr pme))) s w))"

definition ExecutionContext_setCapSpace :: "threads address_range \<Rightarrow> u64 \<Rightarrow> u64 \<Rightarrow> u64 optional \<Rightarrow> est \<Rightarrow> (unit optional \<times> est) option" where
  "ExecutionContext_setCapSpace ar p this cse st =
     (case st of (s, w) \<Rightarrow>
      (case TypedCap_setEntry (cast_ICapMap w) cse s of
         Inl err \<Rightarrow> Some (Inl err, s, w)
       | Inr obj \<Rightarrow> CapRefBase_set ar (cs_ref p this w) this (projr cse) (ce_cap (s (projr cse))) s w))"

text \<open>The first variant is for the initial setup, the second serves invocations.\<close>

definition ExecutionContext_setSchedulingContext_init :: "threads address_range \<Rightarrow> u64 \<Rightarrow> u64 \<Rightarrow> u64 optional \<Rightarrow> est \<Rightarrow> (unit optional \<times> est) option" where
  "ExecutionContext_setSchedulingContext_init ar p this sce st =
     (case st of (s, w) \<Rightarrow> do {
        e \<leftarrow> th_ec w this;
        ASSERT (ec_currentPlace e = 0);
        case TypedCap_setEntry (cast_IScheduler w) sce s of
          Inl err \<Rightarrow> Some (Inl err, s, w)
        | Inr obj \<Rightarrow> CapRefBase_set ar (sched_ref p this w) this (projr sce) (ce_cap (s (projr sce))) s w })"

definition ExecutionContext_setSchedulingContext :: "threads address_range \<Rightarrow> u64 \<Rightarrow> u64 \<Rightarrow> u64 \<Rightarrow> u64 optional \<Rightarrow> est \<Rightarrow> (unit optional \<times> est) option" where
  "ExecutionContext_setSchedulingContext ar p this msg sce st =
     (case st of (s, w) \<Rightarrow>
      (case TypedCap_setEntry (cast_IScheduler w) sce s of
         Inl err \<Rightarrow> Some (Inl err, s, w)
       | Inr obj \<Rightarrow> do {
           e \<leftarrow> th_ec w this;
           let place = ec_currentPlace e;
           let w = put_ec this (e\<lparr>ec_currentPlace := 0\<rparr>) w;
           if place \<noteq> 0 then Some (Inl INHIBIT, s, send place (Reschedule this msg sce) w)
           else CapRefBase_set ar (sched_ref p this w) this (projr sce) (ce_cap (s (projr sce))) s w }))"

definition ExecutionContext_unsetSchedulingContext :: "u64 \<Rightarrow> u64 \<Rightarrow> est \<Rightarrow> est option" where
  "ExecutionContext_unsetSchedulingContext p this st = (case st of (s, w) \<Rightarrow> CapRefBase_reset (sched_ref p this w) s w)"

definition ExecutionContext_unsetAddressSpace :: "u64 \<Rightarrow> u64 \<Rightarrow> est \<Rightarrow> est option" where
  "ExecutionContext_unsetAddressSpace p this st = (case st of (s, w) \<Rightarrow> CapRefBase_reset (as_ref p this w) s w)"

definition ExecutionContext_unsetCapSpace :: "u64 \<Rightarrow> u64 \<Rightarrow> est \<Rightarrow> est option" where
  "ExecutionContext_unsetCapSpace p this st = (case st of (s, w) \<Rightarrow> CapRefBase_reset (cs_ref p this w) s w)"

section \<open>Registers\<close>

primrec Error_code :: "Error \<Rightarrow> u64" where
  "Error_code SUCCESS = 0"
| "Error_code UNSET = 1"
| "Error_code INHIBIT = 2"
| "Error_code GENERIC_ERROR = 3"
| "Error_code INVALID_CAPABILITY = 4"
| "Error_code INVALID_ARGUMENT = 5"
| "Error_code NON_CANONICAL_ADDRESS = 6"
| "Error_code UNALIGNED = 7"
| "Error_code INSUFFICIENT_RESOURCES = 8"
| "Error_code LOST_RACE = 9"
| "Error_code RETRY = 10"
| "Error_code NO_MESSAGE = 11"
| "Error_code TYPE_MISMATCH = 12"
| "Error_code NOT_IMPLEMENTED = 13"
| "Error_code CAP_NONEMPTY = 14"
| "Error_code NOT_KERNELMEM = 15"
| "Error_code CYCLIC_DEPENDENCY = 16"
| "Error_code PORTAL_NOT_OPEN = 17"
| "Error_code PORTAL_NOT_INVOKED = 18"
| "Error_code PORTAL_NO_BUFFER = 19"
| "Error_code PORTAL_NO_ENDPOINT = 20"
| "Error_code NO_LOOKUP = 21"
| "Error_code INVALID_REQUEST = 22"
| "Error_code REQUEST_DENIED = 23"
| "Error_code PAGEMAP_MISSING = 24"
| "Error_code PAGEMAP_NOCONF = 25"

definition ExecutionContext_setBaseRegisters :: "u64 \<Rightarrow> u64 \<Rightarrow> u64 \<Rightarrow> threads \<Rightarrow> (unit optional \<times> threads) option" where
  "ExecutionContext_setBaseRegisters this fs gs w = do {
     e \<leftarrow> th_ec w this;
     if \<not> physPtr_canonical fs \<or> \<not> physPtr_canonical gs then Some (Inl NON_CANONICAL_ADDRESS, w)
     else Some (Inr (), put_ec this (e\<lparr>ec_threadState := (ec_threadState e)\<lparr>ts_fs_base := fs, ts_gs_base := gs\<rparr>\<rparr>) w) }"

definition set_user_registers :: "amd64_registers \<Rightarrow> thread_state \<Rightarrow> thread_state" where
  "set_user_registers r t = t\<lparr>ts_rax := ar_rax r, ts_rbx := ar_rbx r, ts_rcx := ar_rcx r, ts_rdx := ar_rdx r, ts_rdi := ar_rdi r, ts_rsi := ar_rsi r,
     ts_r8 := ar_r8 r, ts_r9 := ar_r9 r, ts_r10 := ar_r10 r, ts_r11 := ar_r11 r, ts_r12 := ar_r12 r, ts_r13 := ar_r13 r, ts_r14 := ar_r14 r, ts_r15 := ar_r15 r,
     ts_rip := ar_rip r, ts_rsp := ar_rsp r, ts_rbp := ar_rbp r\<rparr>"

definition ExecutionContext_setRegisters :: "u64 \<Rightarrow> amd64_registers \<Rightarrow> threads \<Rightarrow> (unit optional \<times> threads) option" where
  "ExecutionContext_setRegisters this regs w = do {
     e \<leftarrow> th_ec w this;
     ExecutionContext_setBaseRegisters this (ar_fs_base regs) (ar_gs_base regs)
       (put_ec this (e\<lparr>ec_threadState := set_user_registers regs (ec_threadState e)\<rparr>) w) }"

definition ExecutionContext_setEntryPoint :: "u64 \<Rightarrow> u64 \<Rightarrow> threads \<Rightarrow> threads option" where
  "ExecutionContext_setEntryPoint this rip w = do {
     e \<leftarrow> th_ec w this;
     Some (put_ec this (e\<lparr>ec_threadState := (ec_threadState e)\<lparr>ts_rip := rip\<rparr>\<rparr>) w) }"

text \<open>The registers as a read request reports them; the two that the code does not copy keep their initial value.\<close>

definition get_user_registers :: "thread_state \<Rightarrow> amd64_registers" where
  "get_user_registers t = Amd64Registers_init\<lparr>ar_rax := ts_rax t, ar_rbx := ts_rbx t, ar_rcx := ts_rcx t, ar_rdx := ts_rdx t, ar_rdi := ts_rdi t, ar_rsi := ts_rsi t,
     ar_r8 := ts_r8 t, ar_r9 := ts_r9 t, ar_r10 := ts_r10 t, ar_r13 := ts_r13 t, ar_r14 := ts_r14 t, ar_r15 := ts_r15 t,
     ar_rip := ts_rip t, ar_rsp := ts_rsp t, ar_rbp := ts_rbp t, ar_fs_base := ts_fs_base t, ar_gs_base := ts_gs_base t,
     ar_irq := ts_irq t, ar_error := ts_error t, ar_cr2 := ts_cr2 t\<rparr>"

definition put_msg :: "u64 \<Rightarrow> u64 \<Rightarrow> threads \<Rightarrow> threads option" where
  "put_msg this msg w = do { e \<leftarrow> th_ec w this; Some (put_ec this (e\<lparr>ec_msg := msg\<rparr>) w) }"

definition ExecutionContext_readThreadRegisters :: "u64 \<Rightarrow> threads \<Rightarrow> threads option" where
  "ExecutionContext_readThreadRegisters this w = do {
     e \<leftarrow> th_ec w this;
     let msg = ec_msg e;
     ASSERT (msg \<noteq> 0);
     (case th_message w msg of
        ReadRegisters suspend \<Rightarrow> do {
          let w = w\<lparr>th_message := (th_message w)(msg := WriteRegisters (\<not> suspend) (get_user_registers (ec_threadState e)))\<rparr>;
          w \<leftarrow> ExecutionContext_clearFlagsResume this REGISTER_ACCESS w;
          w \<leftarrow> put_msg this 0 (log (ReplyResponse msg SUCCESS) w);
          Some (log (ResponseAndRequestDone this) w) }
      | _ \<Rightarrow> None) }"

definition ExecutionContext_writeThreadRegisters :: "u64 \<Rightarrow> threads \<Rightarrow> threads option" where
  "ExecutionContext_writeThreadRegisters this w = do {
     e \<leftarrow> th_ec w this;
     let msg = ec_msg e;
     ASSERT (msg \<noteq> 0);
     (case th_message w msg of
        WriteRegisters resume regs \<Rightarrow> do {
          (res, w) \<leftarrow> ExecutionContext_setRegisters this regs w;
          (prev, w) \<leftarrow> (if opt_isError res then ExecutionContext_setFlags this IS_TRAPPED w else Some (0, w));
          w \<leftarrow> ExecutionContext_clearFlagsResume this REGISTER_ACCESS w;
          w \<leftarrow> put_msg this 0 (log (ReplyResponse msg (opt_state res)) w);
          Some (log (ResponseAndRequestDone this) w) }
      | _ \<Rightarrow> None) }"

definition ExecutionContext_suspendThread :: "u64 \<Rightarrow> threads \<Rightarrow> threads option" where
  "ExecutionContext_suspendThread this w = do {
     e \<leftarrow> th_ec w this;
     let msg = ec_msg e;
     ASSERT (msg \<noteq> 0);
     w \<leftarrow> put_msg this 0 (log (ReplyResponse msg SUCCESS) w);
     Some (log (ResponseAndRequestDone this) w) }"

section \<open>Invocations\<close>

text \<open>The requests are served here directly when the execution context is not loaded, and by a task at its place otherwise.\<close>

definition at_home :: "u64 \<Rightarrow> (u64 \<Rightarrow> ec_task) \<Rightarrow> (u64 \<Rightarrow> threads \<Rightarrow> threads option) \<Rightarrow> threads \<Rightarrow> (Error \<times> threads) option" where
  "at_home this task handle w = do {
     e \<leftarrow> th_ec w this;
     let home = ec_currentPlace e;
     w \<leftarrow> (if home \<noteq> 0 then Some (send home (task this) w) else handle this w);
     Some (INHIBIT, w) }"

definition ExecutionContext_invokeReadRegisters :: "u64 \<Rightarrow> u64 \<Rightarrow> bool \<Rightarrow> threads \<Rightarrow> (Error \<times> threads) option" where
  "ExecutionContext_invokeReadRegisters this msg suspend w = do {
     w \<leftarrow> put_msg this msg w;
     (prev, w) \<leftarrow> ExecutionContext_setFlags this (REGISTER_ACCESS OR DONT_PREEMPT OR (if suspend then IS_TRAPPED else 0)) w;
     at_home this ReadSleepResponse ExecutionContext_readThreadRegisters w }"

definition ExecutionContext_invokeWriteRegisters :: "u64 \<Rightarrow> u64 \<Rightarrow> bool \<Rightarrow> threads \<Rightarrow> (Error \<times> threads) option" where
  "ExecutionContext_invokeWriteRegisters this msg resume w = do {
     w \<leftarrow> put_msg this msg w;
     (prev, w) \<leftarrow> ExecutionContext_setFlags this REGISTER_ACCESS w;
     (prev, w) \<leftarrow> (if resume then ExecutionContext_clearFlags this IS_TRAPPED w else Some (prev, w));
     at_home this WriteSleepResponse ExecutionContext_writeThreadRegisters w }"

definition ExecutionContext_invokeResume :: "u64 \<Rightarrow> threads \<Rightarrow> (Error \<times> threads) option" where
  "ExecutionContext_invokeResume this w = do { w \<leftarrow> ExecutionContext_clearFlagsResume this IS_TRAPPED w; Some (SUCCESS, w) }"

definition ExecutionContext_setTrapped :: "u64 \<Rightarrow> u64 \<Rightarrow> bool \<Rightarrow> threads \<Rightarrow> threads option" where
  "ExecutionContext_setTrapped p this val w =
     (if val then ExecutionContext_setFlagsSuspend p this IS_TRAPPED w else ExecutionContext_clearFlagsResume this IS_TRAPPED w)"

definition ExecutionContext_invokeSuspend :: "u64 \<Rightarrow> u64 \<Rightarrow> threads \<Rightarrow> (Error \<times> threads) option" where
  "ExecutionContext_invokeSuspend this msg w = do {
     w \<leftarrow> put_msg this msg w;
     (prev, w) \<leftarrow> ExecutionContext_setFlags this (IS_TRAPPED OR DONT_PREEMPT) w;
     at_home this SleepResponse ExecutionContext_suspendThread w }"

definition ExecutionContext_invokeSetFSGS :: "u64 \<Rightarrow> u64 \<Rightarrow> u64 \<Rightarrow> u64 \<Rightarrow> threads \<Rightarrow> (Error \<times> threads) option" where
  "ExecutionContext_invokeSetFSGS p this fs gs w = do {
     (res, w) \<leftarrow> ExecutionContext_setBaseRegisters this fs gs w;
     if \<not> opt_isError res then do {
       w \<leftarrow> ExecutionContext_setFlagsSuspend p this IS_TRAPPED w;
       w \<leftarrow> ExecutionContext_clearFlagsResume this IS_TRAPPED w;
       Some (opt_state res, w) }
     else Some (opt_state res, w) }"

definition null_cap_ptr :: u32 where "null_cap_ptr = 0"
definition delete_cap_ptr :: u32 where "delete_cap_ptr = - 2"

text \<open>One of the three settings of a configuration request: remove, replace or leave alone.\<close>

definition configure_one :: "u32 \<Rightarrow> (est \<Rightarrow> est option) \<Rightarrow> (est \<Rightarrow> (unit optional \<times> est) option) \<Rightarrow> est \<Rightarrow> (unit optional \<times> est) option" where
  "configure_one ptr unset renew st =
     (if ptr = delete_cap_ptr then do { st \<leftarrow> unset st; Some (Inr (), st) }
      else if ptr \<noteq> null_cap_ptr then renew st
      else Some (Inr (), st))"

definition ExecutionContext_invokeConfigure :: "threads address_range \<Rightarrow> (u32 \<Rightarrow> u64 optional) \<Rightarrow> u64 \<Rightarrow> u64 \<Rightarrow> u64 \<Rightarrow> u32 \<Rightarrow> u32 \<Rightarrow> u32 \<Rightarrow> est \<Rightarrow> (Error \<times> est) option" where
  "ExecutionContext_invokeConfigure ar lookupEntry p this msg as cs sched st = do {
     (res, st) \<leftarrow> configure_one as (ExecutionContext_unsetAddressSpace p this) (ExecutionContext_setAddressSpace ar p this (lookupEntry as)) st;
     if opt_isError res then Some (opt_state res, st) else do {
       (res, st) \<leftarrow> configure_one cs (ExecutionContext_unsetCapSpace p this) (ExecutionContext_setCapSpace ar p this (lookupEntry cs)) st;
       if opt_isError res then Some (opt_state res, st) else do {
         (res, st) \<leftarrow> configure_one sched (ExecutionContext_unsetSchedulingContext p this) (ExecutionContext_setSchedulingContext ar p this msg (lookupEntry sched)) st;
         Some (opt_state res, st) } } }"

definition lift_w :: "(threads \<Rightarrow> (Error \<times> threads) option) \<Rightarrow> est \<Rightarrow> (Error \<times> est) option" where
  "lift_w f st = (case st of (s, w) \<Rightarrow> do { (err, w) \<leftarrow> f w; Some (err, s, w) })"

definition ExecutionContext_dispatchRequest :: "threads address_range \<Rightarrow> (u32 \<Rightarrow> u64 optional) \<Rightarrow> u64 \<Rightarrow> u64 \<Rightarrow> u64 \<Rightarrow> est \<Rightarrow> (Error \<times> est) option" where
  "ExecutionContext_dispatchRequest ar lookupEntry p this msg st =
     (case th_message (snd st) msg of
        Configure as cs sched \<Rightarrow> ExecutionContext_invokeConfigure ar lookupEntry p this msg as cs sched st
      | ReadRegisters suspend \<Rightarrow> lift_w (ExecutionContext_invokeReadRegisters this msg suspend) st
      | WriteRegisters resume regs \<Rightarrow> lift_w (ExecutionContext_invokeWriteRegisters this msg resume) st
      | SetFSGS fs gs \<Rightarrow> lift_w (ExecutionContext_invokeSetFSGS p this fs gs) st
      | Resume \<Rightarrow> lift_w (ExecutionContext_invokeResume this) st
      | Suspend \<Rightarrow> lift_w (ExecutionContext_invokeSuspend this msg) st)"

definition ExecutionContext_invoke :: "threads address_range \<Rightarrow> (u32 \<Rightarrow> u64 optional) \<Rightarrow> u64 \<Rightarrow> u64 \<Rightarrow> u64 \<Rightarrow> est \<Rightarrow> est option" where
  "ExecutionContext_invoke ar lookupEntry p this msg st = do {
     (err, s, w) \<leftarrow> ExecutionContext_dispatchRequest ar lookupEntry p this msg st;
     Some (if err \<noteq> INHIBIT then (s, log (RequestDone this) (log (ReplyResponse msg err) w)) else (s, w)) }"

text \<open>
  The tasks, as the place of the execution context runs them. A capability that became unusable before
  the scheduler is changed fails the assertion of \<^verbatim>\<open>TypedCap::cap\<close> after the error has been replied.
\<close>

definition run_ec_task :: "threads address_range \<Rightarrow> u64 \<Rightarrow> ec_task \<Rightarrow> est \<Rightarrow> est option" where
  "run_ec_task ar p t st =
     (case st of (s, w) \<Rightarrow>
      (case t of
         ReadSleepResponse this \<Rightarrow> map_option (Pair s) (ExecutionContext_readThreadRegisters this w)
       | WriteSleepResponse this \<Rightarrow> map_option (Pair s) (ExecutionContext_writeThreadRegisters this w)
       | SleepResponse this \<Rightarrow> map_option (Pair s) (ExecutionContext_suspendThread this w)
       | Reschedule this msg sce \<Rightarrow> do {
           e \<leftarrow> th_ec w this;
           let w = put_ec this (e\<lparr>ec_fpuState := th_fpu w p\<rparr>) w;
           obj \<leftarrow> (case TypedCap_setEntry (cast_IScheduler w) sce s of Inl err \<Rightarrow> None | Inr obj \<Rightarrow> Some obj);
           (res, s, w) \<leftarrow> CapRefBase_set ar (sched_ref p this w) this (projr sce) (ce_cap (s (projr sce))) s w;
           Some (s, log (RequestDone this) (log (ReplyResponse msg (opt_state res)) w)) }))"

section \<open>Events and signals\<close>

definition upd_events :: "u64 \<Rightarrow> linked_list \<Rightarrow> threads \<Rightarrow> threads" where
  "upd_events this q w = upd_ec this (\<lambda>e. e\<lparr>ec_eventQueue := q\<rparr>) w"

definition ExecutionContext_attachKEvent :: "u64 \<Rightarrow> u64 \<Rightarrow> threads \<Rightarrow> threads option" where
  "ExecutionContext_attachKEvent this event w = do {
     e \<leftarrow> th_ec w this;
     q \<leftarrow> LinkedList_push event (ec_eventQueue e);
     ExecutionContext_clearFlagsResume this IS_WAITING (upd_events this q w) }"

definition ExecutionContext_detachKEvent :: "u64 \<Rightarrow> u64 \<Rightarrow> threads \<Rightarrow> threads option" where
  "ExecutionContext_detachKEvent this event w = do {
     e \<leftarrow> th_ec w this;
     (b, q) \<leftarrow> LinkedList_remove event (ec_eventQueue e);
     Some (upd_events this q w) }"

definition ExecutionContext_signal :: "u64 \<Rightarrow> threads \<Rightarrow> (unit optional \<times> threads) option" where
  "ExecutionContext_signal this w = do {
     (prev, w) \<leftarrow> ExecutionContext_setFlags this IS_NOTIFIED w;
     w \<leftarrow> ExecutionContext_clearFlagsResume this IS_WAITING w;
     Some (Inr (), w) }"

definition ExecutionContext_attachSignalSink :: "u64 \<Rightarrow> u64 \<Rightarrow> threads \<Rightarrow> threads option" where
  "ExecutionContext_attachSignalSink this handle w = do {
     e \<leftarrow> th_ec w this;
     q \<leftarrow> LinkedList_push handle (ec_sinkList e);
     Some (put_ec this (e\<lparr>ec_sinkList := q\<rparr>) w) }"

definition ExecutionContext_detachSignalSink :: "u64 \<Rightarrow> u64 \<Rightarrow> threads \<Rightarrow> threads option" where
  "ExecutionContext_detachSignalSink this handle w = do {
     e \<leftarrow> th_ec w this;
     (b, q) \<leftarrow> LinkedList_remove handle (ec_sinkList e);
     Some (put_ec this (e\<lparr>ec_sinkList := q\<rparr>) w) }"

definition ExecutionContext_changeSignal :: "u64 \<Rightarrow> u64 \<Rightarrow> threads \<Rightarrow> threads option" where
  "ExecutionContext_changeSignal this signal w = do {
     e \<leftarrow> th_ec w this;
     LinkedList_map (\<lambda>sink w. Some (log (SignalChanged sink signal) w)) (ec_sinkList e) w }"

section \<open>Traps and system calls\<close>

definition TRAP_EXIT :: u64 where "TRAP_EXIT = push_bit 32 1"

definition ExecutionContext_handleTrap :: "u64 \<Rightarrow> threads \<Rightarrow> threads option" where
  "ExecutionContext_handleTrap this w = do {
     e \<leftarrow> th_ec w this;
     let irq = ts_irq (ec_threadState e);
     (prev, w) \<leftarrow> ExecutionContext_setFlags this (IS_TRAPPED OR NOT_RUNNING) w;
     if irq \<le> 0x1F then ExecutionContext_changeSignal this (push_bit (unat irq) 1) w else Some w }"

text \<open>
  The objects that a system call reaches through the capability space: the lookup of an entry, whether
  an object is a portal, and the result of sending an invocation through one.
\<close>

record sys_env =
  se_lookup :: "u64 \<Rightarrow> cap \<Rightarrow> u32 \<Rightarrow> u64 optional"
  se_cast_IPortal :: "u64 \<Rightarrow> u64 optional"
  se_sendInvocation :: "u64 \<Rightarrow> cap \<Rightarrow> u32 \<Rightarrow> u64 \<Rightarrow> unit optional"
  se_deliverKEvent :: "u64 \<Rightarrow> u64 \<times> u64"

definition ExecutionContext_syscallInvoke :: "sys_env \<Rightarrow> u64 \<Rightarrow> u32 \<Rightarrow> u32 \<Rightarrow> u64 \<Rightarrow> est \<Rightarrow> unit optional option" where
  "ExecutionContext_syscallInvoke env this portal dest user st =
     (case st of (s, w) \<Rightarrow> do {
        e \<leftarrow> th_ec w this;
        Some (case TypedCap_set (cast_ICapMap w) (ec_cs e) of
          Inl err \<Rightarrow> Inl err
        | Inr cs \<Rightarrow>
            let entry = se_lookup env cs (ec_cs e) portal in
            (case TypedCap_setEntry (se_cast_IPortal env) entry s of
               Inl err \<Rightarrow> Inl err
             | Inr po \<Rightarrow> se_sendInvocation env po (ce_cap (s (projr entry))) dest user)) })"

definition put_code :: "u64 \<Rightarrow> u64 \<Rightarrow> threads \<Rightarrow> threads" where
  "put_code this code w = upd_ec this (\<lambda>e. e\<lparr>ec_threadState := (ec_threadState e)\<lparr>ts_rdi := code\<rparr>\<rparr>) w"

definition wait_for_event :: "u64 \<Rightarrow> threads \<Rightarrow> threads option" where
  "wait_for_event this w = do {
     (prev, w) \<leftarrow> ExecutionContext_setFlags this (IN_WAIT OR IS_WAITING) w;
     e \<leftarrow> th_ec w this;
     if \<not> LinkedList_empty (ec_eventQueue e) \<or> prev AND IS_NOTIFIED \<noteq> 0
     then do { (prev, w) \<leftarrow> ExecutionContext_clearFlags this IS_WAITING w; Some w }
     else Some w }"

definition syscall_signal :: "sys_env \<Rightarrow> u64 \<Rightarrow> u32 \<Rightarrow> est \<Rightarrow> threads option" where
  "syscall_signal env this ptr st =
     (case st of (s, w) \<Rightarrow> do {
        e \<leftarrow> th_ec w this;
        (case TypedCap_set (cast_ICapMap w) (ec_cs e) of
           Inl err \<Rightarrow> Some (put_code this (Error_code err) w)
         | Inr cs \<Rightarrow>
             (case TypedCap_setEntry (cast_ISignalable w) (se_lookup env cs (ec_cs e) ptr) s of
                Inl err \<Rightarrow> Some (put_code this (Error_code err) w)
              | Inr th \<Rightarrow> do {
                  (res, w) \<leftarrow> ExecutionContext_signal th w;
                  Some (put_code this (Error_code SUCCESS) w) })) })"

definition ExecutionContext_handleSyscall :: "sys_env \<Rightarrow> u64 \<Rightarrow> est \<Rightarrow> threads option" where
  "ExecutionContext_handleSyscall env this st =
     (case st of (s, w) \<Rightarrow> do {
        (prev, w) \<leftarrow> ExecutionContext_setFlags this NOT_RUNNING w;
        e \<leftarrow> th_ec w this;
        let ctx = ec_threadState e;
        let code = ts_rdi ctx;
        let userctx = ts_rsi ctx;
        let portal = ts_rdx ctx;
        let kobj = ts_r10 ctx;
        if code = 0 then do {
          (prev, w) \<leftarrow> ExecutionContext_setFlags this IS_TRAPPED w;
          ExecutionContext_changeSignal this TRAP_EXIT w }
        else if code = 1 then do {
          (prev, w) \<leftarrow> ExecutionContext_setFlags this IN_WAIT w;
          Some w }
        else if code = 2 then wait_for_event this w
        else if code = 3 then do {
          res \<leftarrow> ExecutionContext_syscallInvoke env this (ucast portal) (ucast kobj) userctx (s, w);
          Some (put_code this (Error_code (opt_state res)) w) }
        else if code = 4 then do {
          res \<leftarrow> ExecutionContext_syscallInvoke env this (ucast portal) (ucast kobj) userctx (s, w);
          let w = put_code this (Error_code (opt_state res)) w;
          if opt_state res = SUCCESS then do { (prev, w) \<leftarrow> ExecutionContext_setFlags this IN_WAIT w; Some w } else Some w }
        else if code = 5 then do {
          res \<leftarrow> ExecutionContext_syscallInvoke env this (ucast portal) (ucast kobj) userctx (s, w);
          let w = put_code this (Error_code (opt_state res)) w;
          if opt_state res \<noteq> SUCCESS then Some w else wait_for_event this w }
        else if code = 6 then Some (put_code this (Error_code SUCCESS) (log (UserMessage userctx portal) w))
        else if code = 7 then syscall_signal env this (ucast portal) (s, w)
        else Some w })"

section \<open>Loading and resuming\<close>

definition ExecutionContext_loadState :: "u64 \<Rightarrow> u64 \<Rightarrow> threads \<Rightarrow> threads option" where
  "ExecutionContext_loadState p this w = do {
     e \<leftarrow> th_ec w this;
     let oldPlace = ec_currentPlace e;
     let w = put_ec this (e\<lparr>ec_currentPlace := p\<rparr>) w;
     ASSERT (oldPlace = 0);
     (prev, w) \<leftarrow> ExecutionContext_clearFlags this NOT_LOADED w;
     ASSERT (prev AND NOT_LOADED \<noteq> 0);
     ASSERT (th_thread_state w p = 0);
     let w = w\<lparr>th_thread_state := (th_thread_state w)(p := this), th_fpu := (th_fpu w)(p := ec_fpuState e)\<rparr>;
     ASSERT (th_current_ec w p = 0);
     Some (w\<lparr>th_current_ec := (th_current_ec w)(p := this)\<rparr>) }"

definition ExecutionContext_saveState :: "u64 \<Rightarrow> u64 \<Rightarrow> threads \<Rightarrow> threads option" where
  "ExecutionContext_saveState p this w = do {
     (prev, w) \<leftarrow> ExecutionContext_setFlags this NOT_LOADED w;
     ASSERT (prev AND NOT_LOADED = 0);
     e \<leftarrow> th_ec w this;
     let oldPlace = ec_currentPlace e;
     ASSERT (oldPlace = p);
     ASSERT (th_thread_state w p = this);
     let w = w\<lparr>th_thread_state := (th_thread_state w)(p := 0)\<rparr>;
     let w = put_ec this (e\<lparr>ec_currentPlace := 0, ec_fpuState := th_fpu w p\<rparr>) w;
     ASSERT (th_current_ec w p = this);
     Some (w\<lparr>th_current_ec := (th_current_ec w)(p := 0)\<rparr>) }"

text \<open>Returns one event to user mode, if the execution context was waiting for one.\<close>

definition return_event :: "sys_env \<Rightarrow> u64 \<Rightarrow> threads \<Rightarrow> threads option" where
  "return_event env this w = do {
     (prevWait, w) \<leftarrow> ExecutionContext_clearFlags this IN_WAIT w;
     if prevWait AND IN_WAIT \<noteq> 0 then do {
       (prev, w) \<leftarrow> ExecutionContext_clearFlags this IS_NOTIFIED w;
       e \<leftarrow> th_ec w this;
       (case LinkedList_pull (ec_eventQueue e) of (ev, q) \<Rightarrow>
          let (user, state) = (if ev \<noteq> 0 then se_deliverKEvent env ev else (0, Error_code NO_MESSAGE)) in
          Some (put_ec this (e\<lparr>ec_eventQueue := q, ec_threadState := (ec_threadState e)\<lparr>ts_rsi := user, ts_rdi := state\<rparr>\<rparr>) w)) }
     else Some w }"

text \<open>The result is true when the call returns, and false when control went to user mode.\<close>

definition ExecutionContext_resume :: "sys_env \<Rightarrow> u64 \<Rightarrow> u64 \<Rightarrow> threads \<Rightarrow> (bool \<times> threads) option" where
  "ExecutionContext_resume env p this w = do {
     e \<leftarrow> th_ec w this;
     let prev = ec_flags e;
     if ExecutionContext_isBlocked prev then Some (True, w)
     else do {
       let w = put_ec this (e\<lparr>ec_flags := prev AND NOT (NOT_RUNNING OR DONT_PREEMPT)\<rparr>) w;
       ASSERT (prev AND NOT_LOADED = 0);
       ASSERT (ec_currentPlace e = p);
       w \<leftarrow> return_event env this w;
       (case TypedCap_set (cast_pagemap w) (ec_as e) of
          Inl err \<Rightarrow> Some (True, w)
        | Inr info \<Rightarrow> Some (False, w\<lparr>th_cr3 := (th_cr3 w)(p := pi_table info), th_user := (th_user w)(p := True)\<rparr>)) } }"

definition ec_ops :: "sys_env \<Rightarrow> u64 \<Rightarrow> threads schedulable" where
  "ec_ops env p = \<lparr>sd_isReady = ExecutionContext_isReady, sd_loadState = ExecutionContext_loadState p,
     sd_saveState = ExecutionContext_saveState p, sd_resume = ExecutionContext_resume env p, sd_loaded = (\<lambda>w. th_current_ec w p)\<rparr>"

section \<open>The hardware thread\<close>

text \<open>
  A place empties its mailbox, asks its scheduler for an execution context and goes to sleep when there
  is none. The scheduler \<open>sc\<close> of the place is an argument.
\<close>

fun process_mail :: "threads address_range \<Rightarrow> u64 \<Rightarrow> ec_task list \<Rightarrow> est \<Rightarrow> est option" where
  "process_mail ar p [] st = Some st"
| "process_mail ar p (t # ts) st = do { st \<leftarrow> run_ec_task ar p t st; process_mail ar p ts st }"

definition tryRunUser :: "sys_env \<Rightarrow> u64 \<Rightarrow> u64 \<Rightarrow> threads \<Rightarrow> (bool \<times> threads) option" where
  "tryRunUser env p sc w = do {
     c \<leftarrow> th_sc w sc;
     (user, c, w) \<leftarrow> SchedulingContext_tryRunUser (ec_ops env p) p c w;
     Some (user, w\<lparr>th_sc := (th_sc w)(sc \<mapsto> c)\<rparr>) }"

definition ec_handle_trap :: "u64 \<Rightarrow> threads \<Rightarrow> threads option" where
  "ec_handle_trap p w = do { ASSERT (th_current_ec w p \<noteq> 0); ExecutionContext_handleTrap (th_current_ec w p) w }"

definition ec_handle_syscall :: "sys_env \<Rightarrow> u64 \<Rightarrow> est \<Rightarrow> threads option" where
  "ec_handle_syscall env p st = do {
     ASSERT (th_current_ec (snd st) p \<noteq> 0);
     ExecutionContext_handleSyscall env (th_current_ec (snd st) p) st }"

text \<open>
  The entries from user mode and the way back. The entry code has stored the registers and the number of
  the interrupt in the thread state of the execution context that is loaded. The result of \<open>runUser\<close>
  is false when the place goes to sleep. Signals from the interrupt controller are not part of the model.
\<close>

definition leave_user :: "u64 \<Rightarrow> threads \<Rightarrow> threads" where
  "leave_user p w = w\<lparr>th_user := (th_user w)(p := False)\<rparr>"

definition irq_entry_user :: "u64 \<Rightarrow> threads \<Rightarrow> threads option" where
  "irq_entry_user p w = do {
     e \<leftarrow> th_ec w (th_thread_state w p);
     let irq = ts_irq (ec_threadState e);
     let w = leave_user p w;
     if irq < 32 then ec_handle_trap p w
     else do { w \<leftarrow> ec_interrupted p w; ASSERT (irq < 256); Some w } }"

definition syscall_entry_cxx :: "sys_env \<Rightarrow> u64 \<Rightarrow> est \<Rightarrow> threads option" where
  "syscall_entry_cxx env p st = (case st of (s, w) \<Rightarrow> ec_handle_syscall env p (s, leave_user p w))"

definition runUser :: "threads address_range \<Rightarrow> sys_env \<Rightarrow> u64 \<Rightarrow> u64 \<Rightarrow> est \<Rightarrow> (bool \<times> est) option" where
  "runUser ar env p sc st =
     (case st of (s, w) \<Rightarrow> do {
        (s, w) \<leftarrow> process_mail ar p (th_mail w p) (s, w\<lparr>th_mail := (th_mail w)(p := [])\<rparr>);
        (user, w) \<leftarrow> tryRunUser env p sc w;
        Some (user, s, w) })"

section \<open>Creation and deletion\<close>

text \<open>The places of the embedded references are given by the layout of the new object.\<close>

definition ExecutionContext_new :: "u64 \<times> u64 \<Rightarrow> u64 \<times> u64 \<Rightarrow> u64 \<times> u64 \<Rightarrow> ec" where
  "ExecutionContext_new as_at cs_at sched_at =
     \<lparr>ec_flags = IS_TRAPPED + NO_AS + NO_SCHED + DONT_PREEMPT + NOT_LOADED + NOT_RUNNING, ec_eventQueue = LinkedList_init,
      ec_as = cap_null, ec_cs = cap_null, ec_sched = cap_null, ec_as_at = as_at, ec_cs_at = cs_at, ec_sched_at = sched_at,
      ec_sinkList = LinkedList_init, ec_currentPlace = 0, ec_msg = 0,
      ec_threadState = ThreadState_clear\<lparr>ts_rflags := FLAG_IF\<rparr>, ec_fpuState = []\<rparr>"

definition ExecutionContext_deleteCap :: "u64 \<Rightarrow> u64 \<Rightarrow> cap \<Rightarrow> est \<Rightarrow> (bool \<times> unit optional \<times> est) option" where
  "ExecutionContext_deleteCap p this self st =
     (if cap_isOriginal self then do {
        let (s, w) = st;
        (prev, w) \<leftarrow> ExecutionContext_setFlags this (NO_AS + NO_SCHED) w;
        e \<leftarrow> th_ec w this;
        let place = ec_currentPlace e;
        st \<leftarrow> (if place \<noteq> 0 then
                 synchronousAt p place (\<lambda>q (s, w). map_option (Pair s) (preempt_user q w)) (\<lambda>q (s, w). do {
                   w \<leftarrow> ExecutionContext_saveState q this w;
                   ExecutionContext_unsetSchedulingContext q this (s, w) }) (s, w)
               else Some (s, w));
        st \<leftarrow> ExecutionContext_unsetAddressSpace p this st;
        st \<leftarrow> ExecutionContext_unsetCapSpace p this st;
        st \<leftarrow> ExecutionContext_unsetSchedulingContext p this st;
        Some (True, Inr (), st) }
      else Some (False, Inr (), st))"

text \<open>
  The message of a creation request: registers, whether to start, and pointers to the three
  capabilities. The allocation of the object is an argument: an error, or its address and layout.
\<close>

record ec_create =
  cm_regs :: amd64_registers
  cm_start :: bool
  cm_as :: u32
  cm_cs :: u32
  cm_sched :: u32

definition then_set :: "u32 \<Rightarrow> (est \<Rightarrow> (unit optional \<times> est) option) \<Rightarrow> unit optional \<times> est \<Rightarrow> (unit optional \<times> est) option" where
  "then_set ptr renew r = (case r of (res, st) \<Rightarrow> if opt_isError res \<or> ptr = 0 then Some (res, st) else renew st)"

definition ec_configure_new :: "threads address_range \<Rightarrow> (u32 \<Rightarrow> u64 optional) \<Rightarrow> u64 \<Rightarrow> u64 \<Rightarrow> ec_create \<Rightarrow> est \<Rightarrow> (unit optional \<times> est) option" where
  "ec_configure_new ar lookupEntry p obj m st = do {
     let (s, w) = st;
     (res, w) \<leftarrow> ExecutionContext_setRegisters obj (cm_regs m) w;
     r \<leftarrow> then_set (cm_as m) (ExecutionContext_setAddressSpace ar p obj (lookupEntry (cm_as m))) (res, s, w);
     r \<leftarrow> then_set (cm_cs m) (ExecutionContext_setCapSpace ar p obj (lookupEntry (cm_cs m))) r;
     (res, s, w) \<leftarrow> then_set (cm_sched m) (ExecutionContext_setSchedulingContext_init ar p obj (lookupEntry (cm_sched m))) r;
     if opt_isError res then Some (res, s, w)
     else do {
       w \<leftarrow> ExecutionContext_setEntryPoint obj (ar_rip (cm_regs m)) w;
       w \<leftarrow> (if cm_start m then ExecutionContext_setTrapped p obj False w else Some w);
       Some (Inr (), s, w) } }"

definition ExecutionContextFactory_factory :: "threads address_range \<Rightarrow> (u32 \<Rightarrow> u64 optional) \<Rightarrow> u64 \<Rightarrow> (u64 \<times> ec) optional \<Rightarrow> u64 \<Rightarrow> u64 \<Rightarrow> cap
    \<Rightarrow> ec_create option \<Rightarrow> est \<Rightarrow> (u64 optional \<times> est) option" where
  "ExecutionContextFactory_factory ar lookupEntry p created dstEntry memEntry memCap data st =
     (case st of (s, w) \<Rightarrow>
      (case created of
         Inl err \<Rightarrow> do { s \<leftarrow> CapEntry_reset dstEntry s; Some (Inl err, s, w) }
       | Inr (obj, e) \<Rightarrow> do {
           let w = put_ec obj e w;
           cap \<leftarrow> mk_cap obj 0 0;
           (res, s, w) \<leftarrow> inherit ar memEntry memCap dstEntry cap Some s w;
           if opt_isError res then Some (rethrow_error res, s, w\<lparr>th_ec := (th_ec w)(obj := None)\<rparr>)
           else (case data of
                   None \<Rightarrow> Some (Inr obj, s, w)
                 | Some m \<Rightarrow> do {
                     (res, st) \<leftarrow> ec_configure_new ar lookupEntry p obj m (s, w);
                     Some (if opt_isError res then rethrow_error res else Inr obj, st) }) }))"

end
