(* ===== verification/Thread_Safety.thy ===== *)
theory Thread_Safety
  imports Execution_Context
begin

text \<open>
  The rules that execution contexts keep: an execution context is loaded at one place at a time, a place
  in user mode runs the execution context that is loaded there, and one that is blocked while it still
  runs has a message waiting that will interrupt it. The scheduler then resumes exactly the first
  execution context that is ready.
\<close>

section \<open>Flags as bits\<close>

lemma flag_masks:
  "(f :: u16) AND IS_NOTIFIED \<noteq> 0 \<longleftrightarrow> bit f 6" "f AND NOT_LOADED \<noteq> 0 \<longleftrightarrow> bit f 8" "f AND NOT_LOADED = 0 \<longleftrightarrow> \<not> bit f 8"
  "f AND DONT_PREEMPT = 0 \<longleftrightarrow> \<not> bit f 9" "f AND IN_WAIT \<noteq> 0 \<longleftrightarrow> bit f 5"
  using and_exp_eq_0_iff_not_bit [of f 6] and_exp_eq_0_iff_not_bit [of f 8] and_exp_eq_0_iff_not_bit [of f 9] and_exp_eq_0_iff_not_bit [of f 5]
  by (simp_all add: IS_NOTIFIED_def NOT_LOADED_def DONT_PREEMPT_def IN_WAIT_def)

lemma single_flag_bits:
  "bit IS_WAITING n \<longleftrightarrow> n = 0" "bit IS_TRAPPED n \<longleftrightarrow> n = 1" "bit NO_AS n \<longleftrightarrow> n = 2" "bit NO_SCHED n \<longleftrightarrow> n = 3"
  "bit IN_WAIT n \<longleftrightarrow> n = 5" "bit IS_NOTIFIED n \<longleftrightarrow> n = 6" "bit REGISTER_ACCESS n \<longleftrightarrow> n = 7" "bit NOT_LOADED n \<longleftrightarrow> n = 8"
  "bit DONT_PREEMPT n \<longleftrightarrow> n = 9" "bit NOT_RUNNING n \<longleftrightarrow> n = 10"
proof -
  have e: "bit (2 ^ k :: u16) n \<longleftrightarrow> n = k" if "k < 16" for k
    using that by (auto simp: bit_exp_iff)
  show "bit IS_WAITING n \<longleftrightarrow> n = 0" "bit IS_TRAPPED n \<longleftrightarrow> n = 1" "bit NO_AS n \<longleftrightarrow> n = 2" "bit NO_SCHED n \<longleftrightarrow> n = 3"
    "bit IN_WAIT n \<longleftrightarrow> n = 5" "bit IS_NOTIFIED n \<longleftrightarrow> n = 6" "bit REGISTER_ACCESS n \<longleftrightarrow> n = 7" "bit NOT_LOADED n \<longleftrightarrow> n = 8"
    "bit DONT_PREEMPT n \<longleftrightarrow> n = 9" "bit NOT_RUNNING n \<longleftrightarrow> n = 10"
    using e [of 0] e [of 1] e [of 2] e [of 3] e [of 5] e [of 6] e [of 7] e [of 8] e [of 9] e [of 10]
    by (simp_all add: IS_WAITING_def IS_TRAPPED_def NO_AS_def NO_SCHED_def IN_WAIT_def IS_NOTIFIED_def REGISTER_ACCESS_def
      NOT_LOADED_def DONT_PREEMPT_def NOT_RUNNING_def)
qed

lemma flag_ops:
  "bit ((f :: u16) OR g) n \<longleftrightarrow> bit f n \<or> bit g n" "bit (f AND NOT g) n \<longleftrightarrow> bit f n \<and> \<not> bit g n" "bit (0 :: u16) n \<longleftrightarrow> False"
  by (auto simp: bit_or_iff bit_and_iff bit_not_iff dest: bit_imp_le_length)

lemma isBlocked_bits: "ExecutionContext_isBlocked f \<longleftrightarrow> bit f 0 \<or> bit f 1 \<or> bit f 2 \<or> bit f 3 \<or> bit f 7"
proof -
  have "ExecutionContext_isBlocked f \<longleftrightarrow> (\<exists>n. bit (f AND BLOCK_MASK) n)"
    by (metis ExecutionContext_isBlocked_def bit_eq_iff flag_ops(3))
  then show ?thesis
    by (auto simp: BLOCK_MASK_def bit_and_iff flag_ops single_flag_bits)
qed

lemma needPreemption_bits: "ExecutionContext_needPreemption f \<longleftrightarrow> \<not> bit f 9"
  by (simp add: ExecutionContext_needPreemption_def flag_masks)

lemmas flag_simps = flag_masks single_flag_bits flag_ops isBlocked_bits needPreemption_bits

section \<open>The invariant\<close>

definition ec_ok :: "threads \<Rightarrow> u64 \<Rightarrow> ec \<Rightarrow> bool" where
  "ec_ok w this e \<longleftrightarrow> (bit (ec_flags e) 8 \<longleftrightarrow> ec_currentPlace e = 0) \<and>
     (ec_currentPlace e \<noteq> 0 \<longrightarrow> th_current_ec w (ec_currentPlace e) = this) \<and>
     (\<not> bit (ec_flags e) 2 \<longrightarrow> cap_isUsable (ec_as e) \<and> th_pagemap w (cap_getPtr (ec_as e)) \<noteq> None)"

definition place_ok :: "threads \<Rightarrow> u64 \<Rightarrow> bool" where
  "place_ok w p \<longleftrightarrow> th_thread_state w p = th_current_ec w p \<and>
     (th_current_ec w p \<noteq> 0 \<longrightarrow> (\<exists>e. th_ec w (th_current_ec w p) = Some e \<and> ec_currentPlace e = p)) \<and>
     (th_user w p \<longrightarrow> (\<exists>e. th_ec w (th_current_ec w p) = Some e \<and> \<not> bit (ec_flags e) 10 \<and>
        (ExecutionContext_isBlocked (ec_flags e) \<or> bit (ec_flags e) 9 \<longrightarrow> th_mail w p \<noteq> [])))"

definition threads_inv :: "threads \<Rightarrow> bool" where
  "threads_inv w \<longleftrightarrow> th_ec w 0 = None \<and> th_current_ec w 0 = 0 \<and>
     (\<forall>this e. th_ec w this = Some e \<longrightarrow> ec_ok w this e) \<and> (\<forall>p. place_ok w p)"

lemma threads_invD:
  assumes "threads_inv w"
  shows "th_ec w 0 = None" "th_current_ec w 0 = 0" "th_ec w this = Some e \<Longrightarrow> ec_ok w this e" "place_ok w p"
  using assms by (auto simp: threads_inv_def)

text \<open>What the operations may do to one execution context: everything but the references, the place and the flags with a meaning for them.\<close>

definition ec_same :: "ec \<Rightarrow> ec \<Rightarrow> bool" where
  "ec_same e e' \<longleftrightarrow> (bit (ec_flags e') 8 \<longleftrightarrow> bit (ec_flags e) 8) \<and> ec_currentPlace e' = ec_currentPlace e \<and>
     (\<not> bit (ec_flags e') 2 \<longrightarrow> \<not> bit (ec_flags e) 2 \<and> ec_as e' = ec_as e)"

text \<open>A running execution context keeps running; if it gets blocked, a message must be waiting.\<close>

definition run_same :: "threads \<Rightarrow> u64 \<Rightarrow> ec \<Rightarrow> ec \<Rightarrow> bool" where
  "run_same w p e e' \<longleftrightarrow> th_user w p \<and> th_current_ec w p \<noteq> 0 \<and> ec_currentPlace e = p \<longrightarrow>
     \<not> bit (ec_flags e') 10 \<and> (ExecutionContext_isBlocked (ec_flags e') \<or> bit (ec_flags e') 9 \<longrightarrow> th_mail w p \<noteq> [])"

lemma put_ec_simps [simp]:
  "th_ec (put_ec this e w) = (th_ec w)(this \<mapsto> e)" "th_sc (put_ec this e w) = th_sc w" "th_pagemap (put_ec this e w) = th_pagemap w"
  "th_current_ec (put_ec this e w) = th_current_ec w" "th_thread_state (put_ec this e w) = th_thread_state w" "th_user (put_ec this e w) = th_user w"
  "th_mail (put_ec this e w) = th_mail w" "th_fpu (put_ec this e w) = th_fpu w" "th_message (put_ec this e w) = th_message w"
  "th_events (put_ec this e w) = th_events w" "th_capmap (put_ec this e w) = th_capmap w" "th_cr3 (put_ec this e w) = th_cr3 w"
  by (simp_all add: put_ec_def)

lemma put_ec_inv:
  assumes "threads_inv w" "th_ec w this = Some e" "ec_same e e'" "\<And>p. run_same w p e e'"
  shows "threads_inv (put_ec this e' w)"
proof -
  note inv = threads_invD [OF assms(1)]
  have nz: "this \<noteq> 0"
    using assms(2) inv(1) by auto
  have "ec_ok (put_ec this e' w) this e'"
    using inv(3) [OF assms(2)] assms(3) unfolding ec_ok_def ec_same_def by auto
  moreover have "ec_ok (put_ec this e' w) x y" if "th_ec w x = Some y" for x y
    using inv(3) [OF that] by (simp add: ec_ok_def)
  moreover have "place_ok (put_ec this e' w) p" for p
  proof (cases "th_current_ec w p = this")
    case True
    then have "ec_currentPlace e = p"
      using inv(4) [of p] nz assms(2) by (auto simp: place_ok_def)
    then show ?thesis
      using inv(4) [of p] True nz assms(3) assms(4) [of p] unfolding place_ok_def run_same_def ec_same_def by auto
  next
    case False
    then show ?thesis
      using inv(4) [of p] by (simp add: place_ok_def)
  qed
  ultimately show ?thesis
    using inv(1,2) nz by (simp add: threads_inv_def)
qed

text \<open>Changes of the schedulers, messages, events and of mail, which only grows, do not matter.\<close>

definition same_threads :: "threads \<Rightarrow> threads \<Rightarrow> bool" where
  "same_threads w w' \<longleftrightarrow> th_ec w' = th_ec w \<and> th_pagemap w' = th_pagemap w \<and> th_current_ec w' = th_current_ec w \<and>
     th_thread_state w' = th_thread_state w \<and> th_user w' = th_user w \<and> (\<forall>p. th_mail w p \<noteq> [] \<longrightarrow> th_mail w' p \<noteq> [])"

lemma same_threads_inv:
  assumes "threads_inv w" "same_threads w w'"
  shows "threads_inv w'"
proof -
  have "ec_ok w' x e = ec_ok w x e" for x e
    using assms(2) by (simp add: same_threads_def ec_ok_def)
  moreover have "place_ok w' p" if "place_ok w p" for p
    using that assms(2) by (auto simp: same_threads_def place_ok_def)
  ultimately show ?thesis
    using assms by (simp add: threads_inv_def same_threads_def)
qed

lemma sched_call_same: "sched_call f sc ec w = Some w' \<Longrightarrow> same_threads w w'"
  by (auto simp: sched_call_def same_threads_def bind_eq_Some_conv)

lemma log_same: "same_threads w (log ev w)"
  by (simp add: log_def same_threads_def)

lemma send_same: "same_threads w (send p t w)"
  by (simp add: send_def same_threads_def)

section \<open>Flags and registers\<close>

definition at_user :: "threads \<Rightarrow> u64 \<Rightarrow> bool" where
  "at_user w this \<longleftrightarrow> (\<exists>p. th_user w p \<and> th_current_ec w p = this)"

definition mail_for :: "threads \<Rightarrow> u64 \<Rightarrow> bool" where
  "mail_for w this \<longleftrightarrow> (\<forall>p. th_user w p \<and> th_current_ec w p = this \<longrightarrow> th_mail w p \<noteq> [])"

text \<open>A change of one execution context is harmless, if its flags only lose blocking reasons, or if nothing runs or a message waits.\<close>

lemma put_ec_flags_inv:
  assumes "threads_inv w" "th_ec w this = Some e" "ec_same e e'"
    and "\<not> at_user w this \<or> \<not> (bit (ec_flags e') 10 \<and> \<not> bit (ec_flags e) 10) \<and>
      (mail_for w this \<or> (\<forall>n\<in>{0, 1, 2, 3, 7, 9}. bit (ec_flags e') n \<longrightarrow> bit (ec_flags e) n))"
  shows "threads_inv (put_ec this e' w)"
proof (rule put_ec_inv [OF assms(1-3)])
  fix p
  show "run_same w p e e'"
    unfolding run_same_def
  proof (intro impI)
    assume u: "th_user w p \<and> th_current_ec w p \<noteq> 0 \<and> ec_currentPlace e = p"
    have "ec_currentPlace e \<noteq> 0"
      using u threads_invD(2) [OF assms(1)] by auto
    then have c: "th_current_ec w p = this"
      using threads_invD(3) [OF assms(1,2)] u by (auto simp: ec_ok_def)
    moreover have "\<not> bit (ec_flags e) 10" "ExecutionContext_isBlocked (ec_flags e) \<or> bit (ec_flags e) 9 \<longrightarrow> th_mail w p \<noteq> []"
      using threads_invD(4) [OF assms(1), of p] u c assms(2) by (auto simp: place_ok_def)
    ultimately show "\<not> bit (ec_flags e') 10 \<and> (ExecutionContext_isBlocked (ec_flags e') \<or> bit (ec_flags e') 9 \<longrightarrow> th_mail w p \<noteq> [])"
      using assms(4) u unfolding at_user_def mail_for_def isBlocked_bits by auto
  qed
qed

lemma put_ec_keep_inv:
  assumes "threads_inv w" "th_ec w this = Some e"
    and "ec_flags e' = ec_flags e" "ec_currentPlace e' = ec_currentPlace e" "ec_as e' = ec_as e"
  shows "threads_inv (put_ec this e' w)"
  by (rule put_ec_flags_inv [OF assms(1,2)]) (simp_all add: ec_same_def assms(3-5))

lemma clearFlags_inv:
  assumes "threads_inv w" "ExecutionContext_clearFlags this f w = Some (prev, w')" "\<not> bit f 2" "\<not> bit f 8"
  shows "threads_inv w'"
proof -
  obtain e where e: "th_ec w this = Some e" "w' = put_ec this (e\<lparr>ec_flags := ec_flags e AND NOT f\<rparr>) w"
    using assms(2) by (auto simp: ExecutionContext_clearFlags_def bind_eq_Some_conv)
  show ?thesis
    unfolding e(2) using assms(3,4) by (intro put_ec_flags_inv [OF assms(1) e(1)]) (auto simp: ec_same_def flag_ops)
qed

lemma setFlags_inv:
  assumes "threads_inv w" "ExecutionContext_setFlags this f w = Some (prev, w')" "\<not> bit f 8"
    and "\<not> at_user w this \<or> \<not> bit f 10 \<and> (mail_for w this \<or> \<not> (bit f 0 \<or> bit f 1 \<or> bit f 2 \<or> bit f 3 \<or> bit f 7 \<or> bit f 9))"
  shows "threads_inv w'"
proof -
  obtain e where e: "th_ec w this = Some e" "w' = put_ec this (e\<lparr>ec_flags := ec_flags e OR f\<rparr>) w"
    using assms(2) by (auto simp: ExecutionContext_setFlags_def bind_eq_Some_conv)
  show ?thesis
    unfolding e(2) using assms(3,4) by (intro put_ec_flags_inv [OF assms(1) e(1)]) (auto simp: ec_same_def flag_ops)
qed

text \<open>What an operation does not change: the places.\<close>

definition same_places :: "threads \<Rightarrow> threads \<Rightarrow> bool" where
  "same_places w w' \<longleftrightarrow> th_current_ec w' = th_current_ec w \<and> th_thread_state w' = th_thread_state w \<and> th_user w' = th_user w \<and>
     th_mail w' = th_mail w \<and> th_pagemap w' = th_pagemap w"

lemma same_places_simps:
  "same_places w w" "same_places w (put_ec this e w)" "same_places w (log ev w)"
  by (simp_all add: same_places_def log_def)

lemma same_places_trans [trans]: "same_places w w' \<Longrightarrow> same_places w' w'' \<Longrightarrow> same_places w w''"
  by (simp add: same_places_def)

lemma same_places_user: "same_places w w' \<Longrightarrow> at_user w' x = at_user w x \<and> mail_for w' x = mail_for w x"
  by (simp add: same_places_def at_user_def mail_for_def)

lemma flags_places:
  "ExecutionContext_setFlags this f w = Some (prev, w') \<Longrightarrow> same_places w w'"
  "ExecutionContext_clearFlags this f w = Some (prev, w') \<Longrightarrow> same_places w w'"
  "sched_call g sc ec w = Some w' \<Longrightarrow> same_places w w'"
  by (auto simp: ExecutionContext_setFlags_def ExecutionContext_clearFlags_def sched_call_def bind_eq_Some_conv same_places_def)

lemma clearFlagsResume_cases:
  assumes "ExecutionContext_clearFlagsResume this f w = Some w'"
  obtains prev w1 where "ExecutionContext_clearFlags this f w = Some (prev, w1)" "same_threads w1 w'" "same_places w w'"
proof -
  obtain prev w1 where w1: "ExecutionContext_clearFlags this f w = Some (prev, w1)"
    using assms by (auto simp: ExecutionContext_clearFlagsResume_def bind_eq_Some_conv)
  have "w' = w1 \<or> (\<exists>sc. sched_call SchedulingContext_ready sc this w1 = Some w')"
    using assms w1 by (auto simp: ExecutionContext_clearFlagsResume_def bind_eq_Some_conv split: if_splits sum.split_asm) (metis sum.exhaust)
  then have "same_threads w1 w' \<and> same_places w1 w'"
    using sched_call_same flags_places(3) by (auto simp: same_threads_def same_places_simps)
  then show ?thesis
    using that [OF w1] flags_places(2) [OF w1] same_places_trans by blast
qed

lemma clearFlagsResume_inv:
  assumes "threads_inv w" "ExecutionContext_clearFlagsResume this f w = Some w'" "\<not> bit f 2" "\<not> bit f 8"
  shows "threads_inv w'"
  using clearFlagsResume_cases [OF assms(2)] clearFlags_inv [OF assms(1) _ assms(3,4)] same_threads_inv by metis

lemma put_msg_inv:
  assumes "threads_inv w" "put_msg this msg w = Some w'"
  shows "threads_inv w'" "same_places w w'"
  using assms put_ec_keep_inv by (auto simp: put_msg_def bind_eq_Some_conv same_places_simps)

lemma setBaseRegisters_inv:
  assumes "threads_inv w" "ExecutionContext_setBaseRegisters this fs gs w = Some (res, w')"
  shows "threads_inv w'" "same_places w w'"
  using assms put_ec_keep_inv by (auto simp: ExecutionContext_setBaseRegisters_def bind_eq_Some_conv same_places_simps split: if_splits)

lemma setRegisters_inv:
  assumes "threads_inv w" "ExecutionContext_setRegisters this regs w = Some (res, w')"
  shows "threads_inv w'" "same_places w w'"
proof -
  obtain e where e: "th_ec w this = Some e" "ExecutionContext_setBaseRegisters this (ar_fs_base regs) (ar_gs_base regs)
       (put_ec this (e\<lparr>ec_threadState := set_user_registers regs (ec_threadState e)\<rparr>) w) = Some (res, w')"
    using assms(2) by (auto simp: ExecutionContext_setRegisters_def bind_eq_Some_conv)
  have "threads_inv (put_ec this (e\<lparr>ec_threadState := set_user_registers regs (ec_threadState e)\<rparr>) w)"
    by (rule put_ec_keep_inv [OF assms(1) e(1)]) simp_all
  from setBaseRegisters_inv [OF this e(2)] show "threads_inv w'" "same_places w w'"
    using same_places_trans [OF same_places_simps(2)] by blast+
qed

section \<open>Requests\<close>

lemma readThreadRegisters_inv:
  assumes "threads_inv w" "ExecutionContext_readThreadRegisters this w = Some w'"
  shows "threads_inv w'"
proof -
  obtain e where e: "th_ec w this = Some e"
    using assms(2) by (auto simp: ExecutionContext_readThreadRegisters_def bind_eq_Some_conv)
  obtain m w1 w2 msg where w: "ExecutionContext_clearFlagsResume this REGISTER_ACCESS (w\<lparr>th_message := m\<rparr>) = Some w1"
      "put_msg this 0 (log (ReplyResponse msg SUCCESS) w1) = Some w2" "w' = log (ResponseAndRequestDone this) w2"
    using assms(2) e by (cases "th_message w (ec_msg e)") (auto simp: ExecutionContext_readThreadRegisters_def bind_eq_Some_conv Let_def)
  have m: "same_threads w (w\<lparr>th_message := m\<rparr>)"
    by (simp add: same_threads_def)
  have "threads_inv w1"
    by (rule clearFlagsResume_inv [OF same_threads_inv [OF assms(1) m] w(1)]) (simp_all add: single_flag_bits)
  then show ?thesis
    using put_msg_inv(1) [OF _ w(2)] same_threads_inv log_same unfolding w(3) by blast
qed

lemma writeThreadRegisters_inv:
  assumes "threads_inv w" "ExecutionContext_writeThreadRegisters this w = Some w'" "\<not> at_user w this"
  shows "threads_inv w'"
proof -
  obtain e where e: "th_ec w this = Some e"
    using assms(2) by (auto simp: ExecutionContext_writeThreadRegisters_def bind_eq_Some_conv)
  obtain regs res w1 prev w2 w3 w4 msg where w: "ExecutionContext_setRegisters this regs w = Some (res, w1)"
      "(if opt_isError res then ExecutionContext_setFlags this IS_TRAPPED w1 else Some (0, w1)) = Some (prev, w2)"
      "ExecutionContext_clearFlagsResume this REGISTER_ACCESS w2 = Some w3"
      "put_msg this 0 (log (ReplyResponse msg (opt_state res)) w3) = Some w4" "w' = log (ResponseAndRequestDone this) w4"
    using assms(2) e by (cases "th_message w (ec_msg e)") (auto simp: ExecutionContext_writeThreadRegisters_def bind_eq_Some_conv Let_def)
  note r = setRegisters_inv [OF assms(1) w(1)]
  have "threads_inv w2"
    using w(2) r(1) setFlags_inv [OF r(1)] same_places_user [OF r(2)] assms(3) by (auto simp: single_flag_bits split: if_splits)
  then have "threads_inv w3"
    by (rule clearFlagsResume_inv [OF _ w(3)]) (simp_all add: single_flag_bits)
  then show ?thesis
    using put_msg_inv(1) [OF _ w(4)] same_threads_inv log_same unfolding w(5) by blast
qed

lemma suspendThread_inv:
  assumes "threads_inv w" "ExecutionContext_suspendThread this w = Some w'"
  shows "threads_inv w'"
proof -
  obtain w1 msg where "put_msg this 0 (log (ReplyResponse msg SUCCESS) w) = Some w1" "w' = log (ResponseAndRequestDone this) w1"
    using assms(2) by (auto simp: ExecutionContext_suspendThread_def bind_eq_Some_conv Let_def)
  then show ?thesis
    using put_msg_inv(1) assms(1) same_threads_inv log_same by blast
qed

text \<open>The place of an execution context in user mode.\<close>

lemma at_user_place:
  assumes "threads_inv w" "th_ec w this = Some e" "th_user w p" "th_current_ec w p = this"
  shows "ec_currentPlace e = p" "ec_currentPlace e \<noteq> 0"
proof -
  have "this \<noteq> 0"
    using threads_invD(1) [OF assms(1)] assms(2) by auto
  then show "ec_currentPlace e = p"
    using threads_invD(4) [OF assms(1), of p] assms(2,4) by (auto simp: place_ok_def)
  then show "ec_currentPlace e \<noteq> 0"
    using threads_invD(2) [OF assms(1)] assms(4) \<open>this \<noteq> 0\<close> by auto
qed

lemma unloaded_not_at_user: "threads_inv w \<Longrightarrow> th_ec w this = Some e \<Longrightarrow> ec_currentPlace e = 0 \<Longrightarrow> \<not> at_user w this"
  using at_user_place by (auto simp: at_user_def)

text \<open>
  The flags of a request are set before the message is sent; since nothing else happens in between,
  the order does not matter for what the place sees.
\<close>

lemma request_inv:
  assumes "threads_inv w" "th_ec w this = Some e" "e' = e\<lparr>ec_msg := msg, ec_flags := f'\<rparr>"
    and "bit f' 8 = bit (ec_flags e) 8" "bit f' 10 = bit (ec_flags e) 10" "bit f' 2 = bit (ec_flags e) 2"
    and "at_home this task handle (put_ec this e' w) = Some (err, w')"
    and "\<And>w1. threads_inv w1 \<Longrightarrow> handle this w1 = Some w' \<Longrightarrow> \<not> at_user w1 this \<Longrightarrow> threads_inv w'"
  shows "threads_inv w'"
proof (cases "ec_currentPlace e = 0")
  case True
  have nu: "\<not> at_user w this"
    by (rule unloaded_not_at_user [OF assms(1,2) True])
  then have "threads_inv (put_ec this e' w)"
    using assms(3-6) by (intro put_ec_flags_inv [OF assms(1,2)]) (auto simp: ec_same_def)
  moreover have "handle this (put_ec this e' w) = Some w'"
    using assms(3,7) True by (auto simp: at_home_def bind_eq_Some_conv)
  ultimately show ?thesis
    using assms(8) nu same_places_user [OF same_places_simps(2)] by blast
next
  case False
  let ?p = "ec_currentPlace e"
  have w': "w' = send ?p (task this) (put_ec this e' w)"
    using assms(3,7) False by (auto simp: at_home_def bind_eq_Some_conv)
  have s: "send ?p (task this) (put_ec this e' w) = put_ec this e' (send ?p (task this) w)"
    by (simp add: send_def put_ec_def)
  have m: "mail_for (send ?p (task this) w) this"
    using at_user_place [OF assms(1,2)] by (auto simp: mail_for_def send_def)
  have "th_ec (send ?p (task this) w) this = Some e"
    using assms(2) by (simp add: send_def)
  then show ?thesis
    unfolding w' s using m assms(3-6)
    by (intro put_ec_flags_inv [OF same_threads_inv [OF assms(1) send_same]]) (auto simp: ec_same_def)
qed

lemma invokeReadRegisters_inv:
  assumes "threads_inv w" "ExecutionContext_invokeReadRegisters this msg suspend w = Some (err, w')"
  shows "threads_inv w'"
proof -
  obtain e where e: "th_ec w this = Some e"
    using assms(2) by (auto simp: ExecutionContext_invokeReadRegisters_def put_msg_def bind_eq_Some_conv)
  let ?f = "ec_flags e OR (REGISTER_ACCESS OR DONT_PREEMPT OR (if suspend then IS_TRAPPED else 0))"
  have "at_home this ReadSleepResponse ExecutionContext_readThreadRegisters (put_ec this (e\<lparr>ec_msg := msg, ec_flags := ?f\<rparr>) w) = Some (err, w')"
    using assms(2) e by (auto simp: ExecutionContext_invokeReadRegisters_def put_msg_def ExecutionContext_setFlags_def bind_eq_Some_conv put_ec_def)
  from request_inv [OF assms(1) e refl _ _ _ this] show ?thesis
    using readThreadRegisters_inv by (auto simp: flag_ops single_flag_bits)
qed

lemma invokeWriteRegisters_inv:
  assumes "threads_inv w" "ExecutionContext_invokeWriteRegisters this msg resume w = Some (err, w')"
  shows "threads_inv w'"
proof -
  obtain e where e: "th_ec w this = Some e"
    using assms(2) by (auto simp: ExecutionContext_invokeWriteRegisters_def put_msg_def bind_eq_Some_conv)
  let ?f = "if resume then (ec_flags e OR REGISTER_ACCESS) AND NOT IS_TRAPPED else ec_flags e OR REGISTER_ACCESS"
  have "at_home this WriteSleepResponse ExecutionContext_writeThreadRegisters (put_ec this (e\<lparr>ec_msg := msg, ec_flags := ?f\<rparr>) w) = Some (err, w')"
    using assms(2) e
    by (auto simp: ExecutionContext_invokeWriteRegisters_def put_msg_def ExecutionContext_setFlags_def ExecutionContext_clearFlags_def
      bind_eq_Some_conv put_ec_def split: if_splits)
  from request_inv [OF assms(1) e refl _ _ _ this] show ?thesis
    using writeThreadRegisters_inv by (auto simp: flag_ops single_flag_bits)
qed

lemma invokeSuspend_inv:
  assumes "threads_inv w" "ExecutionContext_invokeSuspend this msg w = Some (err, w')"
  shows "threads_inv w'"
proof -
  obtain e where e: "th_ec w this = Some e"
    using assms(2) by (auto simp: ExecutionContext_invokeSuspend_def put_msg_def bind_eq_Some_conv)
  have "at_home this SleepResponse ExecutionContext_suspendThread (put_ec this (e\<lparr>ec_msg := msg, ec_flags := ec_flags e OR (IS_TRAPPED OR DONT_PREEMPT)\<rparr>) w) = Some (err, w')"
    using assms(2) e by (auto simp: ExecutionContext_invokeSuspend_def put_msg_def ExecutionContext_setFlags_def bind_eq_Some_conv put_ec_def)
  from request_inv [OF assms(1) e refl _ _ _ this] show ?thesis
    using suspendThread_inv by (auto simp: flag_ops single_flag_bits)
qed

section \<open>Suspending\<close>

lemma stop_user_inv:
  assumes "threads_inv w"
  shows "threads_inv (w\<lparr>th_user := (th_user w)(p := False)\<rparr>)"
proof -
  have "place_ok (w\<lparr>th_user := (th_user w)(p := False)\<rparr>) q" for q
    using threads_invD(4) [OF assms, of q] by (auto simp: place_ok_def)
  moreover have "ec_ok (w\<lparr>th_user := (th_user w)(p := False)\<rparr>) x e = ec_ok w x e" for x e
    by (simp add: ec_ok_def)
  ultimately show ?thesis
    using assms by (simp add: threads_inv_def)
qed

lemma setFlagsSuspend_cases:
  assumes "threads_inv w" "ExecutionContext_setFlagsSuspend p this f w = Some w'" "\<not> th_user w p" "ExecutionContext_isBlocked f"
  obtains (quiet) e where "th_ec w this = Some e" "w' = put_ec this (e\<lparr>ec_flags := ec_flags e OR (f OR DONT_PREEMPT)\<rparr>) w" "\<not> at_user w this \<or> mail_for w this"
    | (stopped) e q where "th_ec w this = Some e" "ec_currentPlace e = q" "q \<noteq> 0"
      "w' = put_ec this (e\<lparr>ec_flags := (ec_flags e OR (f OR DONT_PREEMPT)) OR NOT_RUNNING\<rparr>) (w\<lparr>th_user := (th_user w)(q := False)\<rparr>)"
proof -
  obtain e where e: "th_ec w this = Some e"
    using assms(2) by (auto simp: ExecutionContext_setFlagsSuspend_def ExecutionContext_setFlags_def bind_eq_Some_conv)
  let ?e1 = "e\<lparr>ec_flags := ec_flags e OR (f OR DONT_PREEMPT)\<rparr>" and ?q = "ec_currentPlace e"
  have b: "ExecutionContext_isBlocked (ec_flags e OR (f OR DONT_PREEMPT))"
    using assms(4) by (auto simp: flag_simps)
  have run: "w' = (if \<not> bit (ec_flags e) 9 \<and> ?q \<noteq> 0 \<and> ?q \<noteq> p \<and> th_user w ?q
      then put_ec this (e\<lparr>ec_flags := (ec_flags e OR (f OR DONT_PREEMPT)) OR NOT_RUNNING\<rparr>) (w\<lparr>th_user := (th_user w)(?q := False)\<rparr>) else put_ec this ?e1 w)"
  proof (cases "\<not> bit (ec_flags e) 9 \<and> ?q \<noteq> 0 \<and> ?q \<noteq> p \<and> th_user w ?q")
    case True
    have "this \<noteq> 0" "th_current_ec w ?q = this"
      using threads_invD(1) [OF assms(1)] threads_invD(3) [OF assms(1) e] e True by (auto simp: ec_ok_def)
    then show ?thesis
      using True assms(2) e b
      by (simp add: ExecutionContext_setFlagsSuspend_def ExecutionContext_setFlags_def ExecutionContext_isReady_def synchronousAt_def preempt_user_def
        interrupt_user_def ec_interrupted_def ExecutionContext_handleInterrupt_def needPreemption_bits Let_def) (auto simp: put_ec_def)
  next
    case False
    then show ?thesis
      using assms(2) e b
      by (auto simp: ExecutionContext_setFlagsSuspend_def ExecutionContext_setFlags_def ExecutionContext_isReady_def synchronousAt_def preempt_user_def
        needPreemption_bits Let_def split: if_splits)
  qed
  show ?thesis
  proof (cases "\<not> bit (ec_flags e) 9 \<and> ?q \<noteq> 0 \<and> ?q \<noteq> p \<and> th_user w ?q")
    case True
    then show ?thesis
      using stopped [OF e refl] run by simp
  next
    case False
    have "th_mail w x \<noteq> []" if "th_user w x" "th_current_ec w x = this" for x
      using that at_user_place [OF assms(1) e that] False assms(3) threads_invD(4) [OF assms(1), of x] e by (auto simp: place_ok_def)
    then show ?thesis
      using quiet [OF e] False run by (simp add: mail_for_def)
  qed
qed

lemma setFlagsSuspend_inv:
  assumes "threads_inv w" "ExecutionContext_setFlagsSuspend p this f w = Some w'" "\<not> th_user w p" "ExecutionContext_isBlocked f" "\<not> bit f 8" "\<not> bit f 10"
  shows "threads_inv w'" "\<not> th_user w' p" "th_pagemap w' = th_pagemap w"
    "\<exists>e e'. th_ec w this = Some e \<and> th_ec w' this = Some e' \<and> ec_currentPlace e' = ec_currentPlace e \<and> ec_as e' = ec_as e \<and> (bit f 2 \<longrightarrow> bit (ec_flags e') 2)"
proof -
  have "threads_inv w' \<and> \<not> th_user w' p \<and> th_pagemap w' = th_pagemap w \<and>
    (\<exists>e e'. th_ec w this = Some e \<and> th_ec w' this = Some e' \<and> ec_currentPlace e' = ec_currentPlace e \<and> ec_as e' = ec_as e \<and> (bit f 2 \<longrightarrow> bit (ec_flags e') 2))"
    using assms(1-4)
  proof (cases rule: setFlagsSuspend_cases)
    case (quiet e)
    have "threads_inv w'"
      unfolding quiet(2) using quiet(3) assms(5,6)
      by (intro put_ec_flags_inv [OF assms(1) quiet(1)]) (auto simp: ec_same_def flag_ops single_flag_bits)
    then show ?thesis
      using quiet assms(3) by (auto simp: flag_ops)
  next
    case (stopped e q)
    let ?w = "w\<lparr>th_user := (th_user w)(q := False)\<rparr>"
    have "\<not> at_user ?w this"
      using at_user_place(1) [OF assms(1) stopped(1)] stopped(2) by (auto simp: at_user_def split: if_splits)
    then have "threads_inv w'"
      unfolding stopped(4) using assms(5,6) stopped(1)
      by (intro put_ec_flags_inv [OF stop_user_inv [OF assms(1)]]) (auto simp: ec_same_def flag_ops single_flag_bits)
    then show ?thesis
      using stopped assms(3) by (auto simp: flag_ops)
  qed
  then show "threads_inv w'" "\<not> th_user w' p" "th_pagemap w' = th_pagemap w"
    "\<exists>e e'. th_ec w this = Some e \<and> th_ec w' this = Some e' \<and> ec_currentPlace e' = ec_currentPlace e \<and> ec_as e' = ec_as e \<and> (bit f 2 \<longrightarrow> bit (ec_flags e') 2)"
    by blast+
qed

lemma invokeSetFSGS_inv:
  assumes "threads_inv w" "ExecutionContext_invokeSetFSGS p this fs gs w = Some (err, w')" "\<not> th_user w p"
  shows "threads_inv w'"
proof -
  obtain res w1 where w1: "ExecutionContext_setBaseRegisters this fs gs w = Some (res, w1)"
    using assms(2) by (auto simp: ExecutionContext_invokeSetFSGS_def bind_eq_Some_conv)
  note r = setBaseRegisters_inv [OF assms(1) w1]
  have u: "\<not> th_user w1 p"
    using r(2) assms(3) by (simp add: same_places_def)
  consider "w' = w1" | w2 where "ExecutionContext_setFlagsSuspend p this IS_TRAPPED w1 = Some w2" "ExecutionContext_clearFlagsResume this IS_TRAPPED w2 = Some w'"
    using assms(2) w1 by (auto simp: ExecutionContext_invokeSetFSGS_def bind_eq_Some_conv split: if_splits)
  then show ?thesis
  proof cases
    case 2
    have "threads_inv w2"
      by (rule setFlagsSuspend_inv(1) [OF r(1) 2(1) u]) (simp_all add: flag_simps)
    then show ?thesis
      by (rule clearFlagsResume_inv [OF _ 2(2)]) (simp_all add: single_flag_bits)
  qed (use r(1) in simp)
qed

section \<open>Binding and unbinding\<close>

lemma upd_ec_put: "th_ec w this = Some e \<Longrightarrow> upd_ec this f w = put_ec this (f e) w"
  by (simp add: upd_ec_def put_ec_def)

lemma bind_as_inv:
  assumes "threads_inv w" "th_ec w this = Some e" "bit (ec_flags e) 2" "th_pagemap w (cap_getPtr k) \<noteq> None"
    and "CapRef_binding (as_ref p this w) this k (cr_put (as_ref p this w) k w) = Some w'"
  shows "threads_inv w'"
proof -
  let ?w = "put_ec this (e\<lparr>ec_as := k\<rparr>) w"
  have k: "cap_isUsable k" "ExecutionContext_clearFlagsResume this NO_AS ?w = Some w'"
    using assms(2,5) by (auto simp: CapRef_binding_def as_ref_def upd_ec_put ExecutionContext_bind_as_def bind_eq_Some_conv)
  obtain prev w1 where w1: "ExecutionContext_clearFlags this NO_AS ?w = Some (prev, w1)" "same_threads w1 w'"
    by (rule clearFlagsResume_cases [OF k(2)])
  have "w1 = put_ec this (e\<lparr>ec_as := k, ec_flags := ec_flags e AND NOT NO_AS\<rparr>) w"
    using w1(1) by (auto simp: ExecutionContext_clearFlags_def put_ec_def)
  moreover have "threads_inv (put_ec this (e\<lparr>ec_as := k, ec_flags := ec_flags e AND NOT NO_AS\<rparr>) w)"
  proof -
    let ?e = "e\<lparr>ec_as := k, ec_flags := ec_flags e AND NOT NO_AS\<rparr>"
    have "threads_inv (put_ec this (e\<lparr>ec_as := k\<rparr>) w)"
      using assms(3) by (intro put_ec_flags_inv [OF assms(1,2)]) (auto simp: ec_same_def)
    then have "ec_ok w this ?e"
      using threads_invD(3) [OF assms(1,2)] assms(4) k(1) by (auto simp: ec_ok_def flag_ops single_flag_bits)
    moreover have "place_ok (put_ec this ?e w) q" for q
      using threads_invD(4) [OF assms(1), of q] assms(2) by (auto simp: place_ok_def flag_simps)
    moreover have "ec_ok (put_ec this ?e w) x y = ec_ok w x y" for x y
      by (simp add: ec_ok_def)
    ultimately show ?thesis
      using assms(1,2) by (auto simp: threads_inv_def)
  qed
  ultimately show ?thesis
    using same_threads_inv w1(2) by simp
qed

lemma unbind_as_inv:
  assumes "threads_inv w" "CapRef_unbinding (as_ref p this w) this k w = Some w1" "\<not> th_user w p"
  shows "threads_inv (cr_put (as_ref p this w) cap_null w1)"
proof -
  have s: "ExecutionContext_setFlagsSuspend p this NO_AS w = Some w1"
    using assms(2) by (auto simp: CapRef_unbinding_def as_ref_def ExecutionContext_unbind_as_def bind_eq_Some_conv)
  note i = setFlagsSuspend_inv [OF assms(1) s assms(3)]
  obtain e' where e': "th_ec w1 this = Some e'" "bit (ec_flags e') 2"
    using i(4) by (auto simp: flag_simps)
  have "threads_inv w1"
    using i(1) by (simp add: flag_simps)
  then have "threads_inv (put_ec this (e'\<lparr>ec_as := cap_null\<rparr>) w1)"
    using e' by (intro put_ec_flags_inv) (auto simp: ec_same_def)
  then show ?thesis
    using e'(1) by (simp add: as_ref_def upd_ec_put)
qed

lemma bind_sched_inv:
  assumes "threads_inv w" "th_ec w this = Some e" "CapRef_binding (sched_ref p this w) this k (cr_put (sched_ref p this w) k w) = Some w'"
  shows "threads_inv w'"
proof -
  have c: "ExecutionContext_clearFlagsResume this NO_SCHED (put_ec this (e\<lparr>ec_sched := k\<rparr>) w) = Some w'"
    using assms(2,3) by (auto simp: CapRef_binding_def sched_ref_def upd_ec_put ExecutionContext_bind_sched_def bind_eq_Some_conv)
  have "threads_inv (put_ec this (e\<lparr>ec_sched := k\<rparr>) w)"
    by (rule put_ec_keep_inv [OF assms(1,2)]) simp_all
  then show ?thesis
    by (rule clearFlagsResume_inv [OF _ c]) (simp_all add: single_flag_bits)
qed

lemma unbind_sched_inv:
  assumes "threads_inv w" "CapRef_unbinding (sched_ref p this w) this k w = Some w1" "\<not> th_user w p"
  shows "threads_inv (cr_put (sched_ref p this w) cap_null w1)"
proof -
  obtain sc w2 where s: "ExecutionContext_setFlagsSuspend p this NO_SCHED w = Some w2" "sched_call SchedulingContext_unbind sc this w2 = Some w1"
    using assms(2) by (auto simp: CapRef_unbinding_def sched_ref_def ExecutionContext_unbind_sched_def bind_eq_Some_conv cast_IScheduler_def split: if_splits)
  note i = setFlagsSuspend_inv [OF assms(1) s(1) assms(3)]
  obtain e' where e': "th_ec w1 this = Some e'"
    using i(4) sched_call_same [OF s(2)] by (auto simp: flag_simps same_threads_def)
  have "threads_inv w1"
    using i(1) same_threads_inv [OF _ sched_call_same [OF s(2)]] by (simp add: flag_simps)
  then have "threads_inv (put_ec this (e'\<lparr>ec_sched := cap_null\<rparr>) w1)"
    using e' by (intro put_ec_keep_inv) simp_all
  then show ?thesis
    using e' by (simp add: sched_ref_def upd_ec_put)
qed

section \<open>Events, traps and system calls\<close>

lemma upd_ec_keep_inv:
  assumes "threads_inv w" "\<And>e. ec_flags (f e) = ec_flags e" "\<And>e. ec_currentPlace (f e) = ec_currentPlace e" "\<And>e. ec_as (f e) = ec_as e"
  shows "threads_inv (upd_ec this f w)" "same_places w (upd_ec this f w)"
proof -
  have "upd_ec this f w = w" if "th_ec w this = None"
    using that by (simp add: upd_ec_def) (metis fun_upd_idem_iff threads.surjective threads.update_convs(1))
  then show "threads_inv (upd_ec this f w)" "same_places w (upd_ec this f w)"
    using assms put_ec_keep_inv by (cases "th_ec w this"; simp add: upd_ec_put same_places_simps)+
qed

lemma attachKEvent_inv:
  assumes "threads_inv w" "ExecutionContext_attachKEvent this event w = Some w'"
  shows "threads_inv w'"
proof -
  obtain q where q: "ExecutionContext_clearFlagsResume this IS_WAITING (upd_events this q w) = Some w'"
    using assms(2) by (auto simp: ExecutionContext_attachKEvent_def bind_eq_Some_conv)
  have "threads_inv (upd_events this q w)"
    unfolding upd_events_def by (rule upd_ec_keep_inv [OF assms(1)]) simp_all
  then show ?thesis
    by (rule clearFlagsResume_inv [OF _ q]) (simp_all add: single_flag_bits)
qed

lemma detachKEvent_inv:
  assumes "threads_inv w" "ExecutionContext_detachKEvent this event w = Some w'"
  shows "threads_inv w'"
proof -
  obtain q where "w' = upd_events this q w"
    using assms(2) by (auto simp: ExecutionContext_detachKEvent_def bind_eq_Some_conv)
  then show ?thesis
    using upd_ec_keep_inv(1) [OF assms(1)] by (simp add: upd_events_def)
qed

lemma signal_inv:
  assumes "threads_inv w" "ExecutionContext_signal this w = Some (res, w')"
  shows "threads_inv w'" "same_places w w'"
proof -
  obtain prev w1 where w1: "ExecutionContext_setFlags this IS_NOTIFIED w = Some (prev, w1)" "ExecutionContext_clearFlagsResume this IS_WAITING w1 = Some w'"
    using assms(2) by (auto simp: ExecutionContext_signal_def bind_eq_Some_conv)
  have "threads_inv w1"
    by (rule setFlags_inv [OF assms(1) w1(1)]) (simp_all add: single_flag_bits)
  then show "threads_inv w'"
    by (rule clearFlagsResume_inv [OF _ w1(2)]) (simp_all add: single_flag_bits)
  show "same_places w w'"
    using flags_places(1) [OF w1(1)] clearFlagsResume_cases [OF w1(2)] same_places_trans by metis
qed

lemma sinks_inv:
  assumes "threads_inv w"
  shows "ExecutionContext_attachSignalSink this h w = Some w' \<Longrightarrow> threads_inv w'" "ExecutionContext_detachSignalSink this h w = Some w' \<Longrightarrow> threads_inv w'"
  using assms put_ec_keep_inv
  by (auto simp: ExecutionContext_attachSignalSink_def ExecutionContext_detachSignalSink_def bind_eq_Some_conv)

lemma map_loop_rel:
  assumes "LinkedList_map_loop f cur l w = Some w'" "\<And>x a b. f x a = Some b \<Longrightarrow> R a b" "\<And>a. R a a" "\<And>a b c. R a b \<Longrightarrow> R b c \<Longrightarrow> R a c"
  shows "R w w'"
proof -
  have "f = f \<longrightarrow> R w w'"
  proof (rule LinkedList_map_loop.raw_induct [where P = "\<lambda>f' cur l a b. f' = f \<longrightarrow> R a b", rotated, OF assms(1)])
    fix rec :: "(u64 \<Rightarrow> 'a \<Rightarrow> 'a option) \<Rightarrow> u64 \<Rightarrow> linked_list \<Rightarrow> 'a \<Rightarrow> 'a option" and f' cur l a b
    assume rec: "\<And>f' cur l a b. rec f' cur l a = Some b \<Longrightarrow> f' = f \<longrightarrow> R a b"
      and b: "(if cur \<noteq> 0 then Option.bind (f' cur a) (rec f' (ll_next l cur) l) else Some a) = Some b"
    show "f' = f \<longrightarrow> R a b"
      using b rec assms(2-4) by (auto simp: bind_eq_Some_conv split: if_splits) blast
  qed
  then show ?thesis
    by simp
qed

lemma changeSignal_same:
  assumes "ExecutionContext_changeSignal this sig w = Some w'"
  shows "same_threads w w'" "same_places w w'"
proof -
  obtain l where l: "LinkedList_map_loop (\<lambda>sink w. Some (log (SignalChanged sink sig) w)) (ll_head l) l w = Some w'"
    using assms by (auto simp: ExecutionContext_changeSignal_def LinkedList_map_def bind_eq_Some_conv)
  have "same_threads w w' \<and> same_places w w'"
    by (rule map_loop_rel [OF l, where R = "\<lambda>w w'. same_threads w w' \<and> same_places w w'"]) (auto simp: log_def same_threads_def same_places_def)
  then show "same_threads w w'" "same_places w w'"
    by blast+
qed

lemma handleTrap_inv:
  assumes "threads_inv w" "ExecutionContext_handleTrap this w = Some w'" "\<not> at_user w this"
  shows "threads_inv w'"
proof -
  obtain prev w1 where w1: "ExecutionContext_setFlags this (IS_TRAPPED OR NOT_RUNNING) w = Some (prev, w1)"
      "w' = w1 \<or> (\<exists>sig. ExecutionContext_changeSignal this sig w1 = Some w')"
    using assms(2) by (auto simp: ExecutionContext_handleTrap_def bind_eq_Some_conv Let_def split: if_splits)
  have "threads_inv w1"
    by (rule setFlags_inv [OF assms(1) w1(1)]) (simp_all add: flag_simps assms(3))
  then show ?thesis
    using w1(2) same_threads_inv changeSignal_same(1) by blast
qed

lemma wait_for_event_inv:
  assumes "threads_inv w" "wait_for_event this w = Some w'" "\<not> at_user w this"
  shows "threads_inv w'"
proof -
  obtain prev w1 where w1: "ExecutionContext_setFlags this (IN_WAIT OR IS_WAITING) w = Some (prev, w1)"
      "w' = w1 \<or> (\<exists>prev. ExecutionContext_clearFlags this IS_WAITING w1 = Some (prev, w'))"
    using assms(2) by (auto simp: wait_for_event_def bind_eq_Some_conv split: if_splits)
  have "threads_inv w1"
    by (rule setFlags_inv [OF assms(1) w1(1)]) (simp_all add: flag_simps assms(3))
  then show ?thesis
    using w1(2) clearFlags_inv by (auto simp: single_flag_bits)
qed

lemma put_code_inv: "threads_inv w \<Longrightarrow> threads_inv (put_code this code w)" "same_places w (put_code this code w)"
  using upd_ec_keep_inv(1) by (auto simp: put_code_def same_places_def upd_ec_def)

lemma syscall_signal_inv:
  assumes "threads_inv w" "syscall_signal env this ptr (s, w) = Some w'"
  shows "threads_inv w'"
proof -
  have "(\<exists>c. w' = put_code this c w) \<or> (\<exists>th res w1 c. ExecutionContext_signal th w = Some (res, w1) \<and> w' = put_code this c w1)"
    using assms(2) by (auto simp: syscall_signal_def bind_eq_Some_conv split: sum.split_asm) (metis sum.exhaust)+
  then show ?thesis
    using assms(1) put_code_inv(1) signal_inv(1) by blast
qed

lemma handleSyscall_cases:
  assumes "ExecutionContext_handleSyscall env this (s, w) = Some w'"
  obtains prev w1 w2 where "ExecutionContext_setFlags this NOT_RUNNING w = Some (prev, w1)" "w2 = w1 \<or> (\<exists>c. w2 = put_code this c w1)"
    "(\<exists>prev w3. ExecutionContext_setFlags this IS_TRAPPED w2 = Some (prev, w3) \<and> ExecutionContext_changeSignal this TRAP_EXIT w3 = Some w') \<or>
     (\<exists>prev. ExecutionContext_setFlags this IN_WAIT w2 = Some (prev, w')) \<or> wait_for_event this w2 = Some w' \<or> w' = w2 \<or>
     (\<exists>u l c. w' = put_code this c (log (UserMessage u l) w2)) \<or> (\<exists>ptr. syscall_signal env this ptr (s, w2) = Some w')"
proof -
  obtain prev w1 e where w1: "ExecutionContext_setFlags this NOT_RUNNING w = Some (prev, w1)" "th_ec w1 this = Some e"
    using assms by (auto simp: ExecutionContext_handleSyscall_def bind_eq_Some_conv)
  let ?c = "ts_rdi (ec_threadState e)"
  consider "?c = 0" | "?c = 1" | "?c = 2" | "?c = 3" | "?c = 4" | "?c = 5" | "?c = 6" | "?c = 7" | "?c \<notin> {0, 1, 2, 3, 4, 5, 6, 7}"
    by blast
  then show ?thesis
  proof cases
    case 3
    then show ?thesis using that [OF w1(1), of w1] assms w1 by (simp add: ExecutionContext_handleSyscall_def)
  next
    case 4
    then obtain c where "w' = put_code this c w1"
      using assms w1 by (auto simp: ExecutionContext_handleSyscall_def bind_eq_Some_conv Let_def)
    then show ?thesis using that [OF w1(1), of "put_code this c w1"] by blast
  next
    case 5
    then obtain c where "w' = put_code this c w1 \<or> (\<exists>prev. ExecutionContext_setFlags this IN_WAIT (put_code this c w1) = Some (prev, w'))"
      using assms w1 by (auto simp: ExecutionContext_handleSyscall_def bind_eq_Some_conv Let_def split: if_splits)
    then show ?thesis using that [OF w1(1), of "put_code this c w1"] by blast
  next
    case 6
    then obtain c where "w' = put_code this c w1 \<or> wait_for_event this (put_code this c w1) = Some w'"
      using assms w1 by (auto simp: ExecutionContext_handleSyscall_def bind_eq_Some_conv Let_def split: if_splits)
    then show ?thesis using that [OF w1(1), of "put_code this c w1"] by blast
  qed (use that [OF w1(1), of w1] assms w1 in \<open>auto simp: ExecutionContext_handleSyscall_def bind_eq_Some_conv Let_def\<close>)
qed

lemma handleSyscall_inv:
  assumes "threads_inv w" "ExecutionContext_handleSyscall env this (s, w) = Some w'" "\<not> at_user w this"
  shows "threads_inv w'"
  using assms(2)
proof (rule handleSyscall_cases)
  fix prev w1 w2
  assume w1: "ExecutionContext_setFlags this NOT_RUNNING w = Some (prev, w1)" and w2: "w2 = w1 \<or> (\<exists>c. w2 = put_code this c w1)"
    and w': "(\<exists>prev w3. ExecutionContext_setFlags this IS_TRAPPED w2 = Some (prev, w3) \<and> ExecutionContext_changeSignal this TRAP_EXIT w3 = Some w') \<or>
     (\<exists>prev. ExecutionContext_setFlags this IN_WAIT w2 = Some (prev, w')) \<or> wait_for_event this w2 = Some w' \<or> w' = w2 \<or>
     (\<exists>u l c. w' = put_code this c (log (UserMessage u l) w2)) \<or> (\<exists>ptr. syscall_signal env this ptr (s, w2) = Some w')"
  have "threads_inv w1"
    by (rule setFlags_inv [OF assms(1) w1]) (simp_all add: flag_simps assms(3))
  then have i2: "threads_inv w2"
    using w2 put_code_inv(1) by blast
  have "same_places w w2"
    using flags_places(1) [OF w1] w2 put_code_inv(2) same_places_trans by blast
  then have u2: "\<not> at_user w2 this"
    using same_places_user assms(3) by blast
  have trap: "threads_inv w3" if "ExecutionContext_setFlags this IS_TRAPPED w2 = Some (prev, w3)" for prev w3
    by (rule setFlags_inv [OF i2 that]) (simp_all add: flag_simps u2)
  have poll: "threads_inv w3" if "ExecutionContext_setFlags this IN_WAIT w2 = Some (prev, w3)" for prev w3
    by (rule setFlags_inv [OF i2 that]) (simp_all add: flag_simps u2)
  show ?thesis
    using w' trap poll i2 u2 wait_for_event_inv syscall_signal_inv same_threads_inv [OF _ changeSignal_same(1)]
      put_code_inv(1) [OF same_threads_inv [OF i2 log_same]] by blast
qed

section \<open>Loading and resuming\<close>

lemma load_step:
  assumes "threads_inv w" "th_ec w this = Some e" "ec_currentPlace e = 0" "th_current_ec w p = 0" "p \<noteq> 0" "\<not> th_user w p"
  defines "w' \<equiv> put_ec this (e\<lparr>ec_currentPlace := p, ec_flags := ec_flags e AND NOT NOT_LOADED\<rparr>)
    (w\<lparr>th_thread_state := (th_thread_state w)(p := this), th_fpu := (th_fpu w)(p := ec_fpuState e), th_current_ec := (th_current_ec w)(p := this)\<rparr>)"
  shows "ExecutionContext_loadState p this w = Some w'" "threads_inv w'"
proof -
  have o: "bit (ec_flags e) 8" "\<not> bit (ec_flags e) 2 \<Longrightarrow> cap_isUsable (ec_as e) \<and> th_pagemap w (cap_getPtr (ec_as e)) \<noteq> None"
    using threads_invD(3) [OF assms(1,2)] assms(3) by (auto simp: ec_ok_def)
  have t: "th_thread_state w p = 0"
    using threads_invD(4) [OF assms(1), of p] assms(4) by (simp add: place_ok_def)
  show "ExecutionContext_loadState p this w = Some w'"
    using assms(2-4) o(1) t
    by (simp add: ExecutionContext_loadState_def ExecutionContext_clearFlags_def flag_masks Let_def w'_def put_ec_def)
  have nz: "this \<noteq> 0"
    using threads_invD(1) [OF assms(1)] assms(2) by auto
  have "ec_ok w' this (e\<lparr>ec_currentPlace := p, ec_flags := ec_flags e AND NOT NOT_LOADED\<rparr>)"
    using o(2) assms(5) by (auto simp: ec_ok_def w'_def flag_simps)
  moreover have "ec_ok w' x y" if "th_ec w x = Some y" "x \<noteq> this" for x y
  proof -
    have "ec_currentPlace y \<noteq> p"
      using threads_invD(3) [OF assms(1) that(1)] threads_invD(1) [OF assms(1)] that(1) assms(4,5) by (auto simp: ec_ok_def)
    then show ?thesis
      using threads_invD(3) [OF assms(1) that(1)] by (auto simp: ec_ok_def w'_def)
  qed
  moreover have "place_ok w' q" for q
  proof (cases "q = p")
    case False
    then have "th_current_ec w q \<noteq> this"
      using threads_invD(4) [OF assms(1), of q] threads_invD(2) [OF assms(1)] assms(2,3) nz by (cases "q = 0") (auto simp: place_ok_def)
    then show ?thesis
      using threads_invD(4) [OF assms(1), of q] False by (auto simp: place_ok_def w'_def)
  qed (use assms(6) nz in \<open>auto simp: place_ok_def w'_def\<close>)
  ultimately show "threads_inv w'"
    using threads_invD(1,2) [OF assms(1)] assms(5) nz by (auto simp: threads_inv_def w'_def split: if_splits)
qed

lemma save_step:
  assumes "threads_inv w" "th_ec w this = Some e" "th_current_ec w p = this" "\<not> th_user w p"
  defines "w' \<equiv> put_ec this (e\<lparr>ec_flags := ec_flags e OR NOT_LOADED, ec_currentPlace := 0, ec_fpuState := th_fpu w p\<rparr>)
    (w\<lparr>th_thread_state := (th_thread_state w)(p := 0), th_current_ec := (th_current_ec w)(p := 0)\<rparr>)"
  shows "ExecutionContext_saveState p this w = Some w'" "threads_inv w'"
proof -
  have nz: "this \<noteq> 0"
    using threads_invD(1) [OF assms(1)] assms(2) by auto
  then have pl: "ec_currentPlace e = p" "th_thread_state w p = this" "p \<noteq> 0"
    using threads_invD(4) [OF assms(1), of p] threads_invD(2) [OF assms(1)] assms(2,3) by (auto simp: place_ok_def)
  have o: "\<not> bit (ec_flags e) 8" "\<not> bit (ec_flags e) 2 \<Longrightarrow> cap_isUsable (ec_as e) \<and> th_pagemap w (cap_getPtr (ec_as e)) \<noteq> None"
    using threads_invD(3) [OF assms(1,2)] pl by (auto simp: ec_ok_def)
  show "ExecutionContext_saveState p this w = Some w'"
    using assms(2,3) o(1) pl
    by (simp add: ExecutionContext_saveState_def ExecutionContext_setFlags_def flag_masks Let_def w'_def put_ec_def)
  have "ec_ok w' this (e\<lparr>ec_flags := ec_flags e OR NOT_LOADED, ec_currentPlace := 0, ec_fpuState := th_fpu w p\<rparr>)"
    using o(2) by (auto simp: ec_ok_def w'_def flag_simps)
  moreover have "ec_ok w' x y" if "th_ec w x = Some y" "x \<noteq> this" for x y
    using threads_invD(3) [OF assms(1) that(1)] that(2) assms(3) by (auto simp: ec_ok_def w'_def)
  moreover have "place_ok w' q" for q
  proof (cases "q = p")
    case False
    have "ec_currentPlace e = q" if "th_current_ec w q = this"
      using threads_invD(4) [OF assms(1), of q] assms(2) nz that by (simp add: place_ok_def)
    then have "th_current_ec w q \<noteq> this"
      using False pl(1) by blast
    then show ?thesis
      using threads_invD(4) [OF assms(1), of q] False by (auto simp: place_ok_def w'_def)
  qed (use assms(4) in \<open>auto simp: place_ok_def w'_def\<close>)
  ultimately show "threads_inv w'"
    using threads_invD(1,2) [OF assms(1)] nz by (auto simp: threads_inv_def w'_def split: if_splits)
qed

lemma start_user_inv:
  assumes "threads_inv w" "th_ec w (th_current_ec w p) = Some e" "\<not> bit (ec_flags e) 10" "\<not> bit (ec_flags e) 9" "\<not> ExecutionContext_isBlocked (ec_flags e)"
  shows "threads_inv (w\<lparr>th_cr3 := c, th_user := (th_user w)(p := True)\<rparr>)"
proof -
  let ?w = "w\<lparr>th_cr3 := c, th_user := (th_user w)(p := True)\<rparr>"
  have "place_ok ?w q" for q
    using threads_invD(4) [OF assms(1), of q] assms(2-5) by (cases "q = p") (auto simp: place_ok_def)
  moreover have "ec_ok ?w x y = ec_ok w x y" for x y
    by (simp add: ec_ok_def)
  ultimately show ?thesis
    using assms(1) by (simp add: threads_inv_def)
qed

lemma return_event_step:
  "\<exists>e1. return_event env this (put_ec this e w) = Some (put_ec this e1 w) \<and> ec_currentPlace e1 = ec_currentPlace e \<and> ec_as e1 = ec_as e \<and> ec_sched e1 = ec_sched e \<and>
     (\<forall>n. bit (ec_flags e1) n \<longrightarrow> bit (ec_flags e) n) \<and> (\<forall>n. n \<noteq> 5 \<and> n \<noteq> 6 \<longrightarrow> bit (ec_flags e1) n = bit (ec_flags e) n)"
proof (cases "bit (ec_flags e) 5")
  case True
  let ?f = "ec_flags e AND NOT IN_WAIT AND NOT IS_NOTIFIED"
  obtain ev q where q: "LinkedList_pull (ec_eventQueue e) = (ev, q)"
    by fastforce
  obtain u st where u: "(if ev \<noteq> 0 then se_deliverKEvent env ev else (0, Error_code NO_MESSAGE)) = (u, st)"
    by fastforce
  have "return_event env this (put_ec this e w) =
      Some (put_ec this (e\<lparr>ec_flags := (ec_flags e AND NOT IN_WAIT) AND NOT IS_NOTIFIED, ec_eventQueue := q, ec_threadState := (ec_threadState e)\<lparr>ts_rsi := u, ts_rdi := st\<rparr>\<rparr>) w)"
    using True q u by (simp add: return_event_def ExecutionContext_clearFlags_def flag_masks put_ec_def)
  then show ?thesis
    by (auto simp: flag_ops single_flag_bits)
next
  case False
  then have "return_event env this (put_ec this e w) = Some (put_ec this (e\<lparr>ec_flags := ec_flags e AND NOT IN_WAIT\<rparr>) w)"
    by (simp add: return_event_def ExecutionContext_clearFlags_def flag_masks put_ec_def)
  then show ?thesis
    by (auto simp: flag_ops single_flag_bits)
qed

lemma running_bits: "bit (f AND NOT (NOT_RUNNING OR DONT_PREEMPT)) n \<longleftrightarrow> bit f n \<and> n \<noteq> 10 \<and> n \<noteq> 9"
  unfolding flag_ops single_flag_bits by blast

lemma resume_step:
  assumes "threads_inv w" "th_ec w this = Some e" "th_current_ec w p = this" "\<not> ExecutionContext_isBlocked (ec_flags e)"
  shows "\<exists>e1 info. ExecutionContext_resume env p this w = Some (False, (put_ec this e1 w)\<lparr>th_cr3 := (th_cr3 w)(p := pi_table info), th_user := (th_user w)(p := True)\<rparr>) \<and>
    threads_inv ((put_ec this e1 w)\<lparr>th_cr3 := (th_cr3 w)(p := pi_table info), th_user := (th_user w)(p := True)\<rparr>) \<and>
    th_pagemap w (cap_getPtr (ec_as e)) = Some info \<and> ec_currentPlace e1 = p \<and> ec_sched e1 = ec_sched e \<and>
    (\<forall>n. n \<notin> {5, 6, 9, 10} \<longrightarrow> bit (ec_flags e1) n = bit (ec_flags e) n)"
proof -
  have nz: "this \<noteq> 0"
    using threads_invD(1) [OF assms(1)] assms(2) by auto
  then have pl: "ec_currentPlace e = p" "p \<noteq> 0"
    using threads_invD(4) [OF assms(1), of p] threads_invD(2) [OF assms(1)] assms(2,3) by (auto simp: place_ok_def)
  have o: "\<not> bit (ec_flags e) 8" "cap_isUsable (ec_as e)" and info: "th_pagemap w (cap_getPtr (ec_as e)) \<noteq> None"
    using threads_invD(3) [OF assms(1,2)] pl assms(4) by (auto simp: ec_ok_def isBlocked_bits)
  obtain info where info: "th_pagemap w (cap_getPtr (ec_as e)) = Some info"
    using info by blast
  let ?e0 = "e\<lparr>ec_flags := ec_flags e AND NOT (NOT_RUNNING OR DONT_PREEMPT)\<rparr>"
  have sel: "ec_flags ?e0 = ec_flags e AND NOT (NOT_RUNNING OR DONT_PREEMPT)" "ec_currentPlace ?e0 = ec_currentPlace e" "ec_as ?e0 = ec_as e" "ec_sched ?e0 = ec_sched e"
    by simp_all
  obtain e1 where e1: "return_event env this (put_ec this ?e0 w) = Some (put_ec this e1 w)" "ec_currentPlace e1 = p" "ec_as e1 = ec_as e" "ec_sched e1 = ec_sched e"
    "\<And>n. bit (ec_flags e1) n \<Longrightarrow> bit (ec_flags e) n" "\<And>n. n \<noteq> 5 \<and> n \<noteq> 6 \<Longrightarrow> bit (ec_flags e1) n \<longleftrightarrow> bit (ec_flags e) n \<and> n \<noteq> 10 \<and> n \<noteq> 9"
    using return_event_step [of env this ?e0 w] pl(1) unfolding sel running_bits by blast
  have f: "\<not> bit (ec_flags e1) 10" "\<not> bit (ec_flags e1) 9" "\<not> ExecutionContext_isBlocked (ec_flags e1)" "bit (ec_flags e1) 8 = bit (ec_flags e) 8" "\<not> bit (ec_flags e1) 2"
    using e1(6) assms(4) by (auto simp: isBlocked_bits)
  have same: "ec_same e e1"
    using e1(2,3) f pl(1) assms(4) by (auto simp: ec_same_def isBlocked_bits)
  have fewer: "bit (ec_flags e1) n \<longrightarrow> bit (ec_flags e) n" for n
    using e1(5) [of n] by blast
  have "threads_inv (put_ec this e1 w)"
    by (rule put_ec_flags_inv [OF assms(1,2) same]) (use fewer f(1) in blast)
  then have "threads_inv ((put_ec this e1 w)\<lparr>th_cr3 := (th_cr3 w)(p := pi_table info), th_user := (th_user w)(p := True)\<rparr>)"
    using start_user_inv [of "put_ec this e1 w" p e1 "(th_cr3 w)(p := pi_table info)"] assms(3) f by simp
  moreover have "ExecutionContext_resume env p this w = Some (False, (put_ec this e1 w)\<lparr>th_cr3 := (th_cr3 w)(p := pi_table info), th_user := (th_user w)(p := True)\<rparr>)"
    using assms(2,4) o pl(1) e1(1) info
    by (simp add: ExecutionContext_resume_def flag_masks TypedCap_set_def cast_pagemap_def)
  moreover have "bit (ec_flags e1) n = bit (ec_flags e) n" if "n \<notin> {5, 6, 9, 10}" for n
    using e1(6) [of n] that by simp
  ultimately show ?thesis
    using info e1(2,4) by blast
qed

end
