(* ===== verification/Thread_Sched.thy ===== *)
theory Thread_Sched
  imports Thread_Safety
begin

text \<open>
  Execution contexts and their schedulers: an execution context that is ready is selected or queued by
  the scheduler it is bound to, so that it is not forgotten, and a scheduler only meets execution
  contexts that can be loaded at its place. With that, the scheduler of a place returns, or resumes the
  first execution context that is ready.
\<close>

section \<open>Schedulers\<close>

text \<open>The execution context is bound to a scheduler, and the scheduler has it selected or in its queue.\<close>

definition bound :: "threads \<Rightarrow> u64 \<Rightarrow> u64 \<Rightarrow> bool" where
  "bound w x sc \<longleftrightarrow> (\<exists>e. th_ec w x = Some e \<and> cap_isUsable (ec_sched e) \<and> cap_getPtr (ec_sched e) = sc)"

definition has_ec :: "sched_ctx \<Rightarrow> u64 \<Rightarrow> bool" where
  "has_ec c x \<longleftrightarrow> x \<noteq> 0 \<and> (x = sc_current_handle c \<or> (\<exists>xs. ll_rep (sc_readyQueue c) xs \<and> x \<in> set xs))"

definition listed :: "threads \<Rightarrow> u64 \<Rightarrow> bool" where
  "listed w x \<longleftrightarrow> (\<exists>sc c. bound w x sc \<and> th_sc w sc = Some c \<and> has_ec c x)"

definition ec_ready :: "u64 \<Rightarrow> threads \<Rightarrow> bool" where
  "ec_ready x w \<longleftrightarrow> (\<exists>e. th_ec w x = Some e \<and> \<not> ExecutionContext_isBlocked (ec_flags e))"

definition places_bound :: "threads \<Rightarrow> bool" where
  "places_bound w \<longleftrightarrow> (\<forall>x e sc c. th_ec w x = Some e \<and> bound w x sc \<and> th_sc w sc = Some c \<longrightarrow> ec_currentPlace e = 0 \<or> ec_currentPlace e = sc_home c)"

definition queue_ok :: "threads \<Rightarrow> bool" where
  "queue_ok w \<longleftrightarrow> (\<forall>sc c. th_sc w sc = Some c \<longrightarrow> (\<exists>xs. ll_rep (sc_readyQueue c) xs) \<and> (\<forall>x. has_ec c x \<longrightarrow> bound w x sc))"

definition none_lost :: "threads \<Rightarrow> bool" where
  "none_lost w \<longleftrightarrow> (\<forall>x. ec_ready x w \<longrightarrow> listed w x)"

definition user_awake :: "threads \<Rightarrow> bool" where
  "user_awake w \<longleftrightarrow> (\<forall>p e. th_user w p \<and> th_ec w (th_current_ec w p) = Some e \<longrightarrow> \<not> bit (ec_flags e) 0)"

definition has_sched :: "threads \<Rightarrow> bool" where
  "has_sched w \<longleftrightarrow> (\<forall>x e. th_ec w x = Some e \<and> \<not> bit (ec_flags e) 3 \<longrightarrow> (\<exists>sc c. bound w x sc \<and> th_sc w sc = Some c))"

text \<open>Everything but the claim that the execution contexts other than \<open>this\<close> are not lost.\<close>

definition sched_base :: "threads \<Rightarrow> bool" where
  "sched_base w \<longleftrightarrow> th_ec w 0 = None \<and> places_bound w \<and> queue_ok w \<and> user_awake w \<and> has_sched w"

definition sched_inv :: "threads \<Rightarrow> bool" where
  "sched_inv w \<longleftrightarrow> sched_base w \<and> none_lost w"

definition sys_inv :: "threads \<Rightarrow> bool" where
  "sys_inv w \<longleftrightarrow> threads_inv w \<and> sched_inv w"

lemma has_ec_rep: "ll_rep (sc_readyQueue c) xs \<Longrightarrow> has_ec c x \<longleftrightarrow> x \<noteq> 0 \<and> (x = sc_current_handle c \<or> x \<in> set xs)"
  using ll_rep_unique by (auto simp: has_ec_def)

lemma queue_okD: "queue_ok w \<Longrightarrow> th_sc w sc = Some c \<Longrightarrow> \<exists>xs. ll_rep (sc_readyQueue c) xs" "queue_ok w \<Longrightarrow> th_sc w sc = Some c \<Longrightarrow> has_ec c x \<Longrightarrow> bound w x sc"
  unfolding queue_ok_def by blast+

lemma has_schedD: "has_sched w \<Longrightarrow> th_ec w x = Some e \<Longrightarrow> \<not> bit (ec_flags e) 3 \<Longrightarrow> \<exists>sc c. bound w x sc \<and> th_sc w sc = Some c"
  unfolding has_sched_def by blast

text \<open>Changes that keep what the schedulers know.\<close>

lemma bound_put: "th_ec w this = Some e \<Longrightarrow> ec_sched e' = ec_sched e \<Longrightarrow> bound (put_ec this e' w) = bound w"
  by (auto simp: bound_def fun_eq_iff)

lemma sched_base_put:
  assumes "sched_base w" "th_ec w this = Some e" "ec_sched e' = ec_sched e" "ec_currentPlace e' = ec_currentPlace e"
    and "bit (ec_flags e') 0 \<Longrightarrow> bit (ec_flags e) 0 \<or> \<not> at_user w this"
    and "\<not> bit (ec_flags e') 3 \<Longrightarrow> bit (ec_flags e) 3 \<Longrightarrow> \<exists>sc c. bound w this sc \<and> th_sc w sc = Some c"
  shows "sched_base (put_ec this e' w)"
proof -
  let ?w = "put_ec this e' w"
  note b = bound_put [OF assms(2,3)]
  have base: "places_bound w" "queue_ok w" "user_awake w" "has_sched w" "this \<noteq> 0" "th_ec w 0 = None"
    using assms(1,2) by (auto simp: sched_base_def)
  have "places_bound ?w" "queue_ok ?w"
    using base(1,2) assms(2,4) unfolding places_bound_def queue_ok_def b by (auto split: if_splits)
  moreover have "user_awake ?w"
    using base(3) assms(2,5) unfolding user_awake_def at_user_def by (auto split: if_splits)
  moreover have "has_sched ?w"
    using base(4) assms(2,6) unfolding has_sched_def b by (auto split: if_splits)
  ultimately show ?thesis
    using base(5,6) by (simp add: sched_base_def)
qed

lemma listed_put: "th_ec w this = Some e \<Longrightarrow> ec_sched e' = ec_sched e \<Longrightarrow> listed (put_ec this e' w) = listed w"
  by (simp add: listed_def bound_put fun_eq_iff)

lemma sched_inv_put:
  assumes "sched_inv w" "th_ec w this = Some e" "ec_sched e' = ec_sched e" "ec_currentPlace e' = ec_currentPlace e"
    and "bit (ec_flags e') 0 \<Longrightarrow> bit (ec_flags e) 0 \<or> \<not> at_user w this"
    and "\<not> bit (ec_flags e') 3 \<Longrightarrow> bit (ec_flags e) 3 \<Longrightarrow> \<exists>sc c. bound w this sc \<and> th_sc w sc = Some c"
    and "ExecutionContext_isBlocked (ec_flags e) \<Longrightarrow> ExecutionContext_isBlocked (ec_flags e')"
  shows "sched_inv (put_ec this e' w)"
proof -
  have "ec_ready x w" if "ec_ready x (put_ec this e' w)" for x
    using that assms(2,7) by (auto simp: ec_ready_def split: if_splits)
  then show ?thesis
    using sched_base_put [OF _ assms(2-6)] assms(1) by (simp add: sched_inv_def none_lost_def listed_put [OF assms(2,3)])
qed

lemma sched_inv_same:
  assumes "sched_inv w" "th_ec w' = th_ec w" "th_sc w' = th_sc w" "\<And>p. th_user w' p \<Longrightarrow> th_user w p \<and> th_current_ec w' p = th_current_ec w p"
  shows "sched_inv w'"
proof -
  have b: "bound w' = bound w" "ec_ready x w' = ec_ready x w" for x
    using assms(2) by (auto simp: bound_def ec_ready_def fun_eq_iff)
  then have "listed w' x = listed w x" for x
    using assms(3) by (simp add: listed_def)
  moreover have "user_awake w'"
    using assms(1,2,4) unfolding sched_inv_def sched_base_def user_awake_def by metis
  ultimately show ?thesis
    using assms(1-3) b by (simp add: sched_inv_def sched_base_def places_bound_def queue_ok_def none_lost_def has_sched_def)
qed

text \<open>The notice that an execution context became ready puts it into the queue of its scheduler.\<close>

lemma sched_ready_inv:
  assumes "sched_base w" "\<And>x. x \<noteq> this \<Longrightarrow> ec_ready x w \<Longrightarrow> listed w x"
    and "bound w this sc" "th_sc w sc = Some c"
  shows "\<exists>w'. sched_call SchedulingContext_ready sc this w = Some w' \<and> sched_inv w'"
proof -
  have base: "places_bound w" "queue_ok w" "user_awake w" "has_sched w" "th_ec w 0 = None"
    using assms(1) by (auto simp: sched_base_def)
  obtain xs where xs: "ll_rep (sc_readyQueue c) xs"
    using queue_okD(1) [OF base(2) assms(4)] by blast
  have nz: "this \<noteq> 0"
    using assms(3) base(5) by (auto simp: bound_def)
  obtain ev q where q: "SchedulingContext_ready this c = Some (ev, c\<lparr>sc_readyQueue := q\<rparr>)" "ll_rep q (remove1 this xs @ [this])"
    using ready_step [OF xs nz] by blast
  let ?c = "c\<lparr>sc_readyQueue := q\<rparr>"
  define w' where "w' = w\<lparr>th_sc := (th_sc w)(sc \<mapsto> ?c), th_events := th_events w @ map SchedEvent ev\<rparr>"
  have w': "sched_call SchedulingContext_ready sc this w = Some w'"
    using assms(4) q(1) by (simp add: sched_call_def w'_def)
  have h: "has_ec ?c x \<longleftrightarrow> has_ec c x \<or> x = this" for x
    using has_ec_rep [OF xs] has_ec_rep [of ?c] q(2) nz lq.members [OF xs] by auto
  have b: "bound w' = bound w" and r: "ec_ready x w' = ec_ready x w" for x
    by (auto simp: w'_def bound_def ec_ready_def fun_eq_iff)
  have sc: "th_sc w' s = (if s = sc then Some ?c else th_sc w s)" "th_ec w' = th_ec w" for s
    by (simp_all add: w'_def)
  have "places_bound w'"
    using base(1) assms(4) unfolding places_bound_def b sc by (auto split: if_splits)
  moreover have "queue_ok w'"
    using base(2) assms(3,4) q(2) unfolding queue_ok_def b sc h by (auto simp: h split: if_splits)
  moreover have "has_sched w'"
    using base(4) unfolding has_sched_def b sc by (metis option.distinct(1))
  moreover have "none_lost w'"
    unfolding none_lost_def
  proof (intro allI impI)
    fix x assume x: "ec_ready x w'"
    show "listed w' x"
    proof (cases "x = this")
      case True
      then show ?thesis
        using assms(3) h unfolding listed_def b sc by auto
    next
      case False
      then obtain sc' c' where "bound w x sc'" "th_sc w sc' = Some c'" "has_ec c' x"
        using assms(2) [of x] x r unfolding listed_def by blast
      then show ?thesis
        using assms(4) h unfolding listed_def b sc by (cases "sc' = sc") auto
    qed
  qed
  moreover have "user_awake w'" "th_ec w' 0 = None"
    using base(3,5) by (simp_all add: user_awake_def w'_def)
  ultimately show ?thesis
    using w' by (auto simp: sched_inv_def sched_base_def)
qed

lemma clearFlagsResume_sched:
  assumes "sched_inv w" "th_ec w this = Some e" "bit f 3 \<Longrightarrow> \<exists>sc c. bound w this sc \<and> th_sc w sc = Some c"
  shows "\<exists>w'. ExecutionContext_clearFlagsResume this f w = Some w' \<and> sched_inv w'"
proof -
  let ?e = "e\<lparr>ec_flags := ec_flags e AND NOT f\<rparr>"
  let ?w = "put_ec this ?e w"
  have s3: "\<not> bit (ec_flags ?e) 3 \<Longrightarrow> bit (ec_flags e) 3 \<Longrightarrow> \<exists>sc c. bound w this sc \<and> th_sc w sc = Some c"
    using assms(3) by (auto simp: flag_ops)
  have base: "sched_base ?w"
    using assms(1) s3 by (intro sched_base_put [OF _ assms(2)]) (auto simp: sched_inv_def flag_ops)
  show ?thesis
  proof (cases "ExecutionContext_isBlocked (ec_flags e) \<and> \<not> ExecutionContext_isBlocked (ec_flags ?e)")
    case True
    obtain sc c where sc: "bound ?w this sc" "th_sc ?w sc = Some c"
      using has_schedD [of ?w this ?e] base True by (auto simp: sched_base_def isBlocked_bits)
    have "listed ?w x" if "x \<noteq> this" "ec_ready x ?w" for x
    proof -
      have "ec_ready x w"
        using that by (simp add: ec_ready_def)
      then show ?thesis
        using assms(1) listed_put [OF assms(2), of ?e] by (simp add: sched_inv_def none_lost_def)
    qed
    from sched_ready_inv [OF base this sc] show ?thesis
      using True sc assms(2)
      by (auto simp: ExecutionContext_clearFlagsResume_def ExecutionContext_clearFlags_def ExecutionContext_isReady_def ec_getSched_def bound_def cast_IScheduler_def)
  next
    case False
    then have "sched_inv ?w"
      using s3 by (intro sched_inv_put [OF assms(1,2)]) (auto simp: flag_ops)
    then show ?thesis
      using False assms(2)
      by (auto simp: ExecutionContext_clearFlagsResume_def ExecutionContext_clearFlags_def ExecutionContext_isReady_def)
  qed
qed

lemma clearFlagsResume_sched':
  assumes "sched_inv w" "ExecutionContext_clearFlagsResume this f w = Some w'" "\<not> bit f 3"
  shows "sched_inv w'"
proof -
  obtain e where "th_ec w this = Some e"
    using assms(2) by (auto simp: ExecutionContext_clearFlagsResume_def ExecutionContext_clearFlags_def bind_eq_Some_conv)
  then show ?thesis
    using clearFlagsResume_sched [OF assms(1), of this e f] assms(2,3) by auto
qed

lemma keep_sched:
  assumes "sched_inv w" "th_ec w this = Some e" "ec_flags e' = ec_flags e" "ec_currentPlace e' = ec_currentPlace e" "ec_sched e' = ec_sched e"
  shows "sched_inv (put_ec this e' w)"
  using assms by (intro sched_inv_put) auto

lemma setFlags_sched:
  assumes "sched_inv w" "ExecutionContext_setFlags this f w = Some (prev, w')" "bit f 0 \<Longrightarrow> \<not> at_user w this"
  shows "sched_inv w'"
proof -
  obtain e where e: "th_ec w this = Some e" "w' = put_ec this (e\<lparr>ec_flags := ec_flags e OR f\<rparr>) w"
    using assms(2) by (auto simp: ExecutionContext_setFlags_def bind_eq_Some_conv)
  show ?thesis
    unfolding e(2) using assms(3) by (intro sched_inv_put [OF assms(1) e(1)]) (auto simp: flag_simps)
qed

lemma log_sched: "sched_inv w \<Longrightarrow> sched_inv (log ev w)"
  by (erule sched_inv_same) (simp_all add: log_def)

lemma put_msg_sched: "sched_inv w \<Longrightarrow> put_msg this msg w = Some w' \<Longrightarrow> sched_inv w'"
  using keep_sched by (auto simp: put_msg_def bind_eq_Some_conv)

lemma setBaseRegisters_sched: "sched_inv w \<Longrightarrow> ExecutionContext_setBaseRegisters this fs gs w = Some (res, w') \<Longrightarrow> sched_inv w'"
  using keep_sched by (auto simp: ExecutionContext_setBaseRegisters_def bind_eq_Some_conv split: if_splits)

lemma setRegisters_sched:
  assumes "sched_inv w" "ExecutionContext_setRegisters this regs w = Some (res, w')"
  shows "sched_inv w'"
proof -
  obtain e where e: "th_ec w this = Some e" "ExecutionContext_setBaseRegisters this (ar_fs_base regs) (ar_gs_base regs)
       (put_ec this (e\<lparr>ec_threadState := set_user_registers regs (ec_threadState e)\<rparr>) w) = Some (res, w')"
    using assms(2) by (auto simp: ExecutionContext_setRegisters_def bind_eq_Some_conv)
  have "sched_inv (put_ec this (e\<lparr>ec_threadState := set_user_registers regs (ec_threadState e)\<rparr>) w)"
    by (rule keep_sched [OF assms(1) e(1)]) simp_all
  then show ?thesis
    by (rule setBaseRegisters_sched [OF _ e(2)])
qed

lemma readThreadRegisters_sched:
  assumes "sched_inv w" "ExecutionContext_readThreadRegisters this w = Some w'"
  shows "sched_inv w'"
proof -
  obtain e where e: "th_ec w this = Some e"
    using assms(2) by (auto simp: ExecutionContext_readThreadRegisters_def bind_eq_Some_conv)
  obtain m w1 w2 msg where w: "ExecutionContext_clearFlagsResume this REGISTER_ACCESS (w\<lparr>th_message := m\<rparr>) = Some w1"
      "put_msg this 0 (log (ReplyResponse msg SUCCESS) w1) = Some w2" "w' = log (ResponseAndRequestDone this) w2"
    using assms(2) e by (cases "th_message w (ec_msg e)") (auto simp: ExecutionContext_readThreadRegisters_def bind_eq_Some_conv Let_def)
  have "sched_inv (w\<lparr>th_message := m\<rparr>)"
    by (rule sched_inv_same [OF assms(1)]) simp_all
  then have "sched_inv w1"
    by (rule clearFlagsResume_sched' [OF _ w(1)]) (simp add: single_flag_bits)
  then show ?thesis
    using put_msg_sched [OF _ w(2)] log_sched w(3) by blast
qed

lemma writeThreadRegisters_sched:
  assumes "sched_inv w" "ExecutionContext_writeThreadRegisters this w = Some w'"
  shows "sched_inv w'"
proof -
  obtain e where e: "th_ec w this = Some e"
    using assms(2) by (auto simp: ExecutionContext_writeThreadRegisters_def bind_eq_Some_conv)
  obtain regs res w1 prev w2 w3 w4 msg where w: "ExecutionContext_setRegisters this regs w = Some (res, w1)"
      "(if opt_isError res then ExecutionContext_setFlags this IS_TRAPPED w1 else Some (0, w1)) = Some (prev, w2)"
      "ExecutionContext_clearFlagsResume this REGISTER_ACCESS w2 = Some w3"
      "put_msg this 0 (log (ReplyResponse msg (opt_state res)) w3) = Some w4" "w' = log (ResponseAndRequestDone this) w4"
    using assms(2) e by (cases "th_message w (ec_msg e)") (auto simp: ExecutionContext_writeThreadRegisters_def bind_eq_Some_conv Let_def)
  have "sched_inv w2"
    using w(2) setRegisters_sched [OF assms(1) w(1)] setFlags_sched [of w1 this IS_TRAPPED prev w2] by (auto simp: single_flag_bits split: if_splits)
  then have "sched_inv w3"
    by (rule clearFlagsResume_sched' [OF _ w(3)]) (simp add: single_flag_bits)
  then show ?thesis
    using put_msg_sched [OF _ w(4)] log_sched w(5) by blast
qed

lemma suspendThread_sched:
  assumes "sched_inv w" "ExecutionContext_suspendThread this w = Some w'"
  shows "sched_inv w'"
proof -
  obtain w1 msg where "put_msg this 0 (log (ReplyResponse msg SUCCESS) w) = Some w1" "w' = log (ResponseAndRequestDone this) w1"
    using assms(2) by (auto simp: ExecutionContext_suspendThread_def bind_eq_Some_conv Let_def)
  then show ?thesis
    using put_msg_sched log_sched assms(1) by blast
qed

text \<open>A request, after it has set its flags.\<close>

lemma at_home_sched:
  assumes "sched_inv w" "at_home this task handle w = Some (err, w')" "\<And>w1. handle this w = Some w1 \<Longrightarrow> sched_inv w1"
  shows "sched_inv w'"
proof -
  have "sched_inv (send home t w)" for home t
    by (rule sched_inv_same [OF assms(1)]) (simp_all add: send_def)
  then show ?thesis
    using assms(2,3) by (auto simp: at_home_def bind_eq_Some_conv Let_def split: if_splits)
qed

lemma requests_sched:
  assumes "sched_inv w"
  shows "ExecutionContext_invokeReadRegisters this msg suspend w = Some (err, w') \<Longrightarrow> sched_inv w'"
    "ExecutionContext_invokeWriteRegisters this msg resume w = Some (err, w') \<Longrightarrow> sched_inv w'"
    "ExecutionContext_invokeSuspend this msg w = Some (err, w') \<Longrightarrow> sched_inv w'"
proof -
  assume "ExecutionContext_invokeReadRegisters this msg suspend w = Some (err, w')"
  then obtain w1 prev w2 where w: "put_msg this msg w = Some w1"
      "ExecutionContext_setFlags this (REGISTER_ACCESS OR DONT_PREEMPT OR (if suspend then IS_TRAPPED else 0)) w1 = Some (prev, w2)"
      "at_home this ReadSleepResponse ExecutionContext_readThreadRegisters w2 = Some (err, w')"
    by (auto simp: ExecutionContext_invokeReadRegisters_def bind_eq_Some_conv)
  have "sched_inv w2"
    by (rule setFlags_sched [OF put_msg_sched [OF assms w(1)] w(2)]) (simp add: flag_simps split: if_splits)
  then show "sched_inv w'"
    by (rule at_home_sched [OF _ w(3)]) (rule readThreadRegisters_sched [OF \<open>sched_inv w2\<close>])
next
  assume "ExecutionContext_invokeSuspend this msg w = Some (err, w')"
  then obtain w1 prev w2 where w: "put_msg this msg w = Some w1" "ExecutionContext_setFlags this (IS_TRAPPED OR DONT_PREEMPT) w1 = Some (prev, w2)"
      "at_home this SleepResponse ExecutionContext_suspendThread w2 = Some (err, w')"
    by (auto simp: ExecutionContext_invokeSuspend_def bind_eq_Some_conv)
  have "sched_inv w2"
    by (rule setFlags_sched [OF put_msg_sched [OF assms w(1)] w(2)]) (simp add: flag_simps)
  then show "sched_inv w'"
    by (rule at_home_sched [OF _ w(3)]) (rule suspendThread_sched [OF \<open>sched_inv w2\<close>])
next
  assume "ExecutionContext_invokeWriteRegisters this msg resume w = Some (err, w')"
  then obtain w1 prev w2 prev' w3 where w: "put_msg this msg w = Some w1" "ExecutionContext_setFlags this REGISTER_ACCESS w1 = Some (prev, w2)"
      "(if resume then ExecutionContext_clearFlags this IS_TRAPPED w2 else Some (prev, w2)) = Some (prev', w3)"
      "at_home this WriteSleepResponse ExecutionContext_writeThreadRegisters w3 = Some (err, w')"
    by (auto simp: ExecutionContext_invokeWriteRegisters_def bind_eq_Some_conv)
  obtain e where e: "th_ec w1 this = Some e" "w2 = put_ec this (e\<lparr>ec_flags := ec_flags e OR REGISTER_ACCESS\<rparr>) w1"
    using w(2) by (auto simp: ExecutionContext_setFlags_def bind_eq_Some_conv)
  have w3: "w3 = put_ec this (e\<lparr>ec_flags := (if resume then (ec_flags e OR REGISTER_ACCESS) AND NOT IS_TRAPPED else ec_flags e OR REGISTER_ACCESS)\<rparr>) w1"
    using w(3) e(2) by (auto simp: ExecutionContext_clearFlags_def put_ec_def split: if_splits)
  have "sched_inv w3"
    unfolding w3 by (rule sched_inv_put [OF put_msg_sched [OF assms w(1)] e(1)]) (cases resume; auto simp: flag_simps)+
  then show "sched_inv w'"
    by (rule at_home_sched [OF _ w(4)]) (rule writeThreadRegisters_sched [OF \<open>sched_inv w3\<close>])
qed

lemma setFlagsSuspend_sched:
  assumes "sys_inv w" "ExecutionContext_setFlagsSuspend p this f w = Some w'" "\<not> th_user w p" "ExecutionContext_isBlocked f" "\<not> bit f 0"
  shows "sched_inv w'"
proof -
  have i: "threads_inv w" "sched_inv w"
    using assms(1) by (simp_all add: sys_inv_def)
  show ?thesis
    using i(1) assms(2-4)
  proof (cases rule: setFlagsSuspend_cases)
    case (quiet e)
    show ?thesis
      unfolding quiet(2) using assms(5) by (intro sched_inv_put [OF i(2) quiet(1)]) (auto simp: flag_simps)
  next
    case (stopped e q)
    have "sched_inv (w\<lparr>th_user := (th_user w)(q := False)\<rparr>)"
      by (rule sched_inv_same [OF i(2)]) (auto split: if_splits)
    then show ?thesis
      unfolding stopped(4) using assms(5) stopped(1) by (intro sched_inv_put [of _ this e]) (auto simp: flag_simps)
  qed
qed

lemma invokeSetFSGS_sched:
  assumes "sys_inv w" "ExecutionContext_invokeSetFSGS p this fs gs w = Some (err, w')" "\<not> th_user w p"
  shows "sched_inv w'"
proof -
  have i: "threads_inv w" "sched_inv w"
    using assms(1) by (simp_all add: sys_inv_def)
  obtain res w1 where w1: "ExecutionContext_setBaseRegisters this fs gs w = Some (res, w1)"
    using assms(2) by (auto simp: ExecutionContext_invokeSetFSGS_def bind_eq_Some_conv)
  note r = setBaseRegisters_inv [OF i(1) w1]
  have s1: "sys_inv w1" "\<not> th_user w1 p"
    using r setBaseRegisters_sched [OF i(2) w1] assms(3) by (simp_all add: sys_inv_def same_places_def)
  consider "w' = w1" | w2 where "ExecutionContext_setFlagsSuspend p this IS_TRAPPED w1 = Some w2" "ExecutionContext_clearFlagsResume this IS_TRAPPED w2 = Some w'"
    using assms(2) w1 by (auto simp: ExecutionContext_invokeSetFSGS_def bind_eq_Some_conv split: if_splits)
  then show ?thesis
  proof cases
    case 2
    have "sched_inv w2"
      by (rule setFlagsSuspend_sched [OF s1(1) 2(1) s1(2)]) (simp_all add: flag_simps)
    then show ?thesis
      by (rule clearFlagsResume_sched' [OF _ 2(2)]) (simp add: single_flag_bits)
  qed (use s1 in \<open>simp add: sys_inv_def\<close>)
qed

lemma bind_as_sched:
  assumes "sched_inv w" "th_ec w this = Some e" "CapRef_binding (as_ref p this w) this k (cr_put (as_ref p this w) k w) = Some w'"
  shows "sched_inv w'"
proof -
  have c: "ExecutionContext_clearFlagsResume this NO_AS (put_ec this (e\<lparr>ec_as := k\<rparr>) w) = Some w'"
    using assms(2,3) by (auto simp: CapRef_binding_def as_ref_def upd_ec_put ExecutionContext_bind_as_def bind_eq_Some_conv)
  have "sched_inv (put_ec this (e\<lparr>ec_as := k\<rparr>) w)"
    by (rule keep_sched [OF assms(1,2)]) simp_all
  then show ?thesis
    by (rule clearFlagsResume_sched' [OF _ c]) (simp add: single_flag_bits)
qed

lemma unbind_as_sched:
  assumes "sys_inv w" "CapRef_unbinding (as_ref p this w) this k w = Some w1" "\<not> th_user w p"
  shows "sched_inv (cr_put (as_ref p this w) cap_null w1)"
proof -
  have s: "ExecutionContext_setFlagsSuspend p this NO_AS w = Some w1"
    using assms(2) by (auto simp: CapRef_unbinding_def as_ref_def ExecutionContext_unbind_as_def bind_eq_Some_conv)
  have "sched_inv w1"
    by (rule setFlagsSuspend_sched [OF assms(1) s assms(3)]) (simp_all add: flag_simps)
  moreover obtain e' where e': "th_ec w1 this = Some e'"
    using setFlagsSuspend_inv(4) [OF _ s assms(3)] assms(1) by (auto simp: flag_simps sys_inv_def)
  ultimately have "sched_inv (put_ec this (e'\<lparr>ec_as := cap_null\<rparr>) w1)"
    by (intro keep_sched) simp_all
  then show ?thesis
    using e' by (simp add: as_ref_def upd_ec_put)
qed

text \<open>A scheduler is given to an execution context that has none and is not loaded at the place of another one.\<close>

lemma set_sched_inv:
  assumes "sched_inv w" "th_ec w this = Some e" "\<not> cap_isUsable (ec_sched e)" "th_sc w (cap_getPtr k) = Some c"
    and "ec_currentPlace e = 0 \<or> ec_currentPlace e = sc_home c"
  shows "sched_inv (put_ec this (e\<lparr>ec_sched := k\<rparr>) w)"
proof -
  let ?w = "put_ec this (e\<lparr>ec_sched := k\<rparr>) w"
  have base: "places_bound w" "queue_ok w" "user_awake w" "has_sched w" "this \<noteq> 0" "th_ec w 0 = None" "none_lost w"
    using assms(1,2) by (auto simp: sched_inv_def sched_base_def)
  have nb: "\<not> bound w this sc" for sc
    using assms(2,3) by (simp add: bound_def)
  have b: "bound ?w x sc \<longleftrightarrow> (if x = this then cap_isUsable k \<and> cap_getPtr k = sc else bound w x sc)" for x sc
    by (auto simp: bound_def)
  have "places_bound ?w"
    unfolding places_bound_def b using base(1) assms(2,4,5) unfolding places_bound_def by (auto split: if_splits)
  moreover have "queue_ok ?w"
    unfolding queue_ok_def b using queue_okD [OF base(2)] nb by fastforce
  moreover have "user_awake ?w"
    using base(3) assms(2) unfolding user_awake_def by (auto split: if_splits)
  moreover have "has_sched ?w"
    unfolding has_sched_def b using has_schedD [OF base(4)] nb assms(2) by (auto split: if_splits)
  moreover have "none_lost ?w"
  proof -
    have "listed w x" if "ec_ready x ?w" for x
    proof -
      have "ec_ready x w"
        using that assms(2) by (auto simp: ec_ready_def split: if_splits)
      then show ?thesis
        using base(7) by (simp add: none_lost_def)
    qed
    moreover have "x \<noteq> this \<and> listed ?w x" if "listed w x" for x
      using that nb unfolding listed_def b by auto
    ultimately show ?thesis
      by (simp add: none_lost_def)
  qed
  ultimately show ?thesis
    using base(5,6) by (simp add: sched_inv_def sched_base_def)
qed

lemma bind_sched_sched:
  assumes "sched_inv w" "th_ec w this = Some e" "\<not> cap_isUsable (ec_sched e)" "th_sc w (cap_getPtr k) = Some c"
    and "ec_currentPlace e = 0 \<or> ec_currentPlace e = sc_home c"
    and "CapRef_binding (sched_ref p this w) this k (cr_put (sched_ref p this w) k w) = Some w'"
  shows "sched_inv w'"
proof -
  let ?w = "put_ec this (e\<lparr>ec_sched := k\<rparr>) w"
  have c: "cap_isUsable k" "ExecutionContext_clearFlagsResume this NO_SCHED ?w = Some w'"
    using assms(2,6) by (auto simp: CapRef_binding_def sched_ref_def upd_ec_put ExecutionContext_bind_sched_def bind_eq_Some_conv)
  then have "bound ?w this (cap_getPtr k)" "th_sc ?w (cap_getPtr k) = Some c"
    using assms(4) by (simp_all add: bound_def)
  then show ?thesis
    using clearFlagsResume_sched [OF set_sched_inv [OF assms(1-5)], of this _ NO_SCHED] c(2) by auto
qed

text \<open>
  A scheduler forgets an execution context. The scheduler also forgets which one is selected, so that
  no other one must be selected at that moment.
\<close>

lemma sched_unbind_inv:
  assumes "sched_inv w" "th_ec w this = Some e" "bit (ec_flags e) 3" "bound w this sc" "th_sc w sc = Some c"
    and "sc_current_handle c = 0 \<or> sc_current_handle c = this" "sched_call SchedulingContext_unbind sc this w = Some w1"
  shows "sched_inv (put_ec this (e\<lparr>ec_sched := cap_null\<rparr>) w1)"
proof -
  have base: "places_bound w" "queue_ok w" "user_awake w" "has_sched w" "this \<noteq> 0" "th_ec w 0 = None" "none_lost w"
    using assms(1,2) by (auto simp: sched_inv_def sched_base_def)
  obtain xs where xs: "ll_rep (sc_readyQueue c) xs"
    using queue_okD(1) [OF base(2) assms(5)] by blast
  obtain ev q where q: "SchedulingContext_unbind this c = Some (ev, c\<lparr>sc_readyQueue := q, sc_current_handle := 0\<rparr>)" "ll_rep q (remove1 this xs)"
    using unbind_step [OF xs base(5)] by blast
  let ?c = "c\<lparr>sc_readyQueue := q, sc_current_handle := 0\<rparr>" and ?w = "put_ec this (e\<lparr>ec_sched := cap_null\<rparr>) w1"
  have h: "has_ec ?c x \<longleftrightarrow> has_ec c x \<and> x \<noteq> this" for x
    using has_ec_rep [OF xs] has_ec_rep [of ?c] q(2) assms(6) lq.members [OF xs] by auto
  have w: "th_sc ?w s = (if s = sc then Some ?c else th_sc w s)" "th_ec ?w = (th_ec w)(this \<mapsto> e\<lparr>ec_sched := cap_null\<rparr>)"
      "th_user ?w = th_user w" "th_current_ec ?w = th_current_ec w" for s
    using assms(5,7) q(1) by (auto simp: sched_call_def)
  have nu: "\<not> cap_isUsable cap_null"
    by (simp add: cap_state_defs cap_null_def)
  have b: "bound ?w x s \<longleftrightarrow> x \<noteq> this \<and> bound w x s" for x s
    unfolding bound_def w using nu by auto
  have only: "s = sc" if "bound w this s" for s
    using that assms(4) by (auto simp: bound_def)
  have "places_bound ?w"
    using base(1) assms(5) unfolding places_bound_def b w by (auto split: if_splits)
  moreover have "queue_ok ?w"
    unfolding queue_ok_def b w using queue_okD [OF base(2)] q(2) h only assms(5) by (auto split: if_splits)
  moreover have "user_awake ?w"
    using base(3) assms(2) unfolding user_awake_def w by (auto split: if_splits)
  moreover have "has_sched ?w"
    unfolding has_sched_def b w
  proof (intro allI impI)
    fix x e' assume x: "((th_ec w)(this \<mapsto> e\<lparr>ec_sched := cap_null\<rparr>)) x = Some e' \<and> \<not> bit (ec_flags e') 3"
    then have "x \<noteq> this"
      using assms(3) by auto
    then show "\<exists>s d. (x \<noteq> this \<and> bound w x s) \<and> (if s = sc then Some ?c else th_sc w s) = Some d"
      using has_schedD [OF base(4), of x e'] x by auto
  qed
  moreover have "none_lost ?w"
    unfolding none_lost_def
  proof (intro allI impI)
    fix x assume x: "ec_ready x ?w"
    then have "x \<noteq> this" "ec_ready x w"
      using assms(3) unfolding ec_ready_def w by (auto simp: isBlocked_bits split: if_splits)
    then obtain s d where "bound w x s" "th_sc w s = Some d" "has_ec d x"
      using base(7) unfolding none_lost_def listed_def by blast
    then show "listed ?w x"
      using \<open>x \<noteq> this\<close> assms(5) h unfolding listed_def b w by (cases "s = sc") auto
  qed
  ultimately show ?thesis
    using base(5,6) w(2) by (simp add: sched_inv_def sched_base_def)
qed

lemma unbind_sched_sched:
  assumes "sys_inv w" "th_ec w this = Some e" "th_sc w (cap_getPtr (ec_sched e)) = Some c" "sc_current_handle c = 0 \<or> sc_current_handle c = this"
    and "CapRef_unbinding (sched_ref p this w) this (ec_sched e) w = Some w1" "\<not> th_user w p"
  shows "sched_inv (cr_put (sched_ref p this w) cap_null w1)"
proof -
  let ?sc = "cap_getPtr (ec_sched e)"
  obtain w2 where s: "cap_isUsable (ec_sched e)" "ExecutionContext_setFlagsSuspend p this NO_SCHED w = Some w2" "sched_call SchedulingContext_unbind ?sc this w2 = Some w1"
    using assms(3,5) by (auto simp: CapRef_unbinding_def sched_ref_def ExecutionContext_unbind_sched_def bind_eq_Some_conv cast_IScheduler_def)
  have i2: "sched_inv w2"
    by (rule setFlagsSuspend_sched [OF assms(1) s(2) assms(6)]) (simp_all add: flag_simps)
  have t: "threads_inv w" "ExecutionContext_isBlocked NO_SCHED"
    using assms(1) by (simp_all add: sys_inv_def flag_simps)
  obtain e' where e': "th_ec w2 this = Some e'" "bit (ec_flags e') 3" "ec_sched e' = ec_sched e" "th_sc w2 = th_sc w"
    using t(1) s(2) assms(6) t(2) by (cases rule: setFlagsSuspend_cases) (use assms(2) in \<open>auto simp: flag_ops single_flag_bits\<close>)
  have "bound w2 this ?sc"
    using e'(1,3) s(1) by (simp add: bound_def)
  moreover have "th_ec w1 this = Some e'"
    using s(3) e'(1) by (auto simp: sched_call_def bind_eq_Some_conv)
  ultimately show ?thesis
    using sched_unbind_inv [OF i2 e'(1,2) _ _ assms(4) s(3)] assms(3) e'(4) by (simp add: sched_ref_def upd_ec_put)
qed

lemma upd_ec_keep_sched:
  assumes "sched_inv w" "\<And>e. ec_flags (f e) = ec_flags e" "\<And>e. ec_currentPlace (f e) = ec_currentPlace e" "\<And>e. ec_sched (f e) = ec_sched e"
  shows "sched_inv (upd_ec this f w)"
proof -
  have "upd_ec this f w = w" if "th_ec w this = None"
    using that by (simp add: upd_ec_def) (metis fun_upd_idem_iff threads.surjective threads.update_convs(1))
  then show ?thesis
    using assms keep_sched by (cases "th_ec w this") (simp_all add: upd_ec_put)
qed

lemma events_sched:
  assumes "sched_inv w"
  shows "ExecutionContext_attachKEvent this ev w = Some w' \<Longrightarrow> sched_inv w'" "ExecutionContext_detachKEvent this ev w = Some w' \<Longrightarrow> sched_inv w'"
    "ExecutionContext_signal this w = Some (res, w') \<Longrightarrow> sched_inv w'" "sched_inv (put_code this c w)"
    "ExecutionContext_attachSignalSink this h w = Some w' \<Longrightarrow> sched_inv w'" "ExecutionContext_detachSignalSink this h w = Some w' \<Longrightarrow> sched_inv w'"
proof -
  have ev: "sched_inv (upd_events this q w)" for q
    unfolding upd_events_def by (rule upd_ec_keep_sched [OF assms]) simp_all
  show "ExecutionContext_attachKEvent this ev w = Some w' \<Longrightarrow> sched_inv w'"
    using clearFlagsResume_sched' [OF ev] by (auto simp: ExecutionContext_attachKEvent_def bind_eq_Some_conv single_flag_bits)
  show "ExecutionContext_detachKEvent this ev w = Some w' \<Longrightarrow> sched_inv w'"
    using ev by (auto simp: ExecutionContext_detachKEvent_def bind_eq_Some_conv)
  show "ExecutionContext_signal this w = Some (res, w') \<Longrightarrow> sched_inv w'"
    using setFlags_sched [OF assms, of this IS_NOTIFIED] clearFlagsResume_sched' [of _ this IS_WAITING w']
    by (auto simp: ExecutionContext_signal_def bind_eq_Some_conv single_flag_bits)
  show "sched_inv (put_code this c w)"
    unfolding put_code_def by (rule upd_ec_keep_sched [OF assms]) simp_all
  show "ExecutionContext_attachSignalSink this h w = Some w' \<Longrightarrow> sched_inv w'" "ExecutionContext_detachSignalSink this h w = Some w' \<Longrightarrow> sched_inv w'"
    using keep_sched [OF assms] by (auto simp: ExecutionContext_attachSignalSink_def ExecutionContext_detachSignalSink_def bind_eq_Some_conv)
qed

lemma changeSignal_sched:
  assumes "sched_inv w" "ExecutionContext_changeSignal this sig w = Some w'"
  shows "sched_inv w'"
proof -
  obtain l where l: "LinkedList_map_loop (\<lambda>sink w. Some (log (SignalChanged sink sig) w)) (ll_head l) l w = Some w'"
    using assms(2) by (auto simp: ExecutionContext_changeSignal_def LinkedList_map_def bind_eq_Some_conv)
  have "sched_inv w \<longrightarrow> sched_inv w'"
    by (rule map_loop_rel [OF l, where R = "\<lambda>w w'. sched_inv w \<longrightarrow> sched_inv w'"]) (use log_sched in auto)
  then show ?thesis
    using assms(1) by simp
qed

lemma handleTrap_sched:
  assumes "sched_inv w" "ExecutionContext_handleTrap this w = Some w'"
  shows "sched_inv w'"
proof -
  obtain prev w1 where w1: "ExecutionContext_setFlags this (IS_TRAPPED OR NOT_RUNNING) w = Some (prev, w1)"
      "w' = w1 \<or> (\<exists>sig. ExecutionContext_changeSignal this sig w1 = Some w')"
    using assms(2) by (auto simp: ExecutionContext_handleTrap_def bind_eq_Some_conv Let_def split: if_splits)
  have "sched_inv w1"
    by (rule setFlags_sched [OF assms(1) w1(1)]) (simp add: flag_simps)
  then show ?thesis
    using w1(2) changeSignal_sched by blast
qed

lemma wait_for_event_sched:
  assumes "sched_inv w" "wait_for_event this w = Some w'" "\<not> at_user w this" "th_ec w this = Some e" "\<not> bit (ec_flags e) 0"
  shows "sched_inv w'"
proof -
  let ?f = "ec_flags e OR (IN_WAIT OR IS_WAITING)"
  have "w' = put_ec this (e\<lparr>ec_flags := ?f\<rparr>) w \<or> w' = put_ec this (e\<lparr>ec_flags := ?f AND NOT IS_WAITING\<rparr>) w"
    using assms(2,4) by (auto simp: wait_for_event_def ExecutionContext_setFlags_def ExecutionContext_clearFlags_def put_ec_def split: if_splits)
  moreover have "sched_inv (put_ec this (e\<lparr>ec_flags := f\<rparr>) w)" if "f = ?f \<or> f = ?f AND NOT IS_WAITING" for f
    using that assms(3,5) by (intro sched_inv_put [OF assms(1,4)]) (auto simp: flag_simps)
  ultimately show ?thesis
    by blast
qed

lemma syscall_signal_sched:
  assumes "sched_inv w" "syscall_signal env this ptr (s, w) = Some w'"
  shows "sched_inv w'"
proof -
  have "(\<exists>c. w' = put_code this c w) \<or> (\<exists>th res w1 c. ExecutionContext_signal th w = Some (res, w1) \<and> w' = put_code this c w1)"
    using assms(2) by (auto simp: syscall_signal_def bind_eq_Some_conv split: sum.split_asm) (metis sum.exhaust)+
  then show ?thesis
    using assms(1) events_sched(3,4) by blast
qed

lemma handleSyscall_sched:
  assumes "sched_inv w" "ExecutionContext_handleSyscall env this (s, w) = Some w'" "\<not> at_user w this" "th_ec w this = Some e" "\<not> bit (ec_flags e) 0"
  shows "sched_inv w'"
  using assms(2)
proof (rule handleSyscall_cases)
  fix prev w1 w2
  assume w1: "ExecutionContext_setFlags this NOT_RUNNING w = Some (prev, w1)" and w2: "w2 = w1 \<or> (\<exists>c. w2 = put_code this c w1)"
    and w': "(\<exists>prev w3. ExecutionContext_setFlags this IS_TRAPPED w2 = Some (prev, w3) \<and> ExecutionContext_changeSignal this TRAP_EXIT w3 = Some w') \<or>
     (\<exists>prev. ExecutionContext_setFlags this IN_WAIT w2 = Some (prev, w')) \<or> wait_for_event this w2 = Some w' \<or> w' = w2 \<or>
     (\<exists>u l c. w' = put_code this c (log (UserMessage u l) w2)) \<or> (\<exists>ptr. syscall_signal env this ptr (s, w2) = Some w')"
  have "sched_inv w1"
    by (rule setFlags_sched [OF assms(1) w1]) (simp add: single_flag_bits)
  then have i2: "sched_inv w2"
    using w2 events_sched(4) by blast
  have "same_places w w2"
    using flags_places(1) [OF w1] w2 put_code_inv(2) same_places_trans by blast
  then have u2: "\<not> at_user w2 this"
    using same_places_user assms(3) by blast
  obtain e2 where e2: "th_ec w2 this = Some e2" "\<not> bit (ec_flags e2) 0"
    using w1 w2 assms(4,5) by (auto simp: ExecutionContext_setFlags_def put_code_def upd_ec_def flag_simps)
  have trap: "sched_inv w3" if "ExecutionContext_setFlags this IS_TRAPPED w2 = Some (prev, w3)" for prev w3
    by (rule setFlags_sched [OF i2 that]) (simp add: single_flag_bits)
  have poll: "sched_inv w3" if "ExecutionContext_setFlags this IN_WAIT w2 = Some (prev, w3)" for prev w3
    by (rule setFlags_sched [OF i2 that]) (simp add: single_flag_bits)
  show ?thesis
    using w' trap poll i2 wait_for_event_sched [OF i2 _ u2 e2] syscall_signal_sched changeSignal_sched events_sched(4) [OF log_sched [OF i2]] by blast
qed

section \<open>The scheduler at work\<close>

text \<open>What stays the same while the scheduler looks for an execution context to run.\<close>

definition ec_view :: "ec \<Rightarrow> cap \<times> u16" where
  "ec_view e = (ec_sched e, ec_flags e AND BLOCK_MASK)"

definition kept :: "threads \<Rightarrow> threads \<Rightarrow> bool" where
  "kept w0 w \<longleftrightarrow> th_sc w = th_sc w0 \<and> th_mail w = th_mail w0 \<and> (\<forall>x. map_option ec_view (th_ec w x) = map_option ec_view (th_ec w0 x))"

lemma ec_view_eqI:
  assumes "ec_sched e' = ec_sched e" "bit (ec_flags e') 0 = bit (ec_flags e) 0" "bit (ec_flags e') 1 = bit (ec_flags e) 1"
    "bit (ec_flags e') 2 = bit (ec_flags e) 2" "bit (ec_flags e') 3 = bit (ec_flags e) 3" "bit (ec_flags e') 7 = bit (ec_flags e) 7"
  shows "ec_view e' = ec_view e"
  using assms unfolding ec_view_def prod.inject
  by (auto intro!: bit_eqI simp: BLOCK_MASK_def bit_and_iff flag_ops single_flag_bits)

lemma ec_view_bits:
  assumes "ec_view e' = ec_view e"
  shows "bit (ec_flags e') 0 = bit (ec_flags e) 0" "bit (ec_flags e') 3 = bit (ec_flags e) 3"
    "ExecutionContext_isBlocked (ec_flags e') = ExecutionContext_isBlocked (ec_flags e)"
proof -
  have v: "ec_flags e' AND BLOCK_MASK = ec_flags e AND BLOCK_MASK"
    using assms by (simp add: ec_view_def)
  then have "bit (ec_flags e' AND BLOCK_MASK) n = bit (ec_flags e AND BLOCK_MASK) n" for n
    by simp
  from this [of 0] this [of 3] show "bit (ec_flags e') 0 = bit (ec_flags e) 0" "bit (ec_flags e') 3 = bit (ec_flags e) 3"
    by (simp_all add: BLOCK_MASK_def bit_and_iff flag_ops single_flag_bits)
  show "ExecutionContext_isBlocked (ec_flags e') = ExecutionContext_isBlocked (ec_flags e)"
    by (simp only: ExecutionContext_isBlocked_def v)
qed

lemma kept_refl: "kept w w"
  by (simp add: kept_def)

lemma kept_put: "kept w0 w \<Longrightarrow> th_ec w x = Some e \<Longrightarrow> ec_view e' = ec_view e \<Longrightarrow> kept w0 (put_ec x e' w)"
  unfolding kept_def by (metis fun_upd_apply option.simps(9) put_ec_simps(1,2,7))

lemma keptD:
  assumes "kept w0 w" "th_ec w x = Some e"
  obtains e0 where "th_ec w0 x = Some e0" "ec_view e = ec_view e0"
  using assms unfolding kept_def by (metis map_option_eq_Some option.simps(9))

lemma kept_sym: "kept w0 w \<Longrightarrow> kept w w0"
  by (simp add: kept_def)

lemma kept_reads:
  assumes "kept w0 w"
  shows "bound w = bound w0" "ec_ready x w = ec_ready x w0"
proof -
  have "bound w' x sc" if "kept w w'" "bound w x sc" for w w' x sc
    using that keptD [OF kept_sym [OF that(1)]] unfolding bound_def by (metis ec_view_def fst_conv)
  then show "bound w = bound w0"
    using assms kept_sym unfolding fun_eq_iff by blast
  have "ec_ready x w'" if "kept w w'" "ec_ready x w" for w w'
    using that keptD [OF kept_sym [OF that(1)]] ec_view_bits(3) unfolding ec_ready_def by metis
  then show "ec_ready x w = ec_ready x w0"
    using assms kept_sym by blast
qed

definition sched_turn :: "u64 \<Rightarrow> threads \<Rightarrow> threads \<Rightarrow> bool" where
  "sched_turn p w0 w \<longleftrightarrow> threads_inv w \<and> kept w0 w \<and> places_bound w \<and> p \<noteq> 0 \<and> \<not> th_user w p \<and>
     (\<forall>q. th_user w q \<longrightarrow> th_user w0 q \<and> th_current_ec w q = th_current_ec w0 q)"

definition sched_known :: "u64 \<Rightarrow> u64 \<Rightarrow> threads \<Rightarrow> bool" where
  "sched_known p x w \<longleftrightarrow> (\<exists>sc c. bound w x sc \<and> th_sc w sc = Some c \<and> sc_home c = p)"

definition runs_at :: "u64 \<Rightarrow> threads \<Rightarrow> u64 \<Rightarrow> threads \<Rightarrow> bool" where
  "runs_at p w0 x w \<longleftrightarrow> threads_inv w \<and> kept w0 w \<and> places_bound w \<and> th_user w p \<and> th_current_ec w p = x \<and> ec_ready x w \<and>
     (\<forall>q. th_user w q \<and> q \<noteq> p \<longrightarrow> th_user w0 q \<and> th_current_ec w q = th_current_ec w0 q)"

lemma places_bound_put:
  assumes "places_bound w" "th_ec w x = Some e" "ec_sched e' = ec_sched e"
    and "\<And>sc c. bound w x sc \<Longrightarrow> th_sc w sc = Some c \<Longrightarrow> ec_currentPlace e' = 0 \<or> ec_currentPlace e' = sc_home c"
  shows "places_bound (put_ec x e' w)"
  unfolding places_bound_def bound_put [OF assms(2,3)]
proof (intro allI impI)
  fix y d sc c assume y: "th_ec (put_ec x e' w) y = Some d \<and> bound w y sc \<and> th_sc (put_ec x e' w) sc = Some c"
  show "ec_currentPlace d = 0 \<or> ec_currentPlace d = sc_home c"
  proof (cases "y = x")
    case True
    then show ?thesis
      using y assms(4) [of sc c] by simp
  next
    case False
    then show ?thesis
      using y assms(1) unfolding places_bound_def by (metis fun_upd_other put_ec_simps(1,2))
  qed
qed

lemma places_bound_same: "places_bound w \<Longrightarrow> th_ec w' = th_ec w \<Longrightarrow> th_sc w' = th_sc w \<Longrightarrow> places_bound w'"
  by (simp add: places_bound_def bound_def)

lemma kept_same: "kept w0 w \<Longrightarrow> th_ec w' = th_ec w \<Longrightarrow> th_sc w' = th_sc w \<Longrightarrow> th_mail w' = th_mail w \<Longrightarrow> kept w0 w'"
  by (simp add: kept_def)

lemma save_turn:
  assumes "sched_turn p w0 w" "th_current_ec w p = y" "y \<noteq> 0"
  shows "\<exists>w1. ExecutionContext_saveState p y w = Some w1 \<and> sched_turn p w0 w1 \<and> th_current_ec w1 p = 0 \<and> kept w w1"
proof -
  have t: "threads_inv w" "kept w0 w" "places_bound w" "p \<noteq> 0" "\<not> th_user w p" "\<And>q. th_user w q \<Longrightarrow> th_user w0 q \<and> th_current_ec w q = th_current_ec w0 q"
    using assms(1) by (auto simp: sched_turn_def)
  obtain e where e: "th_ec w y = Some e"
    using threads_invD(4) [OF t(1), of p] assms(2,3) by (auto simp: place_ok_def)
  let ?wp = "w\<lparr>th_thread_state := (th_thread_state w)(p := 0), th_current_ec := (th_current_ec w)(p := 0)\<rparr>"
  let ?e = "e\<lparr>ec_flags := ec_flags e OR NOT_LOADED, ec_currentPlace := 0, ec_fpuState := th_fpu w p\<rparr>"
  let ?w1 = "put_ec y ?e ?wp"
  have s: "ExecutionContext_saveState p y w = Some ?w1" "threads_inv ?w1"
    using save_step [OF t(1) e assms(2) t(5)] by simp_all
  have v: "ec_view ?e = ec_view e"
    by (rule ec_view_eqI) (simp_all add: flag_ops single_flag_bits)
  have k: "kept w1 ?w1" if "kept w1 w" for w1
    using kept_same [OF that, of ?wp] e v by (intro kept_put [of _ ?wp y e]) simp_all
  have "places_bound ?w1"
    using places_bound_same [OF t(3), of ?wp] e by (intro places_bound_put [of ?wp y e]) simp_all
  then show ?thesis
    using s k [OF t(2)] k [OF kept_refl] t(4-6) by (intro exI [of _ ?w1]) (auto simp: sched_turn_def split: if_splits)
qed

lemma load_turn:
  assumes "sched_turn p w0 w" "th_current_ec w p = 0" "sched_known p x w"
  shows "\<exists>w1. ExecutionContext_loadState p x w = Some w1 \<and> sched_turn p w0 w1 \<and> th_current_ec w1 p = x \<and> kept w w1"
proof -
  have t: "threads_inv w" "kept w0 w" "places_bound w" "p \<noteq> 0" "\<not> th_user w p" "\<And>q. th_user w q \<Longrightarrow> th_user w0 q \<and> th_current_ec w q = th_current_ec w0 q"
    using assms(1) by (auto simp: sched_turn_def)
  obtain sc c where sc: "bound w x sc" "th_sc w sc = Some c" "sc_home c = p"
    using assms(3) unfolding sched_known_def by blast
  obtain e where e: "th_ec w x = Some e"
    using sc(1) by (auto simp: bound_def)
  have only: "s = sc" if "bound w x s" for s
    using that sc(1) by (auto simp: bound_def)
  have "ec_currentPlace e = 0 \<or> ec_currentPlace e = p"
    using t(3) e sc unfolding places_bound_def by blast
  moreover have "x \<noteq> 0"
    using threads_invD(1) [OF t(1)] e by auto
  ultimately have e0: "ec_currentPlace e = 0"
    using threads_invD(3) [OF t(1) e] assms(2) t(4) by (auto simp: ec_ok_def)
  let ?wp = "w\<lparr>th_thread_state := (th_thread_state w)(p := x), th_fpu := (th_fpu w)(p := ec_fpuState e), th_current_ec := (th_current_ec w)(p := x)\<rparr>"
  let ?e = "e\<lparr>ec_currentPlace := p, ec_flags := ec_flags e AND NOT NOT_LOADED\<rparr>"
  let ?w1 = "put_ec x ?e ?wp"
  have s: "ExecutionContext_loadState p x w = Some ?w1" "threads_inv ?w1"
    using load_step [OF t(1) e e0 assms(2) t(4,5)] by simp_all
  have v: "ec_view ?e = ec_view e"
    by (rule ec_view_eqI) (simp_all add: flag_ops single_flag_bits)
  have k: "kept w1 ?w1" if "kept w1 w" for w1
    using kept_same [OF that, of ?wp] e v by (intro kept_put [of _ ?wp x e]) simp_all
  have "bound ?wp = bound w"
    by (simp add: bound_def fun_eq_iff)
  then have "places_bound ?w1"
    using places_bound_same [OF t(3), of ?wp] e only sc(2,3) by (intro places_bound_put [of ?wp x e]) auto
  then show ?thesis
    using s k [OF t(2)] k [OF kept_refl] t(4-6) by (intro exI [of _ ?w1]) (auto simp: sched_turn_def split: if_splits)
qed

lemma sched_known_kept: "kept w w' \<Longrightarrow> sched_known p x w' = sched_known p x w"
  unfolding sched_known_def by (simp add: kept_reads(1) [of w w']) (simp add: kept_def)

lemma switch_step:
  assumes "sched_turn p w0 w" "sched_known p x w" "th_current_ec w p \<noteq> x"
  shows "\<exists>w'. Option.bind (if th_current_ec w p \<noteq> 0 then ExecutionContext_saveState p (th_current_ec w p) w else Some w) (ExecutionContext_loadState p x) = Some w' \<and>
    sched_turn p w0 w' \<and> th_current_ec w' p = x \<and> (\<forall>y. sched_known p y w \<longrightarrow> sched_known p y w' \<and> ec_ready y w' = ec_ready y w)"
proof -
  have ready: "ec_ready y w' = ec_ready y w" if "kept w w'" for w' y
    by (rule kept_reads(2) [OF that])
  obtain w1 where w1: "(if th_current_ec w p \<noteq> 0 then ExecutionContext_saveState p (th_current_ec w p) w else Some w) = Some w1"
      "sched_turn p w0 w1" "th_current_ec w1 p = 0" "kept w w1"
  proof (cases "th_current_ec w p = 0")
    case True
    then show ?thesis
      using that [of w] assms(1) kept_refl by simp
  next
    case False
    then show ?thesis
      using save_turn [OF assms(1) refl False] that by auto
  qed
  obtain w2 where w2: "ExecutionContext_loadState p x w1 = Some w2" "sched_turn p w0 w2" "th_current_ec w2 p = x" "kept w1 w2"
    using load_turn [OF w1(2,3)] assms(2) sched_known_kept [OF w1(4)] by blast
  have "kept w w2"
    using w1(4) w2(4) by (simp add: kept_def)
  then show ?thesis
    using w1(1) w2 sched_known_kept ready by simp
qed

lemma resume_turn:
  assumes "sched_turn p w0 w" "th_current_ec w p = x" "ec_ready x w"
  shows "\<exists>w'. ExecutionContext_resume env p x w = Some (False, w') \<and> runs_at p w0 x w'"
proof -
  have t: "threads_inv w" "kept w0 w" "places_bound w" "\<And>q. th_user w q \<Longrightarrow> th_user w0 q \<and> th_current_ec w q = th_current_ec w0 q"
    using assms(1) by (auto simp: sched_turn_def)
  obtain e where e: "th_ec w x = Some e" "\<not> ExecutionContext_isBlocked (ec_flags e)"
    using assms(3) by (auto simp: ec_ready_def)
  obtain e1 and info :: pagemap_info where r: "ExecutionContext_resume env p x w = Some (False, (put_ec x e1 w)\<lparr>th_cr3 := (th_cr3 w)(p := pi_table info), th_user := (th_user w)(p := True)\<rparr>)"
      "threads_inv ((put_ec x e1 w)\<lparr>th_cr3 := (th_cr3 w)(p := pi_table info), th_user := (th_user w)(p := True)\<rparr>)"
      "ec_currentPlace e1 = p" "ec_sched e1 = ec_sched e" "\<And>n. n \<notin> {5, 6, 9, 10} \<Longrightarrow> bit (ec_flags e1) n = bit (ec_flags e) n"
    using resume_step [OF t(1) e(1) assms(2) e(2), of env] by blast
  let ?w1 = "put_ec x e1 w"
  let ?w = "?w1\<lparr>th_cr3 := (th_cr3 w)(p := pi_table info), th_user := (th_user w)(p := True)\<rparr>"
  have v: "ec_view e1 = ec_view e"
    by (rule ec_view_eqI) (simp_all add: r(4,5))
  have pl: "ec_currentPlace e = p"
    using threads_invD(1) [OF t(1)] threads_invD(4) [OF t(1), of p] e(1) assms(2) by (auto simp: place_ok_def)
  have "kept w0 ?w"
    by (rule kept_same [OF kept_put [OF t(2) e(1) v]]) simp_all
  moreover have "places_bound ?w1"
    using places_bound_put [OF t(3) e(1) r(4)] t(3) e(1) pl r(3) unfolding places_bound_def by metis
  then have "places_bound ?w"
    by (rule places_bound_same) simp_all
  moreover have "ec_ready x ?w"
    using ec_view_bits(3) [OF v] e(2) by (simp add: ec_ready_def)
  ultimately have "runs_at p w0 x ?w"
    using r(2) t(4) assms(2) by (simp add: runs_at_def)
  then show ?thesis
    using r(1) by blast
qed

interpretation ecs: schedulable_ops "ec_ops env p" "sched_turn p w0" "sched_known p" ec_ready "runs_at p w0" for env p w0
proof unfold_locales
  show "sd_isReady (ec_ops env p) e w = Some (ec_ready e w)" if "sched_turn p w0 w" "sched_known p e w" for w e
    using that by (auto simp: ec_ops_def ExecutionContext_isReady_def sched_known_def bound_def ec_ready_def)
  show "\<exists>w'. Option.bind (if sd_loaded (ec_ops env p) w \<noteq> 0 then sd_saveState (ec_ops env p) (sd_loaded (ec_ops env p) w) w else Some w)
         (sd_loadState (ec_ops env p) e) = Some w' \<and>
       sched_turn p w0 w' \<and> sd_loaded (ec_ops env p) w' = e \<and> (\<forall>x. sched_known p x w \<longrightarrow> sched_known p x w' \<and> ec_ready x w' = ec_ready x w)"
    if "sched_turn p w0 w" "sched_known p e w" "sd_loaded (ec_ops env p) w \<noteq> e" for w e
    using that unfolding ec_ops_def schedulable.simps by (rule switch_step)
  show "\<exists>w'. sd_resume (ec_ops env p) e w = Some (False, w') \<and> runs_at p w0 e w'"
    if "sched_turn p w0 w" "sched_known p e w" "sd_loaded (ec_ops env p) w = e" "ec_ready e w" for w e
    using resume_turn [OF that(1) _ that(4)] that(3) by (simp add: ec_ops_def)
  show "sd_resume (ec_ops env p) e w = Some (True, w)"
    if "sched_turn p w0 w" "sched_known p e w" "sd_loaded (ec_ops env p) w = e" "\<not> ec_ready e w" for w e
    using that by (auto simp: ec_ops_def ec_ready_def sched_known_def bound_def ExecutionContext_resume_def)
qed

text \<open>The state after a turn of the scheduler: what it dropped from its queue was not ready.\<close>

lemma turn_done:
  assumes "sys_inv w" "th_sc w sc = Some c" "threads_inv w1" "kept w w1" "places_bound w1"
    and "\<And>q. th_user w1 q \<Longrightarrow> th_user w q \<and> th_current_ec w1 q = th_current_ec w q \<or> ec_ready (th_current_ec w1 q) w1"
    and "ll_rep (sc_readyQueue c') ys" "sc_home c' = sc_home c"
    and "\<And>x. has_ec c' x \<Longrightarrow> has_ec c x" "\<And>x. has_ec c x \<Longrightarrow> ec_ready x w \<Longrightarrow> has_ec c' x"
  shows "sys_inv (w1\<lparr>th_sc := (th_sc w1)(sc \<mapsto> c')\<rparr>)"
proof -
  let ?w = "w1\<lparr>th_sc := (th_sc w1)(sc \<mapsto> c')\<rparr>"
  have i: "places_bound w" "queue_ok w" "user_awake w" "has_sched w" "th_ec w 0 = None" "none_lost w"
    using assms(1) by (auto simp: sys_inv_def sched_inv_def sched_base_def)
  have b: "bound ?w = bound w" and r: "ec_ready x ?w = ec_ready x w" for x
    using kept_reads [OF assms(4)] by (simp_all add: bound_def ec_ready_def fun_eq_iff)
  have sc: "th_sc ?w s = (if s = sc then Some c' else th_sc w s)" for s
    using assms(4) by (simp add: kept_def)
  have b1: "bound w1 = bound w" and sc1: "th_sc w1 = th_sc w"
    using kept_reads(1) [OF assms(4)] assms(4) by (simp_all add: kept_def)
  have "threads_inv ?w"
    using assms(3) by (simp add: threads_inv_def place_ok_def ec_ok_def)
  moreover have "places_bound ?w"
    unfolding places_bound_def b sc using assms(5) [unfolded places_bound_def b1 sc1] assms(2,8) by (auto split: if_splits)
  moreover have "queue_ok ?w"
    unfolding queue_ok_def b sc using queue_okD [OF i(2)] assms(2,7,9) by (auto split: if_splits)
  moreover have "user_awake ?w"
    unfolding user_awake_def
  proof (intro allI impI, elim conjE)
    fix q e assume "th_user ?w q" "th_ec ?w (th_current_ec ?w q) = Some e"
    then have q: "th_user w1 q" "th_ec w1 (th_current_ec w1 q) = Some e"
      by simp_all
    obtain e0 where e0: "th_ec w (th_current_ec w1 q) = Some e0" "ec_view e = ec_view e0"
      using keptD [OF assms(4) q(2)] by blast
    show "\<not> bit (ec_flags e) 0"
      using assms(6) [OF q(1)] q(2) i(3) e0 ec_view_bits(1) [OF e0(2)] unfolding user_awake_def by (auto simp: ec_ready_def isBlocked_bits)
  qed
  moreover have "has_sched ?w"
    unfolding has_sched_def b sc
  proof (intro allI impI, elim conjE)
    fix x e assume x: "th_ec ?w x = Some e" "\<not> bit (ec_flags e) 3"
    obtain e0 where e0: "th_ec w x = Some e0" "ec_view e = ec_view e0"
      using keptD [OF assms(4), of x e] x(1) by auto
    then have "\<not> bit (ec_flags e0) 3"
      using ec_view_bits(2) [OF e0(2)] x(2) by simp
    then show "\<exists>s d. bound w x s \<and> (if s = sc then Some c' else th_sc w s) = Some d"
      using has_schedD [OF i(4) e0(1)] by auto
  qed
  moreover have "none_lost ?w"
    unfolding none_lost_def r
  proof (intro allI impI)
    fix x assume x: "ec_ready x w"
    then obtain s d where "bound w x s" "th_sc w s = Some d" "has_ec d x"
      using i(6) unfolding none_lost_def listed_def by blast
    then show "listed ?w x"
      using assms(2,10) x unfolding listed_def b sc by (cases "s = sc") auto
  qed
  moreover have "th_ec ?w 0 = None"
    using threads_invD(1) [OF assms(3)] by simp
  ultimately show ?thesis
    by (simp add: sys_inv_def sched_inv_def sched_base_def)
qed

lemma first_members:
  fixes cur :: u64 and P :: "u64 \<Rightarrow> bool"
  assumes "0 \<notin> set xs"
  defines "first \<equiv> dropWhile (\<lambda>x. \<not> P x) (if cur = 0 then xs else cur # xs)"
  shows "x \<in> set first \<Longrightarrow> x \<noteq> 0 \<and> (x = cur \<or> x \<in> set xs)" "x \<noteq> 0 \<Longrightarrow> x = cur \<or> x \<in> set xs \<Longrightarrow> P x \<Longrightarrow> x \<in> set first"
proof -
  have "x \<in> set (if cur = 0 then xs else cur # xs)" if "x \<in> set first"
    using that unfolding first_def by (rule set_dropWhileD)
  then show "x \<in> set first \<Longrightarrow> x \<noteq> 0 \<and> (x = cur \<or> x \<in> set xs)"
    using assms(1) by (auto split: if_splits)
  assume x: "x \<noteq> 0" "x = cur \<or> x \<in> set xs" "P x"
  let ?l = "if cur = 0 then xs else cur # xs"
  have "x \<in> set (takeWhile (\<lambda>x. \<not> P x) ?l) \<union> set first"
    using x(1,2) unfolding first_def set_append [symmetric] takeWhile_dropWhile_id by auto
  then show "x \<in> set first"
    using x(3) set_takeWhileD [of x "\<lambda>x. \<not> P x" ?l] by blast
qed

lemma tryRunUser_home:
  assumes "SchedulingContext_tryRunUser ops p c w = Some (u, c', w')"
  shows "sc_home c' = sc_home c"
proof -
  have "tryRunUser_loop ops c w = Some (u, c', w')"
    using assms by (auto simp: SchedulingContext_tryRunUser_def bind_eq_Some_conv)
  then show ?thesis
  proof (rule tryRunUser_loop.raw_induct [where P = "\<lambda>ops c w r. sc_home (fst (snd r)) = sc_home c" and y = "(u, c', w')", rotated, simplified fst_conv snd_conv])
    fix loop ops c w r
    assume IH: "\<And>ops c w r. loop ops c w = Some r \<Longrightarrow> sc_home (fst (snd r)) = sc_home c"
      and r: "Option.bind (try_current ops c w) (\<lambda>(user, c, w). if user then Some (True, c, w)
         else Option.bind (select_next ops c w) (\<lambda>(found, c). if found then loop ops c w else Some (False, c, w))) = Some r"
    obtain u1 c1 w1 where t: "try_current ops c w = Some (u1, c1, w1)"
      using r by (auto simp: bind_eq_Some_conv)
    then have h: "sc_home c1 = sc_home c"
      by (auto simp: try_current_def Let_def bind_eq_Some_conv split: if_splits)
    show "sc_home (fst (snd r)) = sc_home c"
    proof (cases u1)
      case True
      then show ?thesis
        using r t h by auto
    next
      case False
      then obtain f c2 where s: "select_next ops c1 w1 = Some (f, c2)" "(if f then loop ops c2 w1 else Some (False, c2, w1)) = Some r"
        using r t by (auto simp: bind_eq_Some_conv)
      then have "sc_home c2 = sc_home c1"
        by (auto simp: select_next_def Let_def bind_eq_Some_conv split: if_splits)
      then show ?thesis
        using s(2) IH [of ops c2 w1 r] h by (auto split: if_splits)
    qed
  qed
qed

lemma turn_result:
  assumes "sys_inv w" "th_sc w sc = Some c" "sc_home c = p" "p \<noteq> 0" "\<not> th_user w p" "ll_rep (sc_readyQueue c) xs"
  defines "first \<equiv> dropWhile (\<lambda>x. \<not> ec_ready x w) (if sc_current_handle c = 0 then xs else sc_current_handle c # xs)"
  shows "\<exists>c' w'. tryRunUser env p sc w = Some (first \<noteq> [], w') \<and> sys_inv w' \<and> th_sc w' sc = Some c' \<and> ll_rep (sc_readyQueue c') (tl first) \<and>
    (if first = [] then sc_current_handle c' = 0 \<and> \<not> th_user w' p
     else sc_current_handle c' = hd first \<and> th_user w' p \<and> th_current_ec w' p = hd first \<and> ec_ready (hd first) w')"
proof -
  have i: "threads_inv w" "queue_ok w" "places_bound w"
    using assms(1) by (auto simp: sys_inv_def sched_inv_def sched_base_def)
  have nz: "0 \<notin> set xs"
    using lq.members [OF assms(6)] by simp
  have turn: "sched_turn p w w"
    using i assms(4,5) by (simp add: sched_turn_def kept_refl)
  have h: "has_ec c x \<longleftrightarrow> x \<noteq> 0 \<and> (x = sc_current_handle c \<or> x \<in> set xs)" for x
    by (rule has_ec_rep [OF assms(6)])
  have known: "sched_known p e w" if "e \<in> set xs \<or> e = sc_current_handle c \<and> e \<noteq> 0" for e
  proof -
    have "has_ec c e"
      using that nz h by auto
    then show ?thesis
      using queue_okD(2) [OF i(2) assms(2)] assms(2,3) unfolding sched_known_def by blast
  qed
  obtain c' w1 where r: "SchedulingContext_tryRunUser (ec_ops env p) p c w = Some (first \<noteq> [], c', w1)" "ll_rep (sc_readyQueue c') (tl first)"
      "if first = [] then sc_current_handle c' = 0 \<and> sched_turn p w w1 else sc_current_handle c' = hd first \<and> runs_at p w (hd first) w1"
    using ecs.tryRunUser_chooses [OF turn assms(6) assms(3) [symmetric] known] unfolding first_def by blast
  note m = first_members [OF nz, where P = "\<lambda>x. ec_ready x w" and cur = "sc_current_handle c", folded first_def]
  have h': "has_ec c' x \<longleftrightarrow> x \<in> set first" for x
    using has_ec_rep [OF r(2), of x] m(1) [of x] r(3) by (cases first) auto
  have k: "threads_inv w1" "kept w w1" "places_bound w1"
    "\<And>q. th_user w1 q \<Longrightarrow> th_user w q \<and> th_current_ec w1 q = th_current_ec w q \<or> ec_ready (th_current_ec w1 q) w1"
    using r(3) unfolding sched_turn_def runs_at_def by (metis (full_types))+
  let ?w = "w1\<lparr>th_sc := (th_sc w1)(sc \<mapsto> c')\<rparr>"
  have "sys_inv ?w"
    by (rule turn_done [OF assms(1,2) k r(2) tryRunUser_home [OF r(1)]]) (use h h' m in blast)+
  moreover have "tryRunUser env p sc w = Some (first \<noteq> [], ?w)"
    using assms(2) r(1) by (simp add: tryRunUser_def)
  moreover have "ec_ready x ?w = ec_ready x w1" for x
    by (simp add: ec_ready_def)
  ultimately show ?thesis
    using r(2,3) by (intro exI [of _ c'] exI [of _ ?w]) (auto simp: sched_turn_def runs_at_def)
qed

end
