(* ===== verification/Thread_System.thy ===== *)
theory Thread_System
  imports Thread_Sched
begin

text \<open>
  The execution contexts of a whole system: the requests, kernel entries and scheduler runs are the
  steps of a transition relation, whose reachable states keep the rules of the execution contexts and
  lose none that is ready.
\<close>

section \<open>Steps\<close>

text \<open>
  After the boot there are schedulers and page maps, and no execution contexts. Each scheduler belongs to
  one place.
\<close>

definition threads_init :: "(u64 \<rightharpoonup> u64) \<Rightarrow> (u64 \<rightharpoonup> pagemap_info) \<Rightarrow> (u64 \<Rightarrow> bool) \<Rightarrow> (u64 \<Rightarrow> ec_message) \<Rightarrow> threads" where
  "threads_init homes pms cms msgs = \<lparr>th_ec = Map.empty, th_sc = (\<lambda>sc. map_option SchedulingContext_init (homes sc)),
     th_pagemap = pms, th_capmap = cms, th_message = msgs, th_current_ec = (\<lambda>_. 0), th_thread_state = (\<lambda>_. 0), th_fpu = (\<lambda>_. []),
     th_user = (\<lambda>_. False), th_cr3 = (\<lambda>_. 0), th_mail = (\<lambda>_. []), th_events = []\<rparr>"

text \<open>What the entry code does with the registers of the interrupted user mode.\<close>

definition store_registers :: "u64 \<Rightarrow> thread_state \<Rightarrow> threads \<Rightarrow> threads" where
  "store_registers p t w = upd_ec (th_thread_state w p) (\<lambda>e. e\<lparr>ec_threadState := t\<rparr>) w"

text \<open>
  The steps. References to address spaces and schedulers change with the commits of the capability
  references: a reference is set only after it was reset. A scheduler is set for an execution context
  that is not loaded, or loaded at the place of this scheduler, and is reset when the scheduler has no
  other one selected. A place handles the messages of its mailbox and runs its scheduler in the kernel.
\<close>

inductive ec_step :: "sys_env \<Rightarrow> threads \<Rightarrow> threads \<Rightarrow> bool" for env where
  create: "obj \<noteq> 0 \<Longrightarrow> th_ec w obj = None \<Longrightarrow> ec_step env w (put_ec obj (ExecutionContext_new a b c) w)"
| message: "ec_step env w (w\<lparr>th_message := m\<rparr>)"
| readRegisters: "ExecutionContext_invokeReadRegisters this msg suspend w = Some (err, w') \<Longrightarrow> ec_step env w w'"
| writeRegisters: "ExecutionContext_invokeWriteRegisters this msg resume w = Some (err, w') \<Longrightarrow> ec_step env w w'"
| resume: "ExecutionContext_invokeResume this w = Some (err, w') \<Longrightarrow> ec_step env w w'"
| suspend: "ExecutionContext_invokeSuspend this msg w = Some (err, w') \<Longrightarrow> ec_step env w w'"
| setFSGS: "\<not> th_user w p \<Longrightarrow> ExecutionContext_invokeSetFSGS p this fs gs w = Some (err, w') \<Longrightarrow> ec_step env w w'"
| setTrapped: "\<not> th_user w p \<Longrightarrow> ExecutionContext_setTrapped p this v w = Some w' \<Longrightarrow> ec_step env w w'"
| readTask: "\<not> th_user w p \<Longrightarrow> th_mail w p = ReadSleepResponse this # ts \<Longrightarrow>
    ExecutionContext_readThreadRegisters this (w\<lparr>th_mail := (th_mail w)(p := ts)\<rparr>) = Some w' \<Longrightarrow> ec_step env w w'"
| writeTask: "\<not> th_user w p \<Longrightarrow> th_mail w p = WriteSleepResponse this # ts \<Longrightarrow>
    (\<forall>e. th_ec w this = Some e \<longrightarrow> ec_currentPlace e = p \<or> ec_currentPlace e = 0) \<Longrightarrow>
    ExecutionContext_writeThreadRegisters this (w\<lparr>th_mail := (th_mail w)(p := ts)\<rparr>) = Some w' \<Longrightarrow> ec_step env w w'"
| suspendTask: "\<not> th_user w p \<Longrightarrow> th_mail w p = SleepResponse this # ts \<Longrightarrow>
    ExecutionContext_suspendThread this (w\<lparr>th_mail := (th_mail w)(p := ts)\<rparr>) = Some w' \<Longrightarrow> ec_step env w w'"
| bind_as: "th_ec w this = Some e \<Longrightarrow> \<not> cap_isUsable (ec_as e) \<Longrightarrow> th_pagemap w (cap_getPtr k) \<noteq> None \<Longrightarrow>
    CapRef_binding (as_ref p this w) this k (cr_put (as_ref p this w) k w) = Some w' \<Longrightarrow> ec_step env w w'"
| unbind_as: "\<not> th_user w p \<Longrightarrow> CapRef_unbinding (as_ref p this w) this k w = Some w1 \<Longrightarrow>
    ec_step env w (cr_put (as_ref p this w) cap_null w1)"
| bind_sched: "th_ec w this = Some e \<Longrightarrow> \<not> cap_isUsable (ec_sched e) \<Longrightarrow> th_sc w (cap_getPtr k) = Some c \<Longrightarrow>
    ec_currentPlace e = 0 \<or> ec_currentPlace e = sc_home c \<Longrightarrow>
    CapRef_binding (sched_ref p this w) this k (cr_put (sched_ref p this w) k w) = Some w' \<Longrightarrow> ec_step env w w'"
| unbind_sched: "th_ec w this = Some e \<Longrightarrow> th_sc w (cap_getPtr (ec_sched e)) = Some c \<Longrightarrow> sc_current_handle c = 0 \<or> sc_current_handle c = this \<Longrightarrow>
    \<not> th_user w p \<Longrightarrow> CapRef_unbinding (sched_ref p this w) this (ec_sched e) w = Some w1 \<Longrightarrow>
    ec_step env w (cr_put (sched_ref p this w) cap_null w1)"
| attachKEvent: "ExecutionContext_attachKEvent this ev w = Some w' \<Longrightarrow> ec_step env w w'"
| detachKEvent: "ExecutionContext_detachKEvent this ev w = Some w' \<Longrightarrow> ec_step env w w'"
| signal: "ExecutionContext_signal this w = Some (res, w') \<Longrightarrow> ec_step env w w'"
| attachSignalSink: "ExecutionContext_attachSignalSink this h w = Some w' \<Longrightarrow> ec_step env w w'"
| detachSignalSink: "ExecutionContext_detachSignalSink this h w = Some w' \<Longrightarrow> ec_step env w w'"
| interrupt: "th_user w p \<Longrightarrow> irq_entry_user p (store_registers p t w) = Some w' \<Longrightarrow> ec_step env w w'"
| syscall: "th_user w p \<Longrightarrow> syscall_entry_cxx env p (s, store_registers p t w) = Some w' \<Longrightarrow> ec_step env w w'"
| schedule: "\<not> th_user w p \<Longrightarrow> p \<noteq> 0 \<Longrightarrow> th_sc w sc = Some c \<Longrightarrow> sc_home c = p \<Longrightarrow> tryRunUser env p sc w = Some (user, w') \<Longrightarrow> ec_step env w w'"

section \<open>Invariant\<close>

lemma threads_init_inv: "sys_inv (threads_init homes pms cms msgs)"
proof -
  let ?w = "threads_init homes pms cms msgs"
  have "threads_inv ?w"
    by (simp add: threads_init_def threads_inv_def place_ok_def)
  moreover have "\<not> bound ?w x sc" "\<not> ec_ready x ?w" for x sc
    by (simp_all add: threads_init_def bound_def ec_ready_def)
  moreover have "queue_ok ?w"
  proof -
    have "ll_rep LinkedList_init []"
      by (simp add: ll_rep_def LinkedList_init_def ll_last_def)
    then have "\<not> has_ec (SchedulingContext_init h) x" and "\<exists>xs. ll_rep (sc_readyQueue (SchedulingContext_init h)) xs" for h x
      using has_ec_rep [of "SchedulingContext_init h" "[]"] by (auto simp: SchedulingContext_init_def)
    then show ?thesis
      by (auto simp: queue_ok_def threads_init_def)
  qed
  ultimately show ?thesis
    by (simp add: sys_inv_def sched_inv_def sched_base_def none_lost_def places_bound_def)
      (simp add: threads_init_def user_awake_def has_sched_def)
qed

lemma create_inv:
  assumes "sys_inv w" "obj \<noteq> 0" "th_ec w obj = None"
  shows "sys_inv (put_ec obj (ExecutionContext_new a b c) w)"
proof -
  let ?e = "ExecutionContext_new a b c"
  let ?w = "put_ec obj ?e w"
  have i: "threads_inv w" "places_bound w" "queue_ok w" "user_awake w" "has_sched w" "th_ec w 0 = None" "none_lost w"
    using assms(1) by (auto simp: sys_inv_def sched_inv_def sched_base_def)
  have f: "ec_flags ?e = IS_TRAPPED OR NO_AS OR NO_SCHED OR DONT_PREEMPT OR NOT_LOADED OR NOT_RUNNING" "ec_currentPlace ?e = 0" "ec_sched ?e = cap_null"
    by (simp_all add: ExecutionContext_new_def IS_TRAPPED_def NO_AS_def NO_SCHED_def DONT_PREEMPT_def NOT_LOADED_def NOT_RUNNING_def)
  have bits: "bit (ec_flags ?e) 2" "bit (ec_flags ?e) 3" "bit (ec_flags ?e) 8" "ExecutionContext_isBlocked (ec_flags ?e)"
    unfolding f by (simp_all add: flag_simps)
  have cur: "th_current_ec w p \<noteq> obj" for p
    using threads_invD(4) [OF i(1), of p] assms(2,3) by (auto simp: place_ok_def)
  have b: "bound ?w = bound w"
    using assms(3) f(3) by (auto simp: bound_def fun_eq_iff cap_state_defs cap_null_def)
  have "ec_ok ?w x y = ec_ok w x y" for x y
    by (simp add: ec_ok_def)
  moreover have "ec_ok w obj ?e"
    using bits f(2) by (simp add: ec_ok_def)
  moreover have "place_ok ?w p" for p
    using threads_invD(4) [OF i(1), of p] cur [of p] by (simp add: place_ok_def)
  ultimately have t: "threads_inv ?w"
    using i(1) assms(2) by (simp add: threads_inv_def)
  have "listed ?w x = listed w x" "ec_ready x ?w \<Longrightarrow> ec_ready x w" for x
    using bits(4) by (auto simp: listed_def b ec_ready_def split: if_splits)
  then have "none_lost ?w"
    using i(7) by (simp add: none_lost_def)
  moreover have "places_bound ?w" "queue_ok ?w" "has_sched ?w"
    using i(2,3,5) f(2) bits(2) unfolding places_bound_def queue_ok_def has_sched_def b by auto
  moreover have "user_awake ?w"
    using i(4) cur unfolding user_awake_def by auto
  ultimately show ?thesis
    using t i(6) assms(2) by (simp add: sys_inv_def sched_inv_def sched_base_def)
qed

text \<open>The entries from user mode.\<close>

lemma store_registers_inv: "sys_inv w \<Longrightarrow> sys_inv (store_registers p t w)"
  unfolding store_registers_def sys_inv_def using upd_ec_keep_inv(1) upd_ec_keep_sched by simp

lemma left_user:
  assumes "sys_inv w" "th_user w p"
  obtains e where "sys_inv (leave_user p w)" "th_ec (leave_user p w) (th_current_ec w p) = Some e" "\<not> bit (ec_flags e) 0" "\<not> at_user (leave_user p w) (th_current_ec w p)"
proof -
  have i: "threads_inv w" "sched_inv w" "user_awake w"
    using assms(1) by (auto simp: sys_inv_def sched_inv_def sched_base_def)
  obtain e where e: "th_ec w (th_current_ec w p) = Some e"
    using threads_invD(4) [OF i(1), of p] assms(2) by (auto simp: place_ok_def)
  have "\<not> bit (ec_flags e) 0"
    using i(3) e assms(2) by (auto simp: user_awake_def)
  moreover have "\<not> at_user (leave_user p w) (th_current_ec w p)"
    using at_user_place(1) [OF i(1) e] assms(2) by (auto simp: at_user_def leave_user_def split: if_splits)
  moreover have "sched_inv (leave_user p w)"
    by (rule sched_inv_same [OF i(2)]) (auto simp: leave_user_def split: if_splits)
  moreover have "threads_inv (leave_user p w)"
    unfolding leave_user_def by (rule stop_user_inv [OF i(1)])
  ultimately show ?thesis
    using that [of e] e by (simp add: sys_inv_def leave_user_def)
qed

lemma irq_entry_user_inv:
  assumes "sys_inv w" "th_user w p" "irq_entry_user p w = Some w'"
  shows "sys_inv w'"
proof (rule left_user [OF assms(1,2)])
  fix e assume l: "sys_inv (leave_user p w)" "\<not> at_user (leave_user p w) (th_current_ec w p)"
  let ?w = "leave_user p w" and ?x = "th_current_ec w p"
  have i: "threads_inv ?w" "sched_inv ?w" "th_current_ec ?w p = ?x"
    using l(1) by (simp_all add: sys_inv_def leave_user_def)
  consider "ExecutionContext_handleTrap ?x ?w = Some w'" | "w' = ?w" | prev where "ExecutionContext_setFlags ?x NOT_RUNNING ?w = Some (prev, w')"
    using assms(3) i(3)
    by (auto simp: irq_entry_user_def ec_handle_trap_def ec_interrupted_def ExecutionContext_handleInterrupt_def Let_def bind_eq_Some_conv split: if_splits)
  then show ?thesis
  proof cases
    case 1
    then show ?thesis
      using handleTrap_inv [OF i(1) 1 l(2)] handleTrap_sched [OF i(2) 1] by (simp add: sys_inv_def)
  next
    case 3
    have "threads_inv w'"
      by (rule setFlags_inv [OF i(1) 3]) (simp_all add: single_flag_bits l(2))
    moreover have "sched_inv w'"
      by (rule setFlags_sched [OF i(2) 3]) (simp add: single_flag_bits)
    ultimately show ?thesis
      by (simp add: sys_inv_def)
  qed (use l in simp)
qed

lemma syscall_entry_inv:
  assumes "sys_inv w" "th_user w p" "syscall_entry_cxx env p (s, w) = Some w'"
  shows "sys_inv w'"
proof (rule left_user [OF assms(1,2)])
  fix e assume l: "sys_inv (leave_user p w)" "th_ec (leave_user p w) (th_current_ec w p) = Some e" "\<not> bit (ec_flags e) 0" "\<not> at_user (leave_user p w) (th_current_ec w p)"
  let ?w = "leave_user p w" and ?x = "th_current_ec w p"
  have i: "threads_inv ?w" "sched_inv ?w"
    using l(1) by (simp_all add: sys_inv_def)
  have h: "ExecutionContext_handleSyscall env ?x (s, ?w) = Some w'"
    using assms(3) by (auto simp: syscall_entry_cxx_def ec_handle_syscall_def leave_user_def bind_eq_Some_conv)
  show ?thesis
    using handleSyscall_inv [OF i(1) h l(4)] handleSyscall_sched [OF i(2) h l(4,2,3)] by (simp add: sys_inv_def)
qed

lemma clear_trapped_inv:
  assumes "sys_inv w" "ExecutionContext_clearFlagsResume this IS_TRAPPED w = Some w'"
  shows "sys_inv w'"
  using clearFlagsResume_inv [OF _ assms(2)] clearFlagsResume_sched' [OF _ assms(2)] assms(1) by (simp add: sys_inv_def single_flag_bits)

lemma setTrapped_inv:
  assumes "sys_inv w" "ExecutionContext_setTrapped p this v w = Some w'" "\<not> th_user w p"
  shows "sys_inv w'"
proof (cases v)
  case True
  then have s: "ExecutionContext_setFlagsSuspend p this IS_TRAPPED w = Some w'"
    using assms(2) by (simp add: ExecutionContext_setTrapped_def)
  have "sched_inv w'"
    by (rule setFlagsSuspend_sched [OF assms(1) s assms(3)]) (simp_all add: flag_simps)
  moreover have "threads_inv w'"
    using setFlagsSuspend_inv(1) [OF _ s assms(3)] assms(1) by (simp add: sys_inv_def flag_simps)
  ultimately show ?thesis
    by (simp add: sys_inv_def)
next
  case False
  then have "ExecutionContext_clearFlagsResume this IS_TRAPPED w = Some w'"
    using assms(2) by (simp add: ExecutionContext_setTrapped_def)
  then show ?thesis
    by (rule clear_trapped_inv [OF assms(1)])
qed

text \<open>A place in the kernel takes a message.\<close>

lemma take_mail_inv:
  assumes "sys_inv w" "\<not> th_user w p"
  shows "sys_inv (w\<lparr>th_mail := (th_mail w)(p := ts)\<rparr>)"
proof -
  let ?w = "w\<lparr>th_mail := (th_mail w)(p := ts)\<rparr>"
  have i: "threads_inv w" "sched_inv w"
    using assms(1) by (simp_all add: sys_inv_def)
  have "place_ok ?w q" for q
    using threads_invD(4) [OF i(1), of q] assms(2) by (cases "q = p") (simp_all add: place_ok_def)
  moreover have "ec_ok ?w x e = ec_ok w x e" for x e
    by (simp add: ec_ok_def)
  ultimately have "threads_inv ?w"
    using i(1) by (simp add: threads_inv_def)
  moreover have "sched_inv ?w"
    by (rule sched_inv_same [OF i(2)]) simp_all
  ultimately show ?thesis
    by (simp add: sys_inv_def)
qed

lemma not_user_at:
  assumes "sys_inv w" "\<not> th_user w p" "\<forall>e. th_ec w this = Some e \<longrightarrow> ec_currentPlace e = p \<or> ec_currentPlace e = 0" "th_ec w this \<noteq> None"
  shows "\<not> at_user w this"
proof -
  have t: "threads_inv w"
    using assms(1) by (simp add: sys_inv_def)
  obtain e where e: "th_ec w this = Some e" "ec_currentPlace e = p \<or> ec_currentPlace e = 0"
    using assms(3,4) by blast
  then show ?thesis
    using at_user_place [OF t e(1)] assms(2) by (auto simp: at_user_def)
qed

text \<open>The operations that keep both parts of the invariant on their own.\<close>

lemma sys_ops_inv:
  assumes "sys_inv w"
  shows "ExecutionContext_invokeReadRegisters this msg suspend w = Some (err, w') \<Longrightarrow> sys_inv w'"
    "ExecutionContext_invokeWriteRegisters this msg resume w = Some (err, w') \<Longrightarrow> sys_inv w'"
    "ExecutionContext_invokeSuspend this msg w = Some (err, w') \<Longrightarrow> sys_inv w'"
    "ExecutionContext_attachKEvent this ev w = Some w' \<Longrightarrow> sys_inv w'"
    "ExecutionContext_detachKEvent this ev w = Some w' \<Longrightarrow> sys_inv w'"
    "ExecutionContext_signal this w = Some (res, w') \<Longrightarrow> sys_inv w'"
    "ExecutionContext_attachSignalSink this h w = Some w' \<Longrightarrow> sys_inv w'"
    "ExecutionContext_detachSignalSink this h w = Some w' \<Longrightarrow> sys_inv w'"
proof -
  have i: "threads_inv w" "sched_inv w"
    using assms by (simp_all add: sys_inv_def)
  show "sys_inv w'" if r: "ExecutionContext_invokeReadRegisters this msg suspend w = Some (err, w')"
    using invokeReadRegisters_inv [OF i(1) r] requests_sched(1) [OF i(2) r] by (simp add: sys_inv_def)
  show "sys_inv w'" if r: "ExecutionContext_invokeWriteRegisters this msg resume w = Some (err, w')"
    using invokeWriteRegisters_inv [OF i(1) r] requests_sched(2) [OF i(2) r] by (simp add: sys_inv_def)
  show "sys_inv w'" if r: "ExecutionContext_invokeSuspend this msg w = Some (err, w')"
    using invokeSuspend_inv [OF i(1) r] requests_sched(3) [OF i(2) r] by (simp add: sys_inv_def)
  show "sys_inv w'" if r: "ExecutionContext_attachKEvent this ev w = Some w'"
    using attachKEvent_inv [OF i(1) r] events_sched(1) [OF i(2) r] by (simp add: sys_inv_def)
  show "sys_inv w'" if r: "ExecutionContext_detachKEvent this ev w = Some w'"
    using detachKEvent_inv [OF i(1) r] events_sched(2) [OF i(2) r] by (simp add: sys_inv_def)
  show "sys_inv w'" if r: "ExecutionContext_signal this w = Some (res, w')"
    using signal_inv(1) [OF i(1) r] events_sched(3) [OF i(2) r] by (simp add: sys_inv_def)
  show "sys_inv w'" if r: "ExecutionContext_attachSignalSink this h w = Some w'"
    using sinks_inv(1) [OF i(1) r] events_sched(5) [OF i(2) r] by (simp add: sys_inv_def)
  show "sys_inv w'" if r: "ExecutionContext_detachSignalSink this h w = Some w'"
    using sinks_inv(2) [OF i(1) r] events_sched(6) [OF i(2) r] by (simp add: sys_inv_def)
qed

lemma ec_step_inv:
  assumes "ec_step env w w'" "sys_inv w"
  shows "sys_inv w'"
  using assms
proof (induction rule: ec_step.induct)
  case (message w m)
  have "threads_inv (w\<lparr>th_message := m\<rparr>)" "sched_inv (w\<lparr>th_message := m\<rparr>)"
    using message same_threads_inv [of w "w\<lparr>th_message := m\<rparr>"] sched_inv_same [of w "w\<lparr>th_message := m\<rparr>"] by (simp_all add: sys_inv_def same_threads_def)
  then show ?case
    by (simp add: sys_inv_def)
next
  case (resume this w err w')
  then have "ExecutionContext_clearFlagsResume this IS_TRAPPED w = Some w'"
    by (auto simp: ExecutionContext_invokeResume_def bind_eq_Some_conv)
  then show ?case
    by (rule clear_trapped_inv [OF resume.prems])
next
  case (readTask w p this ts w')
  then show ?case
    using take_mail_inv [of w p ts] readThreadRegisters_inv readThreadRegisters_sched by (auto simp: sys_inv_def)
next
  case (writeTask w p this ts w')
  let ?w = "w\<lparr>th_mail := (th_mail w)(p := ts)\<rparr>"
  have m: "sys_inv ?w"
    using take_mail_inv writeTask by blast
  have "th_ec w this \<noteq> None"
    using writeTask.hyps(4) by (auto simp: ExecutionContext_writeThreadRegisters_def bind_eq_Some_conv)
  then have "\<not> at_user ?w this"
    using not_user_at [OF writeTask.prems writeTask.hyps(1,3)] by (simp add: at_user_def)
  then show ?case
    using m writeThreadRegisters_inv [OF _ writeTask.hyps(4)] writeThreadRegisters_sched [OF _ writeTask.hyps(4)] by (simp add: sys_inv_def)
next
  case (suspendTask w p this ts w')
  then show ?case
    using take_mail_inv [of w p ts] suspendThread_inv suspendThread_sched by (auto simp: sys_inv_def)
next
  case (bind_as w this e k p w')
  have t: "threads_inv w" "sched_inv w"
    using bind_as.prems by (simp_all add: sys_inv_def)
  have "bit (ec_flags e) 2"
    using threads_invD(3) [OF t(1) bind_as.hyps(1)] bind_as.hyps(2) by (auto simp: ec_ok_def)
  then show ?case
    using bind_as_inv [OF t(1) bind_as.hyps(1) _ bind_as.hyps(3,4)] bind_as_sched [OF t(2) bind_as.hyps(1,4)] by (simp add: sys_inv_def)
next
  case (unbind_as w p this k w1)
  then show ?case
    using unbind_as_inv unbind_as_sched by (simp add: sys_inv_def)
next
  case (bind_sched w this e k c p w')
  then show ?case
    using bind_sched_inv [OF _ bind_sched.hyps(1,5)] bind_sched_sched [OF _ bind_sched.hyps] by (simp add: sys_inv_def)
next
  case (unbind_sched w this e c p w1)
  then show ?case
    using unbind_sched_inv [OF _ unbind_sched.hyps(5,4)] unbind_sched_sched [OF unbind_sched.prems unbind_sched.hyps(1-3,5,4)] by (simp add: sys_inv_def)
next
  case (interrupt w p t w')
  have "th_user (store_registers p t w) p"
    using interrupt.hyps(1) by (simp add: store_registers_def upd_ec_def)
  then show ?case
    using irq_entry_user_inv [OF store_registers_inv [OF interrupt.prems] _ interrupt.hyps(2)] by simp
next
  case (syscall w p s t w')
  have "th_user (store_registers p t w) p"
    using syscall.hyps(1) by (simp add: store_registers_def upd_ec_def)
  then show ?case
    using syscall_entry_inv [OF store_registers_inv [OF syscall.prems] _ syscall.hyps(2)] by simp
next
  case (schedule w p sc c user w')
  have "queue_ok w"
    using schedule.prems by (simp add: sys_inv_def sched_inv_def sched_base_def)
  then obtain xs where "ll_rep (sc_readyQueue c) xs"
    using queue_okD(1) schedule.hyps(3) by blast
  then show ?case
    using turn_result [OF schedule.prems schedule.hyps(3,4,2,1), of xs env] schedule.hyps(5) by auto
next
  case (create obj w a b c)
  then show ?case
    using create_inv by blast
next
  case (setFSGS w p this fs gs err w')
  then show ?case
    using invokeSetFSGS_inv invokeSetFSGS_sched unfolding sys_inv_def by blast
next
  case (setTrapped w p this v w')
  then show ?case
    using setTrapped_inv by blast
qed (erule (1) sys_ops_inv [rotated])+

lemma reachable_inv: "(ec_step env)\<^sup>*\<^sup>* (threads_init homes pms cms msgs) w \<Longrightarrow> sys_inv w"
  by (induction rule: rtranclp_induct) (use threads_init_inv ec_step_inv in blast)+

text \<open>
  C0. In every state that the requests, kernel entries and scheduler runs reach from the boot: an execution
  context that is loaded is the one of its place and of no other; a place in user mode runs the execution
  context that is loaded there, with an address space, and if this one is blocked, a message is waiting
  for the place; and every execution context that is ready is selected or queued by the scheduler it is
  bound to, so that no wake-up is lost.
\<close>

theorem threads_safe:
  assumes "(ec_step env)\<^sup>*\<^sup>* (threads_init homes pms cms msgs) w"
  shows "(\<forall>x e. th_ec w x = Some e \<and> ec_currentPlace e \<noteq> 0 \<longrightarrow> (\<forall>q. th_current_ec w q = x \<longleftrightarrow> q = ec_currentPlace e)) \<and>
    (\<forall>p. th_user w p \<longrightarrow> (\<exists>e. th_ec w (th_current_ec w p) = Some e \<and> ec_currentPlace e = p \<and>
       (if ExecutionContext_isBlocked (ec_flags e) then th_mail w p \<noteq> [] else cap_isUsable (ec_as e)))) \<and>
    (\<forall>x e. th_ec w x = Some e \<and> \<not> ExecutionContext_isBlocked (ec_flags e) \<longrightarrow>
       (\<exists>c xs. th_sc w (cap_getPtr (ec_sched e)) = Some c \<and> ll_rep (sc_readyQueue c) xs \<and> (x = sc_current_handle c \<or> x \<in> set xs)))"
proof -
  have i: "threads_inv w" "queue_ok w" "none_lost w"
    using reachable_inv [OF assms] by (auto simp: sys_inv_def sched_inv_def sched_base_def)
  have nz: "x \<noteq> 0" if "th_ec w x = Some e" for x e
    using that threads_invD(1) [OF i(1)] by auto
  have one: "th_current_ec w q = x \<longleftrightarrow> q = ec_currentPlace e" if e: "th_ec w x = Some e" "ec_currentPlace e \<noteq> 0" for x e q
  proof
    assume "th_current_ec w q = x"
    then show "q = ec_currentPlace e"
      using threads_invD(4) [OF i(1), of q] e(1) nz [OF e(1)] by (simp add: place_ok_def)
  next
    assume "q = ec_currentPlace e"
    then show "th_current_ec w q = x"
      using threads_invD(3) [OF i(1) e(1)] e(2) by (simp add: ec_ok_def)
  qed
  have run: "\<exists>e. th_ec w (th_current_ec w p) = Some e \<and> ec_currentPlace e = p \<and>
     (if ExecutionContext_isBlocked (ec_flags e) then th_mail w p \<noteq> [] else cap_isUsable (ec_as e))" if u: "th_user w p" for p
  proof -
    obtain e where e: "th_ec w (th_current_ec w p) = Some e" "ExecutionContext_isBlocked (ec_flags e) \<longrightarrow> th_mail w p \<noteq> []"
      using threads_invD(4) [OF i(1), of p] u by (auto simp: place_ok_def)
    then show ?thesis
      using threads_invD(3) [OF i(1) e(1)] at_user_place(1) [OF i(1) e(1) u] by (auto simp: ec_ok_def isBlocked_bits)
  qed
  have lost: "\<exists>c xs. th_sc w (cap_getPtr (ec_sched e)) = Some c \<and> ll_rep (sc_readyQueue c) xs \<and> (x = sc_current_handle c \<or> x \<in> set xs)"
    if e: "th_ec w x = Some e" "\<not> ExecutionContext_isBlocked (ec_flags e)" for x e
  proof -
    have "listed w x"
      using i(3) e by (auto simp: none_lost_def ec_ready_def)
    then obtain c where c: "th_sc w (cap_getPtr (ec_sched e)) = Some c" "has_ec c x"
      using e(1) by (auto simp: listed_def bound_def)
    then obtain xs where xs: "ll_rep (sc_readyQueue c) xs"
      using queue_okD(1) [OF i(2)] by blast
    show ?thesis
      using c has_ec_rep [OF xs] xs by blast
  qed
  show ?thesis
  proof (intro conjI)
    show "\<forall>x e. th_ec w x = Some e \<and> ec_currentPlace e \<noteq> 0 \<longrightarrow> (\<forall>q. th_current_ec w q = x \<longleftrightarrow> q = ec_currentPlace e)"
      using one by blast
    show "\<forall>p. th_user w p \<longrightarrow> (\<exists>e. th_ec w (th_current_ec w p) = Some e \<and> ec_currentPlace e = p \<and>
       (if ExecutionContext_isBlocked (ec_flags e) then th_mail w p \<noteq> [] else cap_isUsable (ec_as e)))"
      using run by blast
  qed (use lost in blast)
qed

text \<open>
  C0. A run of the scheduler at its place, in a reachable state, returns or ends in user mode: with the
  selected execution context first and then the queue in its order, the first one that is ready runs in
  user mode at this place, those before it are dropped and those after it stay queued. If none is ready,
  the place goes to sleep, and then no execution context bound to this scheduler is ready.
\<close>

theorem scheduler_runs_first_ready:
  assumes "(ec_step env)\<^sup>*\<^sup>* (threads_init homes pms cms msgs) w"
    and "th_sc w sc = Some c" "sc_home c = p" "p \<noteq> 0" "\<not> th_user w p"
  shows "\<exists>xs first c' w'. ll_rep (sc_readyQueue c) xs \<and>
    first = dropWhile (\<lambda>x. \<not> ec_ready x w) (if sc_current_handle c = 0 then xs else sc_current_handle c # xs) \<and>
    tryRunUser env p sc w = Some (first \<noteq> [], w') \<and> th_sc w' sc = Some c' \<and> ll_rep (sc_readyQueue c') (tl first) \<and>
    (if first = [] then sc_current_handle c' = 0 \<and> \<not> th_user w' p \<and> (\<forall>x. bound w x sc \<longrightarrow> \<not> ec_ready x w)
     else sc_current_handle c' = hd first \<and> th_user w' p \<and> th_current_ec w' p = hd first)"
proof -
  have s: "sys_inv w"
    by (rule reachable_inv [OF assms(1)])
  have i: "queue_ok w" "none_lost w"
    using s by (auto simp: sys_inv_def sched_inv_def sched_base_def)
  obtain xs where xs: "ll_rep (sc_readyQueue c) xs"
    using queue_okD(1) [OF i(1) assms(2)] by blast
  let ?first = "dropWhile (\<lambda>x. \<not> ec_ready x w) (if sc_current_handle c = 0 then xs else sc_current_handle c # xs)"
  have none: "\<not> ec_ready x w" if "?first = []" "bound w x sc" for x
  proof
    assume r: "ec_ready x w"
    then have "has_ec c x"
      using i(2) that(2) assms(2) unfolding none_lost_def listed_def by (auto simp: bound_def)
    then have "x \<in> set ?first"
      using first_members(2) [of xs x "sc_current_handle c" "\<lambda>x. ec_ready x w"] r has_ec_rep [OF xs] lq.members [OF xs] by blast
    then show False
      using that(1) by simp
  qed
  obtain c' w' where r: "tryRunUser env p sc w = Some (?first \<noteq> [], w')" "th_sc w' sc = Some c'" "ll_rep (sc_readyQueue c') (tl ?first)"
      "if ?first = [] then sc_current_handle c' = 0 \<and> \<not> th_user w' p
       else sc_current_handle c' = hd ?first \<and> th_user w' p \<and> th_current_ec w' p = hd ?first \<and> ec_ready (hd ?first) w'"
    using turn_result [OF s assms(2-5) xs, of env] by blast
  have "if ?first = [] then sc_current_handle c' = 0 \<and> \<not> th_user w' p \<and> (\<forall>x. bound w x sc \<longrightarrow> \<not> ec_ready x w)
     else sc_current_handle c' = hd ?first \<and> th_user w' p \<and> th_current_ec w' p = hd ?first"
  proof (cases "?first = []")
    case True
    then show ?thesis
      using r(4) none by (simp only: if_True simp_thms) blast
  next
    case False
    then show ?thesis
      using r(4) by (simp only: if_False simp_thms)
  qed
  then show ?thesis
    using xs r(1-3) by blast
qed

section \<open>Example\<close>

text \<open>One place with its scheduler and one page map; an execution context is created, configured and started there.\<close>

definition ex_sched :: u64 where "ex_sched = 0xffff800000002000"
definition ex_as :: u64 where "ex_as = 0xffff800000003000"
definition ex_ec :: u64 where "ex_ec = 0xffff800000004000"
definition ex_sched_cap :: cap where "ex_sched_cap = the (mk_cap ex_sched 0 2)"
definition ex_as_cap :: cap where "ex_as_cap = the (mk_cap ex_as 0 2)"

definition ex_boot :: threads where
  "ex_boot = threads_init [ex_sched \<mapsto> 1] [ex_as \<mapsto> \<lparr>pi_level = 4, pi_table = 0x5000, pi_configurable = True\<rparr>] (\<lambda>_. False) (\<lambda>_. Resume)"

definition ex_env :: sys_env where
  "ex_env = \<lparr>se_lookup = (\<lambda>_ _ _. Inl NO_LOOKUP), se_cast_IPortal = (\<lambda>_. Inl TYPE_MISMATCH), se_sendInvocation = (\<lambda>_ _ _ _. Inr ()),
     se_deliverKEvent = (\<lambda>_. (0, 0))\<rparr>"

definition ex_created :: threads where
  "ex_created = put_ec ex_ec (ExecutionContext_new (0, 0) (0, 0) (0, 0)) ex_boot"

definition ex_set_as :: "threads \<Rightarrow> threads option" where
  "ex_set_as w = CapRef_binding (as_ref 1 ex_ec w) ex_ec ex_as_cap (cr_put (as_ref 1 ex_ec w) ex_as_cap w)"

definition ex_set_sched :: "threads \<Rightarrow> threads option" where
  "ex_set_sched w = CapRef_binding (sched_ref 1 ex_ec w) ex_ec ex_sched_cap (cr_put (sched_ref 1 ex_ec w) ex_sched_cap w)"

definition ex_configured :: "threads option" where
  "ex_configured = ex_set_as ex_created"

definition ex_resumed :: "threads option" where
  "ex_resumed = do { w \<leftarrow> ex_configured; w \<leftarrow> ex_set_sched w; (err, w) \<leftarrow> ExecutionContext_invokeResume ex_ec w; Some w }"

definition ex_running :: "(bool \<times> threads) option" where
  "ex_running = do { w \<leftarrow> ex_resumed; tryRunUser ex_env 1 ex_sched w }"

declare LinkedList_remove_loop.simps [code] next_ready.simps [code] tryRunUser_loop.simps [code]

lemma ex_created_reads:
  "map_option (\<lambda>e. cap_isUsable (ec_as e)) (th_ec ex_created ex_ec) = Some False" "\<not> Option.is_none (th_pagemap ex_created (cap_getPtr ex_as_cap))"
  by code_simp+

lemma ex_configured_reads:
  "map_option (\<lambda>w. (map_option (\<lambda>e. (cap_isUsable (ec_sched e), ec_currentPlace e)) (th_ec w ex_ec), map_option sc_home (th_sc w (cap_getPtr ex_sched_cap)))) ex_configured =
    Some (Some (False, 0), Some 1)"
  by code_simp

lemma ex_resumed_reads:
  "map_option (\<lambda>w. (th_user w 1, map_option (\<lambda>e. ExecutionContext_isBlocked (ec_flags e)) (th_ec w ex_ec),
     map_option (\<lambda>c. (sc_home c, sc_current_handle c, ll_rep (sc_readyQueue c) [ex_ec])) (th_sc w ex_sched))) ex_resumed =
   Some (False, Some False, Some (1, 0, True))"
  by code_simp

lemma ex_running_reads:
  "map_option (\<lambda>(b, w). (b, th_user w 1, th_current_ec w 1 = ex_ec, th_mail w 1 = [])) ex_running = Some (True, True, True, True)"
  by code_simp

lemma ex_reached: "\<exists>w. ex_resumed = Some w \<and> (ec_step ex_env)\<^sup>*\<^sup>* ex_boot w"
proof -
  have 1: "ec_step ex_env ex_boot ex_created"
    unfolding ex_created_def by (rule ec_step.create) (simp_all add: ex_ec_def ex_boot_def threads_init_def)
  obtain w1 e1 c where w1: "ex_configured = Some w1" "th_ec w1 ex_ec = Some e1" "\<not> cap_isUsable (ec_sched e1)" "ec_currentPlace e1 = 0"
      "th_sc w1 (cap_getPtr ex_sched_cap) = Some c"
    using ex_configured_reads by auto
  obtain e where "th_ec ex_created ex_ec = Some e" "\<not> cap_isUsable (ec_as e)"
    using ex_created_reads(1) by auto
  then have 2: "ec_step ex_env ex_created w1"
    using ex_created_reads(2) w1(1) by (intro ec_step.bind_as [where p = 1 and k = ex_as_cap]) (auto simp: ex_configured_def ex_set_as_def Option.is_none_def)
  obtain w where w: "ex_resumed = Some w"
    using ex_resumed_reads by auto
  then obtain w2 err where w2: "ex_set_sched w1 = Some w2" "ExecutionContext_invokeResume ex_ec w2 = Some (err, w)"
    by (auto simp: ex_resumed_def w1(1) bind_eq_Some_conv)
  have 3: "ec_step ex_env w1 w2"
    using w1(2-5) w2(1) by (intro ec_step.bind_sched [where p = 1 and k = ex_sched_cap]) (auto simp: ex_set_sched_def)
  have "ec_step ex_env w2 w"
    by (rule ec_step.resume [OF w2(2)])
  then have "(ec_step ex_env)\<^sup>*\<^sup>* ex_boot w"
    using 1 2 3 by (meson rtranclp.rtrancl_refl rtranclp.rtrancl_into_rtrancl)
  then show ?thesis
    using w by blast
qed

theorem scheduler_runs_first_ready_witness:
  "\<exists>w w'. ex_resumed = Some w \<and> (ec_step ex_env)\<^sup>*\<^sup>* ex_boot w \<and>
    tryRunUser ex_env 1 ex_sched w = Some (True, w') \<and> th_user w' 1 \<and> th_current_ec w' 1 = ex_ec"
proof -
  obtain w where w: "ex_resumed = Some w" "(ec_step ex_env)\<^sup>*\<^sup>* ex_boot w"
    using ex_reached by blast
  obtain c e where c: "th_sc w ex_sched = Some c" "sc_home c = 1" "sc_current_handle c = 0" "ll_rep (sc_readyQueue c) [ex_ec]"
    and u: "\<not> th_user w 1" and e: "th_ec w ex_ec = Some e" "\<not> ExecutionContext_isBlocked (ec_flags e)"
    using ex_resumed_reads [unfolded w(1)] by auto
  have ready: "ec_ready ex_ec w"
    using e by (simp add: ec_ready_def)
  have nz: "(1 :: u64) \<noteq> 0"
    by simp
  obtain xs first c' w' where r: "ll_rep (sc_readyQueue c) xs" "first = dropWhile (\<lambda>x. \<not> ec_ready x w) (if sc_current_handle c = 0 then xs else sc_current_handle c # xs)"
      "tryRunUser ex_env 1 ex_sched w = Some (first \<noteq> [], w')" "th_sc w' ex_sched = Some c'"
      "if first = [] then sc_current_handle c' = 0 \<and> \<not> th_user w' 1 \<and> (\<forall>x. bound w x ex_sched \<longrightarrow> \<not> ec_ready x w)
       else sc_current_handle c' = hd first \<and> th_user w' 1 \<and> th_current_ec w' 1 = hd first"
    using scheduler_runs_first_ready [OF w(2) [unfolded ex_boot_def] c(1,2) nz u] by (elim exE conjE) (rule that, assumption+)
  have "xs = [ex_ec]"
    using r(1) c(4) by (rule ll_rep_unique)
  then have "first = [ex_ec]"
    using r(2) c(3) ready by simp
  then show ?thesis
    using w r(3,5) by auto
qed

theorem threads_safe_witness:
  "\<exists>w e. ex_running = Some (True, w) \<and> (ec_step ex_env)\<^sup>*\<^sup>* ex_boot w \<and> th_user w 1 \<and>
    th_ec w ex_ec = Some e \<and> ec_currentPlace e = 1 \<and> \<not> ExecutionContext_isBlocked (ec_flags e) \<and> cap_isUsable (ec_as e)"
proof -
  obtain w0 where w0: "ex_resumed = Some w0" "(ec_step ex_env)\<^sup>*\<^sup>* ex_boot w0"
    using ex_reached by blast
  obtain w where w: "ex_running = Some (True, w)" "th_user w 1" "th_current_ec w 1 = ex_ec" "th_mail w 1 = []"
    using ex_running_reads by auto
  obtain c where c: "th_sc w0 ex_sched = Some c" "sc_home c = 1" "\<not> th_user w0 1"
    using ex_resumed_reads [unfolded w0(1)] by auto
  have "tryRunUser ex_env 1 ex_sched w0 = Some (True, w)"
    using w(1) unfolding ex_running_def w0(1) by simp
  then have "ec_step ex_env w0 w"
    using c by (intro ec_step.schedule [of w0 1 ex_sched c]) simp_all
  then have r: "(ec_step ex_env)\<^sup>*\<^sup>* ex_boot w"
    using w0(2) by (rule rtranclp.rtrancl_into_rtrancl [rotated])
  have "\<exists>e. th_ec w (th_current_ec w 1) = Some e \<and> ec_currentPlace e = 1 \<and>
     (if ExecutionContext_isBlocked (ec_flags e) then th_mail w 1 \<noteq> [] else cap_isUsable (ec_as e))"
    using conjunct1 [OF conjunct2 [OF threads_safe [OF r [unfolded ex_boot_def]]], THEN spec, of 1] w(2) by (rule mp)
  then show ?thesis
    using w r by (auto split: if_splits)
qed

end
