(* ===== verification/Spec2Isabelle.thy ===== *)
theory Spec2Isabelle
  imports First_Fit_Heap Boot_Paging Tasklet_Race Places Page_Safety Kernel_Objects Thread_System
begin

text \<open>
  A verification development for the MyThOS kernel. PLACEHOLDER
\<close>

end
